(* ===== verification/Prelude.thy ===== *)
theory Prelude
  imports Main "HOL-Library.Code_Target_Nat" "HOL-Library.Word" "HOL-Library.Sublist" "HOL-Library.AList" "HOL-Library.Multiset"
begin

text \<open>
  Shared vocabulary of the development: the fragment of C++ and of its standard library that the
  server uses, and the generic lemmas about it.

  A \<open>std::string\<close> is a \<^typ>\<open>string\<close> (a list of bytes). A position returned by
  \<open>find\<close> is a \<open>nat option\<close>, with \<open>None\<close> for \<open>std::string::npos\<close>; the places of the source that
  compute with \<open>npos\<close> or with a difference of positions use the wrapping 64-bit operations
  \<open>size_sub\<close> and \<open>pos_plus1\<close>. A function that can throw returns a value of the sum type
  \<open>'a throws\<close>, \<open>Inl\<close> being the exception. Character classification is that of the C locale.
  A \<open>std::unordered_map\<close> is an association list with distinct keys, and its iteration
  order, which the standard leaves open, is a parameter \<open>ord\<close> that permutes the keys.
\<close>

section \<open>Types\<close>

type_synonym u16 = "16 word"
type_synonym u32 = "32 word"
type_synonym u64 = "64 word"

datatype exn =
    Invalid_argument
  | Out_of_range
  | Filesystem_error
  | Runtime_error string

type_synonym 'a throws = "exn + 'a"

definition throws_bind :: "'a throws \<Rightarrow> ('a \<Rightarrow> 'b throws) \<Rightarrow> 'b throws" where
  "throws_bind m f = (case m of Inl e \<Rightarrow> Inl e | Inr v \<Rightarrow> f v)"

section \<open>std::string\<close>

abbreviation CR :: char where "CR \<equiv> CHR 0x0D"
abbreviation LF :: char where "LF \<equiv> CHR 0x0A"
abbreviation TAB :: char where "TAB \<equiv> CHR 0x09"

definition crlf :: string where
  "crlf = [CR, LF]"

definition crlfcrlf :: string where
  "crlfcrlf = [CR, LF, CR, LF]"

definition npos :: nat where
  "npos = 2 ^ 64 - 1"

definition size_sub :: "nat \<Rightarrow> nat \<Rightarrow> nat" where
  "size_sub a b = (a + (2 ^ 64 - b mod 2 ^ 64)) mod 2 ^ 64"

definition size_add :: "nat \<Rightarrow> nat \<Rightarrow> nat" where
  "size_add a b = (a + b) mod 2 ^ 64"

definition pos_plus1 :: "nat option \<Rightarrow> nat" where
  "pos_plus1 p = (case p of None \<Rightarrow> 0 | Some i \<Rightarrow> i + 1)"

fun str_find :: "'a list \<Rightarrow> 'a list \<Rightarrow> nat option" where
  "str_find pat [] = (if pat = [] then Some 0 else None)"
| "str_find pat (c # s) =
     (if prefix pat (c # s) then Some 0 else map_option Suc (str_find pat s))"

definition str_find_from :: "'a list \<Rightarrow> 'a list \<Rightarrow> nat \<Rightarrow> nat option" where
  "str_find_from pat s pos =
     (if pos > length s then None
      else map_option (\<lambda>i. i + pos) (str_find pat (drop pos s)))"

definition substr :: "'a list \<Rightarrow> nat \<Rightarrow> nat \<Rightarrow> 'a list throws" where
  "substr s pos n = (if pos > length s then Inl Out_of_range else Inr (take n (drop pos s)))"

definition substr_from :: "'a list \<Rightarrow> nat \<Rightarrow> 'a list throws" where
  "substr_from s pos = (if pos > length s then Inl Out_of_range else Inr (drop pos s))"

fun find_first_not_of :: "'a list \<Rightarrow> 'a list \<Rightarrow> nat option" where
  "find_first_not_of cs [] = None"
| "find_first_not_of cs (c # s) =
     (if c \<in> set cs then map_option Suc (find_first_not_of cs s) else Some 0)"

fun find_last_not_of :: "'a list \<Rightarrow> 'a list \<Rightarrow> nat option" where
  "find_last_not_of cs [] = None"
| "find_last_not_of cs (c # s) =
     (case find_last_not_of cs s of
        Some i \<Rightarrow> Some (Suc i)
      | None \<Rightarrow> if c \<in> set cs then None else Some 0)"

definition to_lower :: "char \<Rightarrow> char" where
  "to_lower c =
     (let n = of_char c :: nat in if 65 \<le> n \<and> n \<le> 90 then char_of (n + 32) else c)"

definition lower_str :: "string \<Rightarrow> string" where
  "lower_str s = map to_lower s"

definition drop_trailing :: "char \<Rightarrow> string \<Rightarrow> string" where
  "drop_trailing c s = (if s \<noteq> [] \<and> last s = c then butlast s else s)"

definition line_safe :: "string \<Rightarrow> bool" where
  "line_safe s = (CR \<notin> set s \<and> LF \<notin> set s)"

section \<open>Streams\<close>

definition is_space :: "char \<Rightarrow> bool" where
  "is_space c = (c = CHR '' '' \<or> (let n = of_char c :: nat in 9 \<le> n \<and> n \<le> 13))"

definition stream_word :: "string \<Rightarrow> (string \<times> string) option" where
  "stream_word s =
     (let s' = dropWhile is_space s in
      if s' = [] then None
      else Some (takeWhile (\<lambda>c. \<not> is_space c) s', dropWhile (\<lambda>c. \<not> is_space c) s'))"

definition getline :: "string \<Rightarrow> (string \<times> string) option" where
  "getline s =
     (if s = [] then None
      else Some (takeWhile (\<lambda>c. c \<noteq> LF) s, drop 1 (dropWhile (\<lambda>c. c \<noteq> LF) s)))"

section \<open>Numbers and text\<close>

definition is_digit :: "char \<Rightarrow> bool" where
  "is_digit c = (let n = of_char c :: nat in 48 \<le> n \<and> n \<le> 57)"

definition digit_val :: "char \<Rightarrow> nat" where
  "digit_val c = of_char c - 48"

definition dec_value :: "string \<Rightarrow> nat" where
  "dec_value ds = foldl (\<lambda>n c. n * 10 + digit_val c) 0 ds"

fun nat_to_string :: "nat \<Rightarrow> string" where
  "nat_to_string n =
     (if n < 10 then [char_of (48 + n)]
      else nat_to_string (n div 10) @ [char_of (48 + n mod 10)])"

declare nat_to_string.simps [simp del]

definition int_to_string :: "int \<Rightarrow> string" where
  "int_to_string i =
     (if i < 0 then CHR ''-'' # nat_to_string (nat (- i)) else nat_to_string (nat i))"

definition split_sign :: "string \<Rightarrow> bool \<times> string" where
  "split_sign s =
     (case s of
        [] \<Rightarrow> (False, [])
      | c # cs \<Rightarrow> if c = CHR ''-'' then (True, cs)
                  else if c = CHR ''+'' then (False, cs) else (False, s))"

definition strto_field :: "string \<Rightarrow> (bool \<times> nat) option" where
  "strto_field s =
     (let (neg, s2) = split_sign (dropWhile is_space s);
          ds = takeWhile is_digit s2
      in if ds = [] then None else Some (neg, dec_value ds))"

definition stoi :: "string \<Rightarrow> int throws" where
  "stoi s =
     (case strto_field s of
        None \<Rightarrow> Inl Invalid_argument
      | Some (neg, m) \<Rightarrow>
          (let v = (if neg then - int m else int m) in
           if v < - (2 ^ 31) \<or> v > 2 ^ 31 - 1 then Inl Out_of_range else Inr v))"

definition stoull :: "string \<Rightarrow> nat throws" where
  "stoull s =
     (case strto_field s of
        None \<Rightarrow> Inl Invalid_argument
      | Some (neg, m) \<Rightarrow>
          if m > 2 ^ 64 - 1 then Inl Out_of_range
          else Inr (if neg then (2 ^ 64 - m) mod 2 ^ 64 else m))"

section \<open>Floating point\<close>

text \<open>A \<open>double\<close> is its 64-bit pattern (\<open>0\<close> is \<open>0.0\<close>); its arithmetic and its formatting
  are parameters, so nothing is assumed about rounding.\<close>

type_synonym double = "64 word"

record double_ops =
  d_add :: "double \<Rightarrow> double \<Rightarrow> double"
  d_div :: "double \<Rightarrow> double \<Rightarrow> double"
  d_of_int :: "int \<Rightarrow> double"
  d_to_int :: "double \<Rightarrow> int"
  d_show :: "double \<Rightarrow> string"
  d_show_fixed :: "nat \<Rightarrow> double \<Rightarrow> string"

section \<open>std::unordered\_map\<close>

type_synonym ('k, 'v) umap = "('k \<times> 'v) list"

definition umap_iter :: "('k list \<Rightarrow> 'k list) \<Rightarrow> ('k, 'v) umap \<Rightarrow> ('k \<times> 'v) list" where
  "umap_iter ord m = map (\<lambda>k. (k, the (map_of m k))) (ord (map fst m))"

definition iteration_order :: "('k list \<Rightarrow> 'k list) \<Rightarrow> bool" where
  "iteration_order ord = (\<forall>ks. mset (ord ks) = mset ks)"

abbreviation umap_ok :: "('k, 'v) umap \<Rightarrow> bool" where
  "umap_ok m \<equiv> distinct (map fst m)"

section \<open>Lemmas\<close>

named_theorems throws_simps

lemma throws_bind_simps [simp, throws_simps]:
  "throws_bind (Inr v) f = f v"
  "throws_bind (Inl e) f = Inl e"
  by (simp_all add: throws_bind_def)

lemma throws_bind_Inr_iff:
  "throws_bind m f = Inr y \<longleftrightarrow> (\<exists>x. m = Inr x \<and> f x = Inr y)"
  by (simp add: throws_bind_def split: sum.splits)

lemma length_crlf [simp]: "length crlf = 2" "length crlfcrlf = 4"
  by (simp_all add: crlf_def crlfcrlf_def)

lemma crlf_neq_Nil [simp]: "crlf \<noteq> []" "crlfcrlf \<noteq> []"
  by (simp_all add: crlf_def crlfcrlf_def)

lemma drop_past_line:
  "drop (length l + 2) (l @ crlf @ rest) = rest"
  "take (length l) (l @ crlf @ rest) = l"
  by (simp_all add: crlf_def)

subsection \<open>find and substr\<close>

lemma str_find_Some:
  "str_find pat s = Some i \<Longrightarrow>
     i + length pat \<le> length s \<and> prefix pat (drop i s) \<and> (\<forall>j < i. \<not> prefix pat (drop j s))"
proof (induction s arbitrary: i)
  case Nil
  then show ?case by (simp split: if_splits)
next
  case (Cons c s)
  show ?case
  proof (cases "prefix pat (c # s)")
    case True
    with Cons.prems show ?thesis using prefix_length_le by fastforce
  next
    case False
    with Cons.prems obtain k where k: "str_find pat s = Some k" "i = Suc k" by auto
    from Cons.IH [OF k(1)] k(2) False show ?thesis
      by (auto simp: less_Suc_eq_0_disj)
  qed
qed

lemma str_find_None:
  "str_find pat s = None \<longleftrightarrow> (\<forall>j \<le> length s. \<not> prefix pat (drop j s))"
proof (induction s)
  case Nil
  then show ?case by simp
next
  case (Cons c s)
  have "(\<forall>j \<le> Suc (length s). \<not> prefix pat (drop j (c # s))) \<longleftrightarrow>
        \<not> prefix pat (c # s) \<and> (\<forall>j \<le> length s. \<not> prefix pat (drop j s))"
    by (metis Suc_le_mono drop0 drop_Suc_Cons le_SucE not0_implies_Suc zero_le)
  with Cons show ?case by simp
qed

lemma str_find_SomeI:
  assumes "prefix pat (drop i s)" "i \<le> length s" "\<forall>j < i. \<not> prefix pat (drop j s)"
  shows "str_find pat s = Some i"
proof (cases "str_find pat s")
  case None
  with assms show ?thesis by (auto simp: str_find_None)
next
  case (Some k)
  from str_find_Some [OF Some] assms have "k = i"
    by (meson linorder_neqE_nat)
  with Some show ?thesis by simp
qed

lemma str_find_iff:
  "str_find pat s = Some i \<longleftrightarrow>
     i \<le> length s \<and> prefix pat (drop i s) \<and> (\<forall>j < i. \<not> prefix pat (drop j s))"
  using str_find_SomeI str_find_Some by (metis add_leD1)

lemma str_find_zero_iff: "str_find pat s = Some 0 \<longleftrightarrow> prefix pat s"
  by (simp add: str_find_iff)

lemma str_find_append:
  assumes "str_find pat s = Some i"
  shows "str_find pat (s @ t) = Some i"
proof (rule str_find_SomeI)
  from str_find_Some [OF assms]
  have i: "i + length pat \<le> length s" "prefix pat (drop i s)"
    and less: "\<forall>j < i. \<not> prefix pat (drop j s)" by auto
  show "prefix pat (drop i (s @ t))" using i by (auto simp: prefix_def)
  show "i \<le> length (s @ t)" using i by simp
  show "\<forall>j < i. \<not> prefix pat (drop j (s @ t))"
  proof (intro allI impI notI)
    fix j assume j: "j < i" and p: "prefix pat (drop j (s @ t))"
    from j i have "length pat \<le> length (drop j s)" by simp
    with p j i have "prefix pat (drop j s)"
      by (metis drop_append prefix_length_prefix prefixI)
    with less j show False by blast
  qed
qed

lemma str_find_char_None: "c \<notin> set s \<Longrightarrow> str_find [c] s = None"
  by (induction s) (auto simp: prefix_def)

lemma str_find_prefix:
  assumes "str_find pat (s @ t) = Some i" "i + length pat \<le> length s"
  shows "str_find pat s = Some i"
proof (rule str_find_SomeI)
  from str_find_Some [OF assms(1)] have p: "prefix pat (drop i (s @ t))"
    and less: "\<forall>j < i. \<not> prefix pat (drop j (s @ t))" by auto
  show "prefix pat (drop i s)"
    using p assms(2) by (auto intro: prefix_length_prefix [of pat "drop i s @ t"])
  show "\<forall>j < i. \<not> prefix pat (drop j s)"
  proof (intro allI impI notI)
    fix j assume "j < i" "prefix pat (drop j s)"
    then have "prefix pat (drop j (s @ t))" using assms(2) by (auto simp: prefix_def)
    with less \<open>j < i\<close> show False by blast
  qed
qed (use assms(2) in simp)

lemma str_find_from_Some:
  assumes "str_find_from pat s pos = Some i"
  shows "pos \<le> i \<and> i + length pat \<le> length s \<and> prefix pat (drop i s)
           \<and> (\<forall>j. pos \<le> j \<longrightarrow> j < i \<longrightarrow> \<not> prefix pat (drop j s))"
proof -
  from assms obtain k where k: "str_find pat (drop pos s) = Some k" "i = k + pos" "pos \<le> length s"
    by (auto simp: str_find_from_def split: if_splits)
  note f = str_find_Some [OF k(1)]
  have "\<not> prefix pat (drop j s)" if "pos \<le> j" "j < i" for j
  proof -
    have "j - pos < k" using that k(2) by simp
    with f have "\<not> prefix pat (drop (j - pos) (drop pos s))" by blast
    with that show ?thesis by simp
  qed
  with f k(2,3) show ?thesis by (auto simp: add.commute)
qed

lemma str_find_from_None:
  assumes "str_find_from pat s pos = None" "pos \<le> j" "j \<le> length s"
  shows "\<not> prefix pat (drop j s)"
proof -
  have "str_find pat (drop pos s) = None" "j - pos \<le> length (drop pos s)"
    using assms by (auto simp: str_find_from_def split: if_splits)
  then have "\<not> prefix pat (drop (j - pos) (drop pos s))" using str_find_None by blast
  with assms(2) show ?thesis by simp
qed

lemma str_find_from_0 [simp]: "str_find_from pat s 0 = str_find pat s"
  by (simp add: str_find_from_def option.map_id0 [unfolded id_def])

lemma substr_ok [simp, throws_simps]:
  "pos \<le> length s \<Longrightarrow> substr s pos n = Inr (take n (drop pos s))"
  by (simp add: substr_def)

lemma substr_from_ok [simp, throws_simps]: "pos \<le> length s \<Longrightarrow> substr_from s pos = Inr (drop pos s)"
  by (simp add: substr_from_def)

lemma substr_Inl_iff: "substr s pos n = Inl e \<longleftrightarrow> pos > length s \<and> e = Out_of_range"
  by (auto simp: substr_def)

lemma find_first_not_of_dropWhile:
  "find_first_not_of cs s = Some i \<Longrightarrow> i < length s \<and> drop i s = dropWhile (\<lambda>c. c \<in> set cs) s"
  by (induction s arbitrary: i) (auto split: if_splits)

lemma find_first_not_of_None: "find_first_not_of cs s = None \<longleftrightarrow> set s \<subseteq> set cs"
  by (induction s) auto

lemma find_last_not_of_None: "find_last_not_of cs s = None \<longleftrightarrow> set s \<subseteq> set cs"
  by (induction s) (auto split: option.splits)

lemma find_last_not_of_Some:
  "find_last_not_of cs s = Some i \<Longrightarrow>
     i < length s \<and> s ! i \<notin> set cs \<and> set (drop (Suc i) s) \<subseteq> set cs"
  by (induction s arbitrary: i) (auto split: option.splits if_splits simp: find_last_not_of_None)

lemma length_lower_str [simp]: "length (lower_str s) = length s"
  by (simp add: lower_str_def)

lemma lower_str_append [simp]: "lower_str (s @ t) = lower_str s @ lower_str t"
  by (simp add: lower_str_def)

lemma find_first_not_of_keep:
  assumes "s \<noteq> []" "hd s \<notin> set cs"
  shows "find_first_not_of cs s = Some 0"
  using assms by (cases s) auto

lemma find_last_not_of_keep:
  assumes "s \<noteq> []" "last s \<notin> set cs"
  shows "find_last_not_of cs s = Some (length s - 1)"
  using assms
proof (induction s)
  case (Cons c s)
  then show ?case by (cases "s = []") auto
qed simp

lemma getline_shorter: "getline s = Some (l, r) \<Longrightarrow> length r < length s"
proof -
  assume a: "getline s = Some (l, r)"
  then have s: "s \<noteq> []" "r = drop 1 (dropWhile (\<lambda>c. c \<noteq> LF) s)"
    by (auto simp: getline_def split: if_splits)
  have "length (dropWhile (\<lambda>c. c \<noteq> LF) s) \<le> length s" by (rule length_dropWhile_le)
  moreover have "0 < length s" using s(1) by simp
  moreover have "length r = length (dropWhile (\<lambda>c. c \<noteq> LF) s) - 1" using s(2) by simp
  ultimately show ?thesis by linarith
qed

subsection \<open>Characters\<close>

lemma of_char_less_256 [simp]: "(of_char c :: nat) < 256"
  using of_char_mod_256 [of c, where 'a = nat] by (metis mod_less_divisor zero_less_numeral)

lemma of_char_char_of_nat: "n < 256 \<Longrightarrow> of_char (char_of n :: char) = (n :: nat)"
  by simp

lemma to_lower_idem [simp]: "to_lower (to_lower c) = to_lower c"
  by (auto simp: to_lower_def Let_def)

subsection \<open>Printing and reading numbers\<close>

lemma digit_char:
  assumes "d < 10"
  shows "is_digit (char_of (48 + d))" "digit_val (char_of (48 + d)) = d"
  using assms by (simp_all add: is_digit_def digit_val_def)

lemma dec_value_snoc [simp]: "dec_value (ds @ [c]) = dec_value ds * 10 + digit_val c"
  by (simp add: dec_value_def)

lemma dec_value_Nil [simp]: "dec_value [] = 0"
  by (simp add: dec_value_def)

lemma nat_to_string_neq_Nil [simp]: "nat_to_string n \<noteq> []"
  by (subst nat_to_string.simps) simp

lemma nat_to_string_digits: "\<forall>c \<in> set (nat_to_string n). is_digit c"
proof (induction n rule: nat_to_string.induct)
  case (1 n)
  then show ?case
    by (subst nat_to_string.simps) (auto intro: digit_char)
qed

lemma dec_value_nat_to_string [simp]: "dec_value (nat_to_string n) = n"
proof (induction n rule: nat_to_string.induct)
  case (1 n)
  show ?case
  proof (cases "n < 10")
    case True
    then show ?thesis
      by (subst nat_to_string.simps) (simp add: dec_value_def digit_char)
  next
    case False
    with 1 show ?thesis
      by (subst nat_to_string.simps) (simp add: digit_char)
  qed
qed

lemma nat_to_string_inj: "nat_to_string m = nat_to_string n \<longleftrightarrow> m = n"
  by (metis dec_value_nat_to_string)

lemma is_space_breaks [simp]: "is_space CR" "is_space LF" "is_space TAB" "is_space CHR '' ''"
  by (simp_all add: is_space_def)

lemma digit_not_space: "is_digit c \<Longrightarrow> \<not> is_space c"
  by (auto simp: is_digit_def is_space_def Let_def)

lemma digit_not_sign: "is_digit c \<Longrightarrow> c \<noteq> CHR ''-'' \<and> c \<noteq> CHR ''+''"
  by (auto simp: is_digit_def Let_def)

lemma strto_field_digits:
  assumes "ds \<noteq> []" "\<forall>c \<in> set ds. is_digit c" "rest = [] \<or> \<not> is_digit (hd rest)"
  shows "strto_field (ds @ rest) = Some (False, dec_value ds)"
proof -
  obtain c cs where ds: "ds = c # cs" using assms(1) by (cases ds) auto
  have c: "is_digit c" using assms(2) ds by simp
  have sp: "dropWhile is_space (ds @ rest) = ds @ rest"
    using digit_not_space [OF c] ds by simp
  have sg: "split_sign (ds @ rest) = (False, ds @ rest)"
    using digit_not_sign [OF c] ds by (simp add: split_sign_def)
  have "takeWhile is_digit (ds @ rest) = ds"
    using assms(2,3) by (cases rest) (auto simp: takeWhile_append)
  then show ?thesis using sp sg assms(1) by (simp add: strto_field_def)
qed

lemma stoull_digits:
  assumes "ds \<noteq> []" "\<forall>c \<in> set ds. is_digit c" "rest = [] \<or> \<not> is_digit (hd rest)"
    "dec_value ds < 2 ^ 64"
  shows "stoull (ds @ rest) = Inr (dec_value ds)"
  using strto_field_digits [OF assms(1-3)] assms(4) by (simp add: stoull_def)

lemma stoi_nat: "n < 2 ^ 31 \<Longrightarrow> stoi (nat_to_string n) = Inr (int n)"
  using strto_field_digits [OF nat_to_string_neq_Nil nat_to_string_digits, of "[]" n]
  by (simp add: stoi_def)

lemma stoull_nat: "n < 2 ^ 64 \<Longrightarrow> stoull (nat_to_string n) = Inr n"
  using stoull_digits [OF nat_to_string_neq_Nil nat_to_string_digits, of "[]" n] by simp

lemma stoull_bound: "stoull s = Inr n \<Longrightarrow> n < 2 ^ 64"
  by (auto simp: stoull_def split: option.splits if_splits)

subsection \<open>Lines\<close>

lemma digit_not_break: "is_digit c \<Longrightarrow> c \<noteq> CR \<and> c \<noteq> LF \<and> c \<noteq> CHR '':''"
  by (auto simp: is_digit_def)

lemma line_safe_nat [simp]: "line_safe (nat_to_string n)"
  using nat_to_string_digits [of n] digit_not_break by (auto simp: line_safe_def)

lemma line_safe_append [simp]: "line_safe (s @ t) \<longleftrightarrow> line_safe s \<and> line_safe t"
  by (auto simp: line_safe_def)

lemma line_safe_Cons: "line_safe (c # s) \<longleftrightarrow> c \<noteq> CR \<and> c \<noteq> LF \<and> line_safe s"
  by (auto simp: line_safe_def)

lemma line_safe_Nil [simp]: "line_safe []"
  by (simp add: line_safe_def)

lemma str_find_line:
  assumes "line_safe l"
  shows "str_find crlf (l @ crlf @ rest) = Some (length l)"
  using assms by (induction l) (auto simp: crlf_def line_safe_Cons)

lemma str_find_colon:
  assumes "CHR '':'' \<notin> set k"
  shows "str_find '': '' (k @ '': '' @ v) = Some (length k)"
  using assms by (induction k) auto

lemma size_sub_le: "b \<le> a \<Longrightarrow> a < 2 ^ 64 \<Longrightarrow> size_sub a b = a - b"
proof -
  assume a: "b \<le> a" "a < 2 ^ 64"
  then have "a + (2 ^ 64 - b mod 2 ^ 64) = (a - b) + 2 ^ 64" by simp
  then have "size_sub a b = ((a - b) + 2 ^ 64) mod 2 ^ 64" by (simp only: size_sub_def)
  moreover have "(a - b) mod 2 ^ 64 = a - b" by (rule mod_less) (use a in simp)
  ultimately show ?thesis by (metis mod_add_self2)
qed

lemma getline_line:
  "LF \<notin> set l \<Longrightarrow> getline (l @ crlf @ rest) = Some (l @ [CR], rest)"
  by (auto simp: getline_def crlf_def takeWhile_append dropWhile_append)

lemma getline_LF:
  "LF \<notin> set l \<Longrightarrow> getline (l @ LF # rest) = Some (l, rest)"
  by (auto simp: getline_def takeWhile_append dropWhile_append)

lemma getline_last: "LF \<notin> set l \<Longrightarrow> l \<noteq> [] \<Longrightarrow> getline l = Some (l, [])"
  by (subgoal_tac "\<forall>c \<in> set l. c \<noteq> LF")
     (auto simp: getline_def takeWhile_eq_all_conv [THEN iffD2] dropWhile_eq_Nil_conv [THEN iffD2])

lemma getline_Nil [simp]: "getline [] = None"
  by (simp add: getline_def)

lemma drop_trailing_simps [simp]:
  "drop_trailing c (l @ [c]) = l"
  "c \<notin> set l \<Longrightarrow> drop_trailing c l = l"
  by (auto simp: drop_trailing_def)

subsection \<open>Unordered maps\<close>

lemma iteration_order_simps:
  assumes "iteration_order ord"
  shows "set (ord ks) = set ks" "length (ord ks) = length ks" "distinct (ord ks) = distinct ks"
proof -
  have m: "mset (ord ks) = mset ks" using assms by (simp add: iteration_order_def)
  then show "set (ord ks) = set ks" "length (ord ks) = length ks"
    by (metis set_mset_mset, metis size_mset)
  from m show "distinct (ord ks) = distinct ks" by (metis mset_eq_imp_distinct_iff)
qed

lemma iteration_order_id [simp]: "iteration_order (\<lambda>ks. ks)" "iteration_order rev"
  by (simp_all add: iteration_order_def)

lemma set_umap_iter:
  assumes "iteration_order ord" "umap_ok m"
  shows "set (umap_iter ord m) = set m"
proof -
  have "set (umap_iter ord m) = (\<lambda>k. (k, the (map_of m k))) ` set (map fst m)"
    using assms(1) by (simp add: umap_iter_def iteration_order_simps)
  also have "\<dots> = set m"
    using assms(2) by (force simp: image_image map_of_eq_Some_iff)
  finally show ?thesis .
qed

lemma map_fst_umap_iter [simp]: "map fst (umap_iter ord m) = ord (map fst m)"
  by (simp add: umap_iter_def comp_def)

lemma umap_ok_update [simp]: "umap_ok m \<Longrightarrow> umap_ok (AList.update k v m)"
  by (rule distinct_update)

lemma list_all_AList_update:
  "list_all P m \<Longrightarrow> P (k, v) \<Longrightarrow> list_all P (AList.update k v m)"
  by (induction m) auto

lemma map_of_AList_update: "map_of (AList.update k v m) k' = (if k' = k then Some v else map_of m k')"
  by (simp add: update_conv')

lemma map_of_rev_distinct: "umap_ok m \<Longrightarrow> map_of (rev m) = map_of m"
  by (subst map_of_inject_set) (simp_all flip: rev_map)

end
