(* ===== verification/Transition.thy ===== *)
theory Transition
  imports Prelude
begin

text \<open>
  Runs of transition systems, and the two rules by which the system of \<open>ServerSystem\<close> is related to
  simpler ones: an invariant of the steps, and a simulation in which a step of the detailed system is
  matched by any number of steps of the abstract one.
\<close>

section \<open>Reachable states\<close>

inductive reaches :: "('s \<Rightarrow> bool) \<Rightarrow> ('s \<Rightarrow> 's \<Rightarrow> bool) \<Rightarrow> 's \<Rightarrow> bool" for init step where
  start: "init s \<Longrightarrow> reaches init step s"
| step: "reaches init step s \<Longrightarrow> step s s' \<Longrightarrow> reaches init step s'"

lemma reaches_star: "step\<^sup>*\<^sup>* s s' \<Longrightarrow> reaches init step s \<Longrightarrow> reaches init step s'"
  by (induction rule: rtranclp_induct) (auto intro: reaches.step)

section \<open>Contracts\<close>

locale invariant_rule =
  fixes init :: "'s \<Rightarrow> bool" and step :: "'s \<Rightarrow> 's \<Rightarrow> bool" and inv :: "'s \<Rightarrow> bool"
  assumes inv_init: "init s \<Longrightarrow> inv s"
    and inv_step: "inv s \<Longrightarrow> step s s' \<Longrightarrow> inv s'"
begin

lemma inv_reaches: "reaches init step s \<Longrightarrow> inv s"
  by (induction rule: reaches.induct) (auto intro: inv_init inv_step)

end

locale simulation = invariant_rule init step inv
  for init :: "'c \<Rightarrow> bool" and step :: "'c \<Rightarrow> 'c \<Rightarrow> bool" and inv :: "'c \<Rightarrow> bool" +
  fixes abs_init :: "'a \<Rightarrow> bool" and abs_step :: "'a \<Rightarrow> 'a \<Rightarrow> bool" and abstraction :: "'c \<Rightarrow> 'a"
  assumes sim_init: "init s \<Longrightarrow> abs_init (abstraction s)"
    and sim_step: "inv s \<Longrightarrow> step s s' \<Longrightarrow> abs_step\<^sup>*\<^sup>* (abstraction s) (abstraction s')"
begin

lemma sim_reaches: "reaches init step s \<Longrightarrow> reaches abs_init abs_step (abstraction s)"
proof (induction rule: reaches.induct)
  case (start s)
  show ?case by (rule reaches.start, rule sim_init, rule start)
next
  case (step s s')
  show ?case by (rule reaches_star [OF sim_step [OF inv_reaches [OF step(1)] step(2)] step.IH])
qed

end

end
