(* ===== verification/HttpRequest.thy ===== *)
theory HttpRequest
  imports Prelude
begin

text \<open>
  Model of \<open>include/server/http_request.hpp\<close>: the method enumeration with its two conversions, the
  request structure with its default values, and the case-insensitive header lookup.
\<close>

section \<open>Data and operations\<close>

datatype HttpMethod = GET | POST | HEAD | UNKNOWN

fun method_to_string :: "HttpMethod \<Rightarrow> string" where
  "method_to_string GET = ''GET''"
| "method_to_string POST = ''POST''"
| "method_to_string HEAD = ''HEAD''"
| "method_to_string UNKNOWN = ''UNKNOWN''"

definition string_to_method :: "string \<Rightarrow> HttpMethod" where
  "string_to_method s =
     (if s = ''GET'' then GET
      else if s = ''POST'' then POST
      else if s = ''HEAD'' then HEAD
      else UNKNOWN)"

record HttpRequest =
  req_method :: HttpMethod
  req_method_string :: string
  req_path :: string
  req_version :: string
  req_headers :: "(string, string) umap"
  req_body :: string

definition HttpRequest_default :: HttpRequest where
  "HttpRequest_default =
     \<lparr>req_method = UNKNOWN, req_method_string = [], req_path = [], req_version = [],
      req_headers = [], req_body = []\<rparr>"

fun get_header_loop :: "string \<Rightarrow> (string \<times> string) list \<Rightarrow> string" where
  "get_header_loop lower_name [] = []"
| "get_header_loop lower_name ((key, value) # rest) =
     (if lower_str key = lower_name then value else get_header_loop lower_name rest)"

definition get_header :: "(string list \<Rightarrow> string list) \<Rightarrow> HttpRequest \<Rightarrow> string \<Rightarrow> string" where
  "get_header ord req name = get_header_loop (lower_str name) (umap_iter ord (req_headers req))"

section \<open>Lemmas\<close>

lemma string_to_method_to_string: "string_to_method (method_to_string m) = m"
  by (cases m) (simp_all add: string_to_method_def)

lemma get_header_loop_None:
  "\<forall>(k, v) \<in> set hs. lower_str k \<noteq> n \<Longrightarrow> get_header_loop n hs = []"
  by (induction n hs rule: get_header_loop.induct) auto

lemma get_header_loop_unique:
  assumes "(k, v) \<in> set hs" "lower_str k = n"
    "\<forall>(k', v') \<in> set hs. lower_str k' = n \<longrightarrow> v' = v"
  shows "get_header_loop n hs = v"
  using assms by (induction n hs rule: get_header_loop.induct) auto

lemma get_header_unique:
  assumes "iteration_order ord" "umap_ok (req_headers req)"
    "(k, v) \<in> set (req_headers req)" "lower_str k = lower_str name"
    "\<forall>(k', v') \<in> set (req_headers req). lower_str k' = lower_str name \<longrightarrow> k' = k"
  shows "get_header ord req name = v"
proof -
  have "\<forall>(k', v') \<in> set (req_headers req). lower_str k' = lower_str name \<longrightarrow> v' = v"
    using assms(2,3,5) by (blast intro: eq_key_imp_eq_value)
  then show ?thesis
    unfolding get_header_def using assms
    by (intro get_header_loop_unique [of k]) (auto simp: set_umap_iter)
qed

lemma get_header_absent:
  assumes "iteration_order ord" "umap_ok (req_headers req)"
    "\<forall>(k, v) \<in> set (req_headers req). lower_str k \<noteq> lower_str name"
  shows "get_header ord req name = []"
  unfolding get_header_def using assms by (intro get_header_loop_None) (simp add: set_umap_iter)

end
