(* ===== verification/HttpResponse.thy ===== *)
theory HttpResponse
  imports Prelude
begin

text \<open>
  Model of \<open>include/server/http_response.hpp\<close>: status codes, the response object with its mutators
  and factories, and its serialisation. \<open>decode_response\<close> is the specification of the
  receiving side: it splits a serialised response back into status line, header list and body.
  \<open>resp_wf\<close> is the well-formedness invariant (distinct header names, a truthful
  \<open>Content-Length\<close>, and no line break or colon where it would be misread).
\<close>

section \<open>Data and operations\<close>

datatype StatusCode =
    OK
  | BAD_REQUEST
  | FORBIDDEN
  | NOT_FOUND
  | METHOD_NOT_ALLOWED
  | PAYLOAD_TOO_LARGE
  | INTERNAL_ERROR
  | NOT_IMPLEMENTED
  | SERVICE_UNAVAILABLE

fun status_int :: "StatusCode \<Rightarrow> nat" where
  "status_int OK = 200"
| "status_int BAD_REQUEST = 400"
| "status_int FORBIDDEN = 403"
| "status_int NOT_FOUND = 404"
| "status_int METHOD_NOT_ALLOWED = 405"
| "status_int PAYLOAD_TOO_LARGE = 413"
| "status_int INTERNAL_ERROR = 500"
| "status_int NOT_IMPLEMENTED = 501"
| "status_int SERVICE_UNAVAILABLE = 503"

fun reason_phrase :: "StatusCode \<Rightarrow> string" where
  "reason_phrase OK = ''OK''"
| "reason_phrase BAD_REQUEST = ''Bad Request''"
| "reason_phrase FORBIDDEN = ''Forbidden''"
| "reason_phrase NOT_FOUND = ''Not Found''"
| "reason_phrase METHOD_NOT_ALLOWED = ''Method Not Allowed''"
| "reason_phrase PAYLOAD_TOO_LARGE = ''Payload Too Large''"
| "reason_phrase INTERNAL_ERROR = ''Internal Server Error''"
| "reason_phrase NOT_IMPLEMENTED = ''Not Implemented''"
| "reason_phrase SERVICE_UNAVAILABLE = ''Service Unavailable''"

record HttpResponse =
  resp_status :: StatusCode
  resp_headers :: "(string, string) umap"
  resp_body :: string

definition HttpResponse_default :: HttpResponse where
  "HttpResponse_default = \<lparr>resp_status = OK, resp_headers = [], resp_body = []\<rparr>"

definition set_status :: "StatusCode \<Rightarrow> HttpResponse \<Rightarrow> HttpResponse" where
  "set_status code r = r\<lparr>resp_status := code\<rparr>"

definition set_header :: "string \<Rightarrow> string \<Rightarrow> HttpResponse \<Rightarrow> HttpResponse" where
  "set_header key value r = r\<lparr>resp_headers := AList.update key value (resp_headers r)\<rparr>"

definition set_body :: "string \<Rightarrow> HttpResponse \<Rightarrow> HttpResponse" where
  "set_body body r =
     set_header ''Content-Length'' (nat_to_string (length body)) (r\<lparr>resp_body := body\<rparr>)"

definition set_content_type :: "string \<Rightarrow> HttpResponse \<Rightarrow> HttpResponse" where
  "set_content_type type r = set_header ''Content-Type'' type r"

definition HttpResponse_make :: "StatusCode \<Rightarrow> string \<Rightarrow> HttpResponse" where
  "HttpResponse_make code body =
     set_body body \<lparr>resp_status = code, resp_headers = [], resp_body = []\<rparr>"

fun serialize_headers :: "(string \<times> string) list \<Rightarrow> string" where
  "serialize_headers [] = []"
| "serialize_headers ((k, v) # hs) = k @ '': '' @ v @ crlf @ serialize_headers hs"

definition serialize :: "(string list \<Rightarrow> string list) \<Rightarrow> HttpResponse \<Rightarrow> string" where
  "serialize ord r =
     ''HTTP/1.1 '' @ nat_to_string (status_int (resp_status r)) @ '' '' @
     reason_phrase (resp_status r) @ crlf @
     serialize_headers (umap_iter ord (resp_headers r)) @ crlf @ resp_body r"

definition status_code :: "HttpResponse \<Rightarrow> StatusCode" where
  "status_code r = resp_status r"

definition headers_map_get :: "(string list \<Rightarrow> string list) \<Rightarrow> HttpResponse \<Rightarrow> string" where
  "headers_map_get ord r =
     concat (map (\<lambda>(k, v). k @ '': '' @ v @ [LF]) (umap_iter ord (resp_headers r)))"

definition HttpResponse_ok :: "string \<Rightarrow> string \<Rightarrow> HttpResponse" where
  "HttpResponse_ok body content_type =
     set_header ''Connection'' ''close'' (set_content_type content_type (HttpResponse_make OK body))"

definition bad_request :: "string \<Rightarrow> HttpResponse" where
  "bad_request body =
     set_header ''Connection'' ''close''
       (set_content_type ''text/plain'' (HttpResponse_make BAD_REQUEST body))"

definition forbidden :: "string \<Rightarrow> HttpResponse" where
  "forbidden body =
     set_header ''Connection'' ''close''
       (set_content_type ''text/plain'' (HttpResponse_make FORBIDDEN body))"

definition not_found :: "string \<Rightarrow> HttpResponse" where
  "not_found body =
     set_header ''Connection'' ''close''
       (set_content_type ''text/plain'' (HttpResponse_make NOT_FOUND body))"

definition method_not_allowed :: "string \<Rightarrow> HttpResponse" where
  "method_not_allowed allow =
     (let resp = set_header ''Connection'' ''close''
                   (set_content_type ''text/plain''
                     (HttpResponse_make METHOD_NOT_ALLOWED ''Method Not Allowed''))
      in if allow \<noteq> [] then set_header ''Allow'' allow resp else resp)"

definition payload_too_large :: HttpResponse where
  "payload_too_large =
     set_header ''Connection'' ''close''
       (set_content_type ''text/plain'' (HttpResponse_make PAYLOAD_TOO_LARGE ''Payload Too Large''))"

definition internal_error :: "string \<Rightarrow> HttpResponse" where
  "internal_error body =
     set_header ''Connection'' ''close''
       (set_content_type ''text/plain'' (HttpResponse_make INTERNAL_ERROR body))"

definition not_implemented :: HttpResponse where
  "not_implemented =
     set_header ''Connection'' ''close''
       (set_content_type ''text/plain'' (HttpResponse_make NOT_IMPLEMENTED ''Not Implemented''))"

definition service_unavailable :: HttpResponse where
  "service_unavailable =
     set_header ''Retry-After'' ''5''
       (set_header ''Connection'' ''close''
         (set_content_type ''text/plain''
           (HttpResponse_make SERVICE_UNAVAILABLE ''Service Unavailable'')))"

section \<open>Specification: the receiving side\<close>

function decode_headers :: "string \<Rightarrow> ((string \<times> string) list \<times> string) option" where
  "decode_headers s =
     (if prefix crlf s then Some ([], drop 2 s)
      else case str_find crlf s of
        None \<Rightarrow> None
      | Some i \<Rightarrow>
          (case str_find '': '' (take i s) of
             None \<Rightarrow> None
           | Some j \<Rightarrow>
               (case decode_headers (drop (i + 2) s) of
                  None \<Rightarrow> None
                | Some (hs, body) \<Rightarrow> Some ((take j s, drop (j + 2) (take i s)) # hs, body))))"
  by pat_completeness auto
termination
  by (relation "measure length") (auto dest: str_find_Some)

declare decode_headers.simps [simp del]

definition decode_response :: "string \<Rightarrow> (string \<times> (string \<times> string) list \<times> string) option" where
  "decode_response s =
     (case str_find crlf s of
        None \<Rightarrow> None
      | Some i \<Rightarrow>
          (case decode_headers (drop (i + 2) s) of
             None \<Rightarrow> None
           | Some (hs, body) \<Rightarrow> Some (take i s, hs, body)))"

definition status_line :: "StatusCode \<Rightarrow> string" where
  "status_line c = ''HTTP/1.1 '' @ nat_to_string (status_int c) @ '' '' @ reason_phrase c"

definition header_safe :: "string \<times> string \<Rightarrow> bool" where
  "header_safe kv = (line_safe (fst kv) \<and> CHR '':'' \<notin> set (fst kv) \<and> line_safe (snd kv))"

definition resp_wf :: "HttpResponse \<Rightarrow> bool" where
  "resp_wf r =
     (umap_ok (resp_headers r) \<and> list_all header_safe (resp_headers r) \<and>
      map_of (resp_headers r) ''Content-Length'' = Some (nat_to_string (length (resp_body r))))"

definition resp_header :: "HttpResponse \<Rightarrow> string \<Rightarrow> string option" where
  "resp_header r k = map_of (resp_headers r) k"

section \<open>Lemmas\<close>

lemmas resp_defs = set_header_def set_body_def set_content_type_def HttpResponse_make_def
lemmas factory_defs = HttpResponse_ok_def bad_request_def forbidden_def not_found_def
  method_not_allowed_def payload_too_large_def internal_error_def not_implemented_def
  service_unavailable_def

lemma header_safe_update:
  "list_all header_safe m \<Longrightarrow> header_safe (k, v) \<Longrightarrow> list_all header_safe (AList.update k v m)"
  by (induction m) auto

lemma set_header_wf:
  assumes "resp_wf r" "header_safe (k, v)" "k \<noteq> ''Content-Length''"
  shows "resp_wf (set_header k v r)"
  using assms by (simp add: resp_wf_def set_header_def header_safe_update update_conv')

lemma header_safe_content_length: "header_safe (''Content-Length'', nat_to_string n)"
  by (simp add: header_safe_def line_safe_Cons)

lemma set_body_wf:
  assumes "umap_ok (resp_headers r)" "list_all header_safe (resp_headers r)"
  shows "resp_wf (set_body b r)"
  using assms header_safe_content_length
  by (simp add: resp_wf_def set_body_def set_header_def header_safe_update update_conv')

lemma set_content_type_wf:
  "resp_wf r \<Longrightarrow> line_safe t \<Longrightarrow> resp_wf (set_content_type t r)"
  unfolding set_content_type_def
  by (rule set_header_wf) (simp_all add: header_safe_def line_safe_Cons)

lemma HttpResponse_make_wf: "resp_wf (HttpResponse_make c b)"
  unfolding HttpResponse_make_def by (rule set_body_wf) simp_all

lemma set_connection_wf: "resp_wf r \<Longrightarrow> resp_wf (set_header ''Connection'' ''close'' r)"
  by (rule set_header_wf) (simp_all add: header_safe_def line_safe_Cons)

lemma typed_response_wf:
  "line_safe t \<Longrightarrow>
     resp_wf (set_header ''Connection'' ''close'' (set_content_type t (HttpResponse_make c b)))"
  by (intro set_connection_wf set_content_type_wf HttpResponse_make_wf)

lemma line_safe_text_plain: "line_safe ''text/plain''"
  by (simp add: line_safe_Cons)

lemma service_unavailable_wf: "resp_wf service_unavailable"
  unfolding service_unavailable_def
  by (rule set_header_wf [OF typed_response_wf [OF line_safe_text_plain]])
     (simp_all add: header_safe_def line_safe_Cons)

lemma method_not_allowed_wf: "line_safe allow \<Longrightarrow> resp_wf (method_not_allowed allow)"
  using set_header_wf [OF typed_response_wf [OF line_safe_text_plain], of "''Allow''" allow]
    typed_response_wf [OF line_safe_text_plain]
  by (simp add: method_not_allowed_def Let_def header_safe_def line_safe_Cons)

lemma factories_wf:
  "line_safe t \<Longrightarrow> resp_wf (HttpResponse_ok b t)"
  "resp_wf (bad_request b)"
  "resp_wf (forbidden b)"
  "resp_wf (not_found b)"
  "resp_wf payload_too_large"
  "resp_wf (internal_error b)"
  "resp_wf not_implemented"
  unfolding HttpResponse_ok_def bad_request_def forbidden_def not_found_def payload_too_large_def
    internal_error_def not_implemented_def
  by (simp_all add: typed_response_wf line_safe_text_plain)

lemma not_prefix_crlf:
  assumes "line_safe l" "l \<noteq> []"
  shows "\<not> prefix crlf (l @ rest)"
  using assms by (cases l) (auto simp: crlf_def line_safe_Cons)

lemma decode_serialize_headers:
  assumes "list_all header_safe hs"
  shows "decode_headers (serialize_headers hs @ crlf @ body) = Some (hs, body)"
  using assms
proof (induction hs)
  case Nil
  then show ?case by (subst decode_headers.simps) (simp add: crlf_def)
next
  case (Cons kv hs)
  obtain k v where kv: "kv = (k, v)" by (cases kv)
  let ?l = "k @ '': '' @ v"
  let ?s = "serialize_headers (kv # hs) @ crlf @ body"
  have s: "?s = ?l @ crlf @ (serialize_headers hs @ crlf @ body)" by (simp add: kv)
  have safe: "line_safe ?l" "CHR '':'' \<notin> set k"
    using Cons.prems kv by (simp_all add: header_safe_def line_safe_Cons)
  have np: "\<not> prefix crlf ?s" unfolding s by (rule not_prefix_crlf [OF safe(1)]) simp
  have f: "str_find crlf ?s = Some (length ?l)" unfolding s by (rule str_find_line [OF safe(1)])
  have t: "take (length ?l) ?s = ?l" "drop (length ?l + 2) ?s = serialize_headers hs @ crlf @ body"
    unfolding s by (rule drop_past_line)+
  have j: "take (length k) ?s = k" unfolding s by simp
  have IH: "decode_headers (serialize_headers hs @ crlf @ body) = Some (hs, body)"
    using Cons by simp
  show ?case
    by (subst decode_headers.simps)
       (simp only: np f t j str_find_colon [OF safe(2)] IH if_False option.case prod.case, simp add: kv)
qed

lemma line_safe_status_line: "line_safe (status_line c)"
  by (cases c) (simp_all add: status_line_def line_safe_Cons)

lemma umap_iter_safe:
  assumes "iteration_order ord" "umap_ok m" "list_all header_safe m"
  shows "list_all header_safe (umap_iter ord m)"
  using assms by (simp add: list_all_iff set_umap_iter)

lemma serialize_eq:
  "serialize ord r =
     status_line (resp_status r) @ crlf @
     (serialize_headers (umap_iter ord (resp_headers r)) @ crlf @ resp_body r)"
  by (simp add: serialize_def status_line_def)

lemma decode_serialize:
  assumes "iteration_order ord" "umap_ok (resp_headers r)" "list_all header_safe (resp_headers r)"
  shows "decode_response (serialize ord r) =
           Some (status_line (resp_status r), umap_iter ord (resp_headers r), resp_body r)"
proof -
  let ?hs = "umap_iter ord (resp_headers r)"
  have f: "str_find crlf (serialize ord r) = Some (length (status_line (resp_status r)))"
    unfolding serialize_eq by (rule str_find_line [OF line_safe_status_line])
  have d: "decode_headers (serialize_headers ?hs @ crlf @ resp_body r) = Some (?hs, resp_body r)"
    by (rule decode_serialize_headers [OF umap_iter_safe [OF assms]])
  have "drop (length (status_line (resp_status r)) + 2) (serialize ord r) =
          serialize_headers ?hs @ crlf @ resp_body r"
    "take (length (status_line (resp_status r))) (serialize ord r) = status_line (resp_status r)"
    unfolding serialize_eq by (rule drop_past_line)+
  with f d show ?thesis by (simp add: decode_response_def)
qed

lemma status_int_inj: "status_int a = status_int b \<Longrightarrow> a = b"
  by (cases a; cases b; simp)

section \<open>Properties\<close>

text \<open>C16: Serialisation is unambiguous. A receiver that splits a serialised well-formed response at
  its line breaks recovers the status line, every header exactly once with its value (in the
  order in which the map was iterated) and the body, and the \<open>Content-Length\<close> it reads is the
  number of body bytes.\<close>

theorem serialize_roundtrip:
  assumes "iteration_order ord" "resp_wf r"
  shows "\<exists>hs. decode_response (serialize ord r) =
                 Some (status_line (status_code r), hs, resp_body r) \<and>
              set hs = set (resp_headers r) \<and> distinct (map fst hs) \<and>
              (''Content-Length'', nat_to_string (length (resp_body r))) \<in> set hs"
proof -
  have wf: "umap_ok (resp_headers r)" "list_all header_safe (resp_headers r)"
    "map_of (resp_headers r) ''Content-Length'' = Some (nat_to_string (length (resp_body r)))"
    using assms(2) by (simp_all add: resp_wf_def)
  show ?thesis
    using decode_serialize [OF assms(1) wf(1,2)] set_umap_iter [OF assms(1) wf(1)] wf
      iteration_order_simps [OF assms(1)] map_of_SomeD [OF wf(3)]
    by (intro exI [of _ "umap_iter ord (resp_headers r)"]) (simp add: status_code_def)
qed

theorem serialize_roundtrip_witness:
  "\<exists>hs. decode_response (serialize rev (HttpResponse_ok ''hi'' ''text/plain'')) =
          Some (status_line (status_code (HttpResponse_ok ''hi'' ''text/plain'')), hs,
                resp_body (HttpResponse_ok ''hi'' ''text/plain'')) \<and>
        set hs = set (resp_headers (HttpResponse_ok ''hi'' ''text/plain'')) \<and> distinct (map fst hs) \<and>
        (''Content-Length'', nat_to_string (length (resp_body (HttpResponse_ok ''hi'' ''text/plain'')))) \<in> set hs"
  by (rule serialize_roundtrip) (simp_all add: factories_wf line_safe_Cons)

text \<open>Every mutator keeps a response well-formed (\<open>set_body\<close> and \<open>set_status\<close> always,
  \<open>set_header\<close> for a safe header other than \<open>Content-Length\<close>), and the response
  constructor establishes well-formedness.\<close>

lemma mutators_keep_wf:
  assumes "resp_wf r" "header_safe (k, v)" "k \<noteq> ''Content-Length''" "line_safe t"
  shows "resp_wf (set_body b r) \<and> resp_wf (set_status c r) \<and> resp_wf (set_header k v r) \<and>
         resp_wf (set_content_type t r) \<and> resp_wf (HttpResponse_make c b)"
  using assms set_body_wf [of r b] set_header_wf [OF assms(1-3)] set_content_type_wf [OF assms(1,4)]
    HttpResponse_make_wf
  by (simp add: resp_wf_def set_status_def)

end
