(* ===== verification/HttpParser.thy ===== *)
theory HttpParser
  imports HttpRequest
begin

text \<open>
  Model of \<open>src/http_parser.cpp\<close> and \<open>include/server/http_parser.hpp\<close>. \<open>HttpParser_parse\<close> follows the
  source statement by statement: the header/body separator, the header size limit, the request
  line read with stream extraction, the header lines collected with \<open>getline\<close>, and the
  body cut to the declared \<open>Content-Length\<close>. Every \<open>substr\<close> is the throwing one, so that
  the absence of an exception is a theorem. \<open>build_request\<close> turns the result into an
  \<open>HttpRequest\<close>. \<open>request_text\<close> is the specification side: the wire format of a request.
\<close>

section \<open>Data and operations\<close>

datatype ParseError = NONE | INCOMPLETE | MALFORMED | HEADER_TOO_LARGE | BODY_TOO_LARGE

record ParseResult =
  pr_error :: ParseError
  pr_method :: string
  pr_path :: string
  pr_version :: string
  pr_headers_raw :: string
  pr_body :: string
  pr_has_headers :: bool

definition ParseResult_default :: ParseResult where
  "ParseResult_default =
     \<lparr>pr_error = NONE, pr_method = [], pr_path = [], pr_version = [], pr_headers_raw = [],
      pr_body = [], pr_has_headers = False\<rparr>"

definition blanks :: string where
  "blanks = [CHR '' '', TAB]"

definition read_request_line :: "string \<Rightarrow> string \<times> string \<times> string \<times> bool" where
  "read_request_line line =
     (case stream_word line of
        None \<Rightarrow> ([], [], [], False)
      | Some (m, s1) \<Rightarrow>
          (case stream_word s1 of
             None \<Rightarrow> (m, [], [], False)
           | Some (p, s2) \<Rightarrow>
               (case stream_word s2 of
                  None \<Rightarrow> (m, p, [], False)
                | Some (v, s3) \<Rightarrow> (m, p, v, True))))"

function collect_headers :: "string \<Rightarrow> string" where
  "collect_headers s =
     (case getline s of
        None \<Rightarrow> []
      | Some (line, rest) \<Rightarrow>
          (let line' = drop_trailing CR line in
           if line' = [] then [] else line' @ [LF] @ collect_headers rest))"
  by pat_completeness auto
termination
  by (relation "measure length")
     (auto dest: getline_shorter)

declare collect_headers.simps [simp del]

definition left_trim :: "string \<Rightarrow> string throws" where
  "left_trim v =
     (case find_first_not_of blanks v of None \<Rightarrow> Inr v | Some start \<Rightarrow> substr_from v start)"

definition parse_body :: "string \<Rightarrow> nat \<Rightarrow> string \<Rightarrow> nat \<Rightarrow> ParseResult \<Rightarrow> ParseResult throws" where
  "parse_body raw header_end body_data max_body_size result =
     throws_bind (substr raw 0 (header_end + 4)) (\<lambda>up.
       (case str_find ''content-length:'' (lower_str up) of
          None \<Rightarrow> Inr (result\<lparr>pr_body := body_data, pr_error := NONE\<rparr>)
        | Some cl_pos \<Rightarrow>
            (let colon_pos = str_find_from '':'' up cl_pos;
                 eol_pos = str_find_from crlf up (pos_plus1 colon_pos)
             in case colon_pos of
                  None \<Rightarrow> Inr (result\<lparr>pr_error := NONE\<rparr>)
                | Some c \<Rightarrow>
                  (case eol_pos of
                     None \<Rightarrow> Inr (result\<lparr>pr_error := NONE\<rparr>)
                   | Some e \<Rightarrow>
                       throws_bind (substr up (c + 1) (size_sub (size_sub e c) 1)) (\<lambda>cl_raw.
                       throws_bind (left_trim cl_raw) (\<lambda>cl_value.
                       (case stoull cl_value of
                          Inl _ \<Rightarrow> Inr (result\<lparr>pr_error := MALFORMED\<rparr>)
                        | Inr content_length \<Rightarrow>
                            if content_length > max_body_size
                            then Inr (result\<lparr>pr_error := BODY_TOO_LARGE\<rparr>)
                            else if length body_data < content_length
                            then Inr (result\<lparr>pr_error := INCOMPLETE\<rparr>)
                            else throws_bind (substr body_data 0 content_length) (\<lambda>b.
                                   Inr (result\<lparr>pr_body := b, pr_error := NONE\<rparr>)))))))))"

definition HttpParser_parse :: "string \<Rightarrow> nat \<Rightarrow> nat \<Rightarrow> ParseResult throws" where
  "HttpParser_parse raw max_header_size max_body_size =
     (let result = ParseResult_default in
      case str_find crlfcrlf raw of
        None \<Rightarrow> Inr (result\<lparr>pr_error := INCOMPLETE\<rparr>)
      | Some header_end \<Rightarrow>
          if header_end + 4 > max_header_size then Inr (result\<lparr>pr_error := HEADER_TOO_LARGE\<rparr>)
          else
            throws_bind (substr raw 0 header_end) (\<lambda>headers_section.
            throws_bind (substr_from raw (header_end + 4)) (\<lambda>body_data.
            (case getline headers_section of
               None \<Rightarrow> Inr (result\<lparr>pr_error := MALFORMED\<rparr>)
             | Some (line, stream) \<Rightarrow>
                 (case read_request_line (drop_trailing CR line) of (m, p, v, ok) \<Rightarrow>
                    (let result = result\<lparr>pr_method := m, pr_path := p, pr_version := v\<rparr> in
                     if \<not> ok then Inr (result\<lparr>pr_error := MALFORMED\<rparr>)
                     else if str_find ''HTTP/'' v \<noteq> Some 0
                     then Inr (result\<lparr>pr_error := MALFORMED\<rparr>)
                     else parse_body raw header_end body_data max_body_size
                            (result\<lparr>pr_has_headers := True,
                                    pr_headers_raw := collect_headers stream\<rparr>)))))))"

definition header_kv :: "string \<Rightarrow> (string \<times> string) option throws" where
  "header_kv line =
     (case str_find '':'' line of
        None \<Rightarrow> Inr None
      | Some colon \<Rightarrow>
          throws_bind (substr line 0 colon) (\<lambda>key.
          throws_bind (substr_from line (colon + 1)) (\<lambda>value0.
          throws_bind (left_trim value0) (\<lambda>value1.
          throws_bind (case find_last_not_of blanks value1 of
                         None \<Rightarrow> Inr value1
                       | Some e \<Rightarrow> substr value1 0 (e + 1)) (\<lambda>value.
          Inr (Some (key, value)))))))"

function build_headers :: "string \<Rightarrow> (string, string) umap \<Rightarrow> (string, string) umap throws" where
  "build_headers s m =
     (case getline s of
        None \<Rightarrow> Inr m
      | Some (line, rest) \<Rightarrow>
          (let line' = drop_trailing LF line in
           if line' = [] then build_headers rest m
           else throws_bind (header_kv line') (\<lambda>kv.
                  case kv of
                    None \<Rightarrow> build_headers rest m
                  | Some (key, value) \<Rightarrow> build_headers rest (AList.update key value m))))"
  by pat_completeness auto
termination
  by (relation "measure (length \<circ> fst)") (auto dest: getline_shorter)

declare build_headers.simps [simp del]

definition build_request :: "ParseResult \<Rightarrow> HttpRequest throws" where
  "build_request result =
     throws_bind (build_headers (pr_headers_raw result) []) (\<lambda>hs.
       Inr (HttpRequest_default
             \<lparr>req_method_string := pr_method result,
              req_path := pr_path result,
              req_version := pr_version result,
              req_body := pr_body result,
              req_method :=
                (if pr_method result = ''GET'' then GET
                 else if pr_method result = ''POST'' then POST
                 else if pr_method result = ''HEAD'' then HEAD
                 else UNKNOWN),
              req_headers := hs\<rparr>))"

definition HttpParser_trim :: "string \<Rightarrow> string throws" where
  "HttpParser_trim s =
     (case find_first_not_of blanks s of
        None \<Rightarrow> Inr []
      | Some start \<Rightarrow>
          (case find_last_not_of blanks s of
             None \<Rightarrow> substr s start (size_add (size_sub npos start) 1)
           | Some e \<Rightarrow> substr s start (size_add (size_sub e start) 1)))"



section \<open>Specification: the wire format of a request\<close>

definition word_ok :: "string \<Rightarrow> bool" where
  "word_ok t = (t \<noteq> [] \<and> list_all (\<lambda>c. \<not> is_space c) t)"

definition header_line :: "string \<times> string \<Rightarrow> string" where
  "header_line kv = fst kv @ '': '' @ snd kv"

definition header_ok :: "string \<times> string \<Rightarrow> bool" where
  "header_ok kv =
     (line_safe (fst kv) \<and> CHR '':'' \<notin> set (fst kv) \<and> line_safe (snd kv) \<and>
      snd kv \<noteq> [] \<and> hd (snd kv) \<notin> set blanks \<and> last (snd kv) \<notin> set blanks)"

fun join_lines :: "string list \<Rightarrow> string" where
  "join_lines [] = []"
| "join_lines [l] = l"
| "join_lines (l # ls) = l @ crlf @ join_lines ls"

definition request_line :: "string \<Rightarrow> string \<Rightarrow> string \<Rightarrow> string" where
  "request_line m p v = m @ '' '' @ p @ '' '' @ v"

definition request_head :: "string \<Rightarrow> string \<Rightarrow> string \<Rightarrow> (string \<times> string) list \<Rightarrow> string" where
  "request_head m p v hs = join_lines (request_line m p v # map header_line hs)"

definition request_text ::
    "string \<Rightarrow> string \<Rightarrow> string \<Rightarrow> (string \<times> string) list \<Rightarrow> string \<Rightarrow> string" where
  "request_text m p v hs body = request_head m p v hs @ crlfcrlf @ body"

section \<open>Lemmas\<close>

subsection \<open>No exception escapes the parser\<close>

lemma left_trim_total: "\<exists>v'. left_trim v = Inr v'"
  by (auto simp: left_trim_def dest: find_first_not_of_dropWhile split: option.splits)

lemma left_trim_keep: "v \<noteq> [] \<Longrightarrow> hd v \<notin> set blanks \<Longrightarrow> left_trim v = Inr v"
  by (simp add: left_trim_def find_first_not_of_keep)

lemma left_trim_blank: "v \<noteq> [] \<Longrightarrow> hd v \<notin> set blanks \<Longrightarrow> left_trim (CHR '' '' # v) = Inr v"
  by (simp add: left_trim_def find_first_not_of_keep blanks_def)

lemma parse_body_total: "\<exists>r'. parse_body raw h b mb r = Inr r'"
proof (cases "str_find ''content-length:'' (lower_str (take (h + 4) raw))")
  case None
  then show ?thesis by (simp add: parse_body_def)
next
  case (Some cl_pos)
  let ?up = "take (h + 4) raw"
  let ?colon = "str_find_from '':'' ?up cl_pos"
  let ?eol = "str_find_from crlf ?up (pos_plus1 ?colon)"
  show ?thesis
  proof (cases "?colon = None \<or> ?eol = None")
    case True
    then show ?thesis using Some
      by (auto simp: parse_body_def Let_def split: option.splits)
  next
    case False
    then obtain c e where ce: "?colon = Some c" "?eol = Some e" by auto
    then have "c + 1 \<le> length ?up" using str_find_from_Some by fastforce
    then obtain s where s: "substr ?up (c + 1) (size_sub (size_sub e c) 1) = Inr s" by simp
    obtain v where v: "left_trim s = Inr v" using left_trim_total by blast
    show ?thesis
      using Some ce s v
      by (cases "stoull v") (simp_all add: parse_body_def Let_def)
  qed
qed

lemma parse_total: "\<exists>r. HttpParser_parse raw mh mb = Inr r"
proof (cases "str_find crlfcrlf raw")
  case None
  then show ?thesis by (simp add: HttpParser_parse_def)
next
  case (Some h)
  then have "h + 4 \<le> length raw" using str_find_Some by fastforce
  with Some show ?thesis
    by (auto simp: HttpParser_parse_def Let_def parse_body_total split: option.splits prod.splits)
qed

lemma header_kv_total: "\<exists>kv. header_kv line = Inr kv"
proof (cases "str_find '':'' line")
  case None
  then show ?thesis by (simp add: header_kv_def)
next
  case (Some c)
  then have "c + 1 \<le> length line" using str_find_Some by fastforce
  moreover obtain v where "left_trim (drop (Suc c) line) = Inr v" using left_trim_total by blast
  ultimately show ?thesis using Some
    by (cases "find_last_not_of blanks v")
       (auto simp: header_kv_def substr_def)
qed

lemma build_headers_total: "\<exists>m'. build_headers s m = Inr m'"
proof (induction s m rule: build_headers.induct)
  case (1 s m)
  obtain kv where kv: "\<And>l. header_kv l = Inr (kv l)" using header_kv_total by metis
  show ?case
  proof (cases "getline s")
    case None
    then show ?thesis by (simp add: build_headers.simps [of s m])
  next
    case (Some lr)
    obtain l r where lr: "lr = (l, r)" by (cases lr)
    have "drop_trailing LF l = [] \<Longrightarrow> \<exists>m'. build_headers r m = Inr m'"
      "\<And>kv'. drop_trailing LF l \<noteq> [] \<Longrightarrow> kv' = None \<Longrightarrow> \<exists>m'. build_headers r m = Inr m'"
      "\<And>k v. drop_trailing LF l \<noteq> [] \<Longrightarrow> \<exists>m'. build_headers r (AList.update k v m) = Inr m'"
      using 1 Some lr by metis+
    then show ?thesis using Some lr kv
      by (auto simp: build_headers.simps [of s m] Let_def split: option.splits)
  qed
qed

lemma build_request_total: "\<exists>req. build_request r = Inr req"
  using build_headers_total [of "pr_headers_raw r" "[]"] by (auto simp: build_request_def)

subsection \<open>Reading back the wire format\<close>

lemma word_ok_no_break: "word_ok t \<Longrightarrow> line_safe t"
  by (auto simp: word_ok_def list_all_iff line_safe_def)

lemma stream_word_word:
  assumes "word_ok t" "list_all is_space sp" "rest = [] \<or> is_space (hd rest)"
  shows "stream_word (sp @ t @ rest) = Some (t, rest)"
proof -
  obtain c cs where t: "t = c # cs" using assms(1) by (cases t) (auto simp: word_ok_def)
  have "dropWhile is_space (sp @ t @ rest) = t @ rest"
    using assms(1,2) t by (auto simp: dropWhile_append list_all_iff word_ok_def)
  moreover have "takeWhile (\<lambda>c. \<not> is_space c) (t @ rest) = t"
    using assms(1,3) by (cases rest) (auto simp: takeWhile_append word_ok_def list_all_iff)
  moreover have "dropWhile (\<lambda>c. \<not> is_space c) (t @ rest) = rest"
    using assms(1,3) by (cases rest) (auto simp: dropWhile_append word_ok_def list_all_iff)
  ultimately show ?thesis using t by (simp add: stream_word_def)
qed

lemma read_request_line_words:
  assumes "word_ok m" "word_ok p" "word_ok v"
  shows "read_request_line (request_line m p v) = (m, p, v, True)"
proof -
  have sp: "list_all is_space '' ''" "is_space (hd '' '')" by (simp_all add: is_space_def)
  have "stream_word (m @ '' '' @ p @ '' '' @ v) = Some (m, '' '' @ p @ '' '' @ v)"
    using stream_word_word [OF assms(1), of "[]" "'' '' @ p @ '' '' @ v"] sp by simp
  moreover have "stream_word ('' '' @ p @ '' '' @ v) = Some (p, '' '' @ v)"
    using stream_word_word [OF assms(2) sp(1), of "'' '' @ v"] sp by simp
  moreover have "stream_word ('' '' @ v) = Some (v, [])"
    using stream_word_word [OF assms(3) sp(1), of "[]"] by simp
  ultimately show ?thesis by (simp add: read_request_line_def request_line_def)
qed

definition lines_ok :: "string list \<Rightarrow> bool" where
  "lines_ok ls = list_all (\<lambda>l. line_safe l \<and> l \<noteq> []) ls"

lemma join_lines_Cons: "ls \<noteq> [] \<Longrightarrow> join_lines (l # ls) = l @ crlf @ join_lines ls"
  by (cases ls) auto

lemma str_find_break_skip:
  assumes "line_safe l" "X \<noteq> []" "hd X \<noteq> CR"
  shows "str_find crlfcrlf (l @ crlf @ X) =
           map_option (\<lambda>i. i + length l + 2) (str_find crlfcrlf X)"
  using assms
proof (induction l)
  case Nil
  then show ?case
    by (cases X) (auto simp: crlf_def crlfcrlf_def option.map_comp comp_def)
next
  case (Cons a l)
  then show ?case
    by (auto simp: crlfcrlf_def line_safe_Cons option.map_comp comp_def)
qed

lemma str_find_break_here:
  assumes "line_safe l"
  shows "str_find crlfcrlf (l @ crlfcrlf @ X) = Some (length l)"
  using assms by (induction l) (auto simp: crlfcrlf_def line_safe_Cons)

lemma join_lines_hd:
  assumes "lines_ok ls" "ls \<noteq> []"
  shows "join_lines ls \<noteq> []" "hd (join_lines ls @ X) \<noteq> CR"
  using assms by (cases ls; cases "tl ls"; cases "hd ls"; auto simp: lines_ok_def line_safe_Cons)+

lemma str_find_join_lines:
  assumes "lines_ok ls" "ls \<noteq> []"
  shows "str_find crlfcrlf (join_lines ls @ crlfcrlf @ body) = Some (length (join_lines ls))"
  using assms
proof (induction ls rule: join_lines.induct)
  case (3 l l' ls)
  let ?X = "join_lines (l' # ls) @ crlfcrlf @ body"
  have ok: "lines_ok (l' # ls)" "line_safe l" using "3.prems" by (simp_all add: lines_ok_def)
  have "str_find crlfcrlf (l @ crlf @ ?X) = map_option (\<lambda>i. i + length l + 2) (str_find crlfcrlf ?X)"
    by (rule str_find_break_skip) (use ok join_lines_hd [OF ok(1)] in auto)
  with "3.IH" ok show ?case by simp
qed (auto simp: lines_ok_def str_find_break_here)

lemma collect_headers_join_lines:
  assumes "lines_ok ls"
  shows "collect_headers (join_lines ls) = concat (map (\<lambda>l. l @ [LF]) ls)"
  using assms
proof (induction ls rule: join_lines.induct)
  case 1
  then show ?case by (simp add: collect_headers.simps)
next
  case (2 l)
  then have l: "LF \<notin> set l" "CR \<notin> set l" "l \<noteq> []" by (auto simp: lines_ok_def line_safe_def)
  then show ?case
    by (simp add: collect_headers.simps [of l] getline_last) (simp add: collect_headers.simps)
next
  case (3 l l' ls)
  then have l: "LF \<notin> set l" "CR \<notin> set l" "l \<noteq> []" by (auto simp: lines_ok_def line_safe_def)
  have "collect_headers (join_lines (l' # ls)) = concat (map (\<lambda>l. l @ [LF]) (l' # ls))"
    using 3 by (simp add: lines_ok_def)
  with l show ?case
    by (simp add: collect_headers.simps [of "l @ crlf @ join_lines (l' # ls)"] getline_line)
qed

lemma header_kv_line:
  assumes "header_ok (k, v)"
  shows "header_kv (header_line (k, v)) = Inr (Some (k, v))"
proof -
  have k: "CHR '':'' \<notin> set k" and v: "v \<noteq> []" "hd v \<notin> set blanks" "last v \<notin> set blanks"
    using assms by (simp_all add: header_ok_def)
  have f: "str_find '':'' (k @ '': '' @ v) = Some (length k)"
    using k by (induction k) auto
  show ?thesis
    using f v by (simp add: header_kv_def header_line_def left_trim_blank find_last_not_of_keep)
qed

lemma build_headers_lines:
  assumes "list_all header_ok hs"
  shows "build_headers (concat (map (\<lambda>l. l @ [LF]) (map header_line hs))) m =
           Inr (fold (\<lambda>(k, v). AList.update k v) hs m)"
  using assms
proof (induction hs arbitrary: m)
  case Nil
  then show ?case by (simp add: build_headers.simps)
next
  case (Cons kv hs)
  obtain k v where kv: "kv = (k, v)" by (cases kv)
  let ?rest = "concat (map (\<lambda>l. l @ [LF]) (map header_line hs))"
  have l: "LF \<notin> set (header_line kv)" "header_line kv \<noteq> []"
    using Cons.prems kv by (auto simp: header_ok_def header_line_def line_safe_def)
  have "header_kv (header_line kv) = Inr (Some (k, v))"
    using Cons.prems kv header_kv_line by simp
  with l have "build_headers (header_line kv @ LF # ?rest) m =
                 build_headers ?rest (AList.update k v m)"
    by (simp add: build_headers.simps [of "header_line kv @ LF # ?rest"] getline_LF del: map_map)
  with Cons kv show ?case by simp
qed

lemma fold_update_distinct:
  assumes "umap_ok (m @ hs)"
  shows "fold (\<lambda>(k, v). AList.update k v) hs m = m @ hs"
  using assms
proof (induction hs arbitrary: m)
  case (Cons kv hs)
  obtain k v where kv: "kv = (k, v)" by (cases kv)
  have "k \<notin> fst ` set m" using Cons.prems kv by auto
  then have "AList.update k v m = m @ [(k, v)]" by (induction m) auto
  with Cons kv show ?case by simp
qed simp

lemma no_match_before:
  assumes "str_find pat P = None" "P = [] \<or> last P \<notin> set pat" "j < length P"
  shows "\<not> prefix pat (drop j (P @ R))"
proof
  assume "prefix pat (drop j (P @ R))"
  then have "prefix pat (drop j P @ R)" using assms(3) by simp
  moreover have "prefix (drop j P) (drop j P @ R)" by simp
  ultimately consider "prefix pat (drop j P)" | "prefix (drop j P) pat"
    by (meson prefix_same_cases)
  then show False
  proof cases
    case 1
    with assms(1,3) show False by (simp add: str_find_None)
  next
    case 2
    moreover have "last P \<in> set (drop j P)" using assms(3) by (metis drop_eq_Nil last_drop last_in_set leD)
    ultimately show False using assms(2,3) set_mono_prefix by fastforce
  qed
qed

lemma str_find_after:
  assumes "str_find pat P = None" "P = [] \<or> last P \<notin> set pat"
  shows "str_find pat (P @ pat @ Q) = Some (length P)"
  using no_match_before [OF assms] by (intro str_find_SomeI) simp_all

lemma lower_content_length: "lower_str ''Content-Length: '' = ''content-length: ''"
  by code_simp

lemma content_length_found:
  assumes P: "str_find ''content-length:'' (lower_str P) = None" "P \<noteq> []" "last P = LF"
  shows "str_find ''content-length:'' (lower_str (P @ ''Content-Length: '' @ Q)) = Some (length P)"
proof -
  have "last (lower_str P) = LF"
    using P(2,3) by (simp add: lower_str_def last_map to_lower_def)
  moreover have "lower_str (P @ ''Content-Length: '' @ Q) =
      lower_str P @ ''content-length:'' @ ('' '' @ lower_str Q)"
    unfolding lower_str_append lower_content_length by simp
  ultimately show ?thesis using str_find_after [OF P(1), of "'' '' @ lower_str Q"] by simp
qed

text \<open>The search stops at the first occurrence of the text, also inside the name of another header.\<close>

lemma content_length_found_inside:
  assumes P: "str_find ''content-length:'' (lower_str P) = None" "P \<noteq> []" "last P = LF"
  shows "str_find ''content-length:'' (lower_str ((P @ ''X-'') @ ''Content-Length: '' @ Q)) = Some (length P + 2)"
proof -
  let ?pat = "''content-length:''" and ?P = "lower_str P"
  have last: "?P = [] \<or> last ?P \<notin> set ?pat"
    using P(2,3) by (simp add: lower_str_def last_map to_lower_def)
  have "lower_str ''X-'' = ''x-''" by code_simp
  then have low: "lower_str ((P @ ''X-'') @ ''Content-Length: '' @ Q) = (?P @ ''x-'') @ ?pat @ ('' '' @ lower_str Q)"
    unfolding lower_str_append lower_content_length by simp
  have "\<not> prefix ?pat (drop j (?P @ ''x''))" if "j \<le> length (?P @ ''x'')" for j
    using no_match_before [OF P(1) last, of j "''x''"] that by (cases "j < length ?P") (auto simp: le_Suc_eq not_less)
  then have x: "str_find ?pat (?P @ ''x'') = None" by (simp add: str_find_None)
  have "\<not> prefix ?pat (drop j ((?P @ ''x-'') @ ?pat @ ('' '' @ lower_str Q)))" if "j < length (?P @ ''x-'')" for j
    using no_match_before [OF x, of j "''-'' @ ?pat @ '' '' @ lower_str Q"] that
    by (cases "j < length (?P @ ''x'')") (auto simp: not_less less_Suc_eq)
  then have "str_find ?pat ((?P @ ''x-'') @ ?pat @ ('' '' @ lower_str Q)) = Some (length (?P @ ''x-''))"
    by (intro str_find_SomeI) simp_all
  then show ?thesis unfolding low by (simp add: lower_str_def)
qed

lemma parse_body_declared:
  assumes up: "take (h + 4) raw = P @ ''Content-Length: '' @ nat_to_string k @ crlf @ Q"
    and cl: "str_find ''content-length:'' (lower_str (take (h + 4) raw)) = Some (length P)"
    and small: "k < 2 ^ 64" "length raw < 2 ^ 64"
  shows "parse_body raw h b mb r =
           Inr (if k > mb then r\<lparr>pr_error := BODY_TOO_LARGE\<rparr>
                else if length b < k then r\<lparr>pr_error := INCOMPLETE\<rparr>
                else r\<lparr>pr_body := take k b, pr_error := NONE\<rparr>)"
proof -
  let ?n = "nat_to_string k" and ?up = "take (h + 4) raw"
  have n: "hd ?n \<notin> set blanks" "line_safe ('' '' @ ?n)"
    using nat_to_string_digits [of k] digit_not_space [of "hd ?n"]
    by (auto simp: blanks_def line_safe_Cons)
  have colon: "str_find_from '':'' ?up (length P) = Some (length P + 14)"
    by (simp add: up str_find_from_def)
  have d15: "drop (length P + 15) ?up = ('' '' @ ?n) @ crlf @ Q"
    by (simp add: up)
  have eol: "str_find_from crlf ?up (pos_plus1 (Some (length P + 14))) =
               Some (length ?n + length P + 16)"
    using d15 str_find_line [OF n(2), of Q]
    by (simp add: str_find_from_def pos_plus1_def up)
  have len: "length ?n + length P + 16 < 2 ^ 64"
  proof -
    have "length ?up \<le> length raw" by simp
    with small(2) up show ?thesis by simp
  qed
  then have cnt: "size_sub (size_sub (length ?n + length P + 16) (length P + 14)) 1 = length ?n + 1"
    by (simp add: size_sub_le)
  have sub: "substr ?up (length P + 14 + 1) (length ?n + 1) = Inr ('' '' @ ?n)"
    using d15 by (simp add: substr_def up)
  have st: "stoull ?n = Inr k"
    using stoull_digits [of ?n "[]"] nat_to_string_digits [of k] small(1) by simp
  have lt: "left_trim ('' '' @ ?n) = Inr ?n"
    using left_trim_blank [OF _ n(1)] by simp
  show ?thesis
    unfolding parse_body_def
    by (simp only: substr_ok le0 drop_0 throws_bind_simps cl colon eol option.case Let_def cnt sub lt st
        sum.case) (simp split: if_splits)
qed

lemma request_lines_ok:
  assumes "word_ok m" "word_ok p" "word_ok v" "list_all header_ok hs"
  shows "lines_ok (request_line m p v # map header_line hs)"
proof -
  have "line_safe m" "line_safe p" "line_safe v" using assms word_ok_no_break by auto
  moreover have "list_all (\<lambda>l. line_safe l \<and> l \<noteq> []) (map header_line hs)"
    using assms(4) by (auto simp: list_all_iff header_ok_def header_line_def line_safe_Cons)
  ultimately show ?thesis
    by (simp add: lines_ok_def request_line_def line_safe_Cons)
qed

definition request_result ::
    "string \<Rightarrow> string \<Rightarrow> string \<Rightarrow> (string \<times> string) list \<Rightarrow> ParseResult" where
  "request_result m p v hs =
     ParseResult_default\<lparr>pr_method := m, pr_path := p, pr_version := v, pr_has_headers := True,
       pr_headers_raw := concat (map (\<lambda>l. l @ [LF]) (map header_line hs))\<rparr>"

lemma parse_request_text:
  assumes ok: "word_ok m" "word_ok p" "word_ok v" "list_all header_ok hs"
    and ver: "prefix ''HTTP/'' v" and fits: "length (request_head m p v hs) + 4 \<le> mh"
  shows "HttpParser_parse (request_text m p v hs body) mh mb =
           parse_body (request_text m p v hs body) (length (request_head m p v hs)) body mb
             (request_result m p v hs)"
proof -
  let ?raw = "request_text m p v hs body" and ?h = "length (request_head m p v hs)"
  let ?ls = "map header_line hs" and ?rl = "request_line m p v"
  have lok: "lines_ok (?rl # ?ls)" by (rule request_lines_ok [OF ok])
  then have rl: "LF \<notin> set ?rl" "CR \<notin> set ?rl" "?rl \<noteq> []" "lines_ok ?ls"
    by (auto simp: lines_ok_def line_safe_def)
  have find: "str_find crlfcrlf ?raw = Some ?h"
    unfolding request_text_def request_head_def by (rule str_find_join_lines [OF lok]) simp
  have head: "take ?h ?raw = request_head m p v hs" "drop (?h + 4) ?raw = body"
    "?h + 4 \<le> length ?raw"
    by (simp_all add: request_text_def crlfcrlf_def)
  have gl: "\<exists>l. getline (request_head m p v hs) = Some (l, join_lines ?ls) \<and> drop_trailing CR l = ?rl"
  proof (cases "hs = []")
    case True
    then show ?thesis using rl by (simp add: request_head_def getline_last)
  next
    case False
    then show ?thesis using rl by (simp add: request_head_def join_lines_Cons getline_line)
  qed
  have v0: "str_find ''HTTP/'' v = Some 0" using ver by (simp add: str_find_zero_iff)
  show ?thesis
    using gl find head fits v0 read_request_line_words [OF ok(1-3)] collect_headers_join_lines [OF rl(4)]
    by (auto simp: HttpParser_parse_def Let_def request_result_def)
qed

lemma join_lines_concat: "ls \<noteq> [] \<Longrightarrow> join_lines ls @ crlf = concat (map (\<lambda>l. l @ crlf) ls)"
  by (induction ls rule: join_lines.induct) auto

definition head_before :: "string \<Rightarrow> string \<Rightarrow> string \<Rightarrow> (string \<times> string) list \<Rightarrow> string" where
  "head_before m p v hs = concat (map (\<lambda>l. l @ crlf) (request_line m p v # map header_line hs))"

lemma request_head_field:
  assumes "hs = hs1 @ (name, n) # hs2"
  shows "take (length (request_head m p v hs) + 4) (request_text m p v hs body) =
           head_before m p v hs1 @ name @ '': '' @ n @ crlf @
           (concat (map (\<lambda>l. l @ crlf) (map header_line hs2)) @ crlf)"
proof -
  have "take (length (request_head m p v hs) + 4) (request_text m p v hs body) =
          (request_head m p v hs @ crlf) @ crlf"
    by (simp add: request_text_def crlfcrlf_def crlf_def)
  also have "request_head m p v hs @ crlf =
               concat (map (\<lambda>l. l @ crlf) (request_line m p v # map header_line hs))"
    unfolding request_head_def by (rule join_lines_concat) simp
  finally show ?thesis
    by (simp add: assms head_before_def header_line_def)
qed

lemma request_head_declared:
  assumes "hs = hs1 @ (''Content-Length'', n) # hs2"
  shows "take (length (request_head m p v hs) + 4) (request_text m p v hs body) =
           head_before m p v hs1 @ ''Content-Length: '' @ n @ crlf @
           (concat (map (\<lambda>l. l @ crlf) (map header_line hs2)) @ crlf)"
  using request_head_field [OF assms] by simp

lemma head_before_last: "head_before m p v hs \<noteq> []" "last (head_before m p v hs) = LF"
proof -
  have "\<exists>X. head_before m p v hs = X @ crlf"
    by (cases "map header_line hs" rule: rev_cases) (auto simp: head_before_def)
  then show "head_before m p v hs \<noteq> []" "last (head_before m p v hs) = LF"
    by (auto simp: crlf_def)
qed

lemma header_ok_content_length:
  "header_ok (''Content-Length'', nat_to_string k)" "header_ok (''X-Content-Length'', nat_to_string k)"
proof -
  have d: "\<forall>c \<in> set (nat_to_string k). \<not> is_space c"
    using nat_to_string_digits digit_not_space by blast
  then have "hd (nat_to_string k) \<notin> set blanks" "last (nat_to_string k) \<notin> set blanks"
    by (auto simp: blanks_def)
       (metis hd_in_set last_in_set is_space_breaks nat_to_string_neq_Nil)+
  then show "header_ok (''Content-Length'', nat_to_string k)" "header_ok (''X-Content-Length'', nat_to_string k)"
    by (simp_all add: header_ok_def line_safe_Cons)
qed

lemma parse_declared:
  assumes ok: "word_ok m" "word_ok p" "word_ok v" "list_all header_ok (hs1 @ hs2)"
    and hs: "hs = hs1 @ (''Content-Length'', nat_to_string k) # hs2"
    and ver: "prefix ''HTTP/'' v" and fits: "length (request_head m p v hs) + 4 \<le> mh"
    and first: "str_find ''content-length:'' (lower_str (head_before m p v hs1)) = None"
    and small: "k < 2 ^ 64" "length (request_text m p v hs body) < 2 ^ 64"
  shows "HttpParser_parse (request_text m p v hs body) mh mb =
           Inr (if k > mb then (request_result m p v hs)\<lparr>pr_error := BODY_TOO_LARGE\<rparr>
                else if length body < k then (request_result m p v hs)\<lparr>pr_error := INCOMPLETE\<rparr>
                else (request_result m p v hs)\<lparr>pr_body := take k body, pr_error := NONE\<rparr>)"
proof -
  have hok: "list_all header_ok hs" using ok(4) hs header_ok_content_length by simp
  show ?thesis
    unfolding parse_request_text [OF ok(1-3) hok ver fits]
    using content_length_found [OF first head_before_last]
    by (intro parse_body_declared [OF request_head_declared [OF hs] _ small])
       (simp add: request_head_declared [OF hs])
qed

lemma build_request_result:
  assumes "list_all header_ok hs" "umap_ok hs"
  shows "build_request ((request_result m p v hs)\<lparr>pr_body := b, pr_error := NONE\<rparr>) =
           Inr \<lparr>req_method = string_to_method m, req_method_string = m, req_path = p,
                req_version = v, req_headers = hs, req_body = b\<rparr>"
  using build_headers_lines [OF assms(1), of "[]"] fold_update_distinct [of "[]" hs] assms(2)
  by (simp add: build_request_def request_result_def ParseResult_default_def
      HttpRequest_default_def string_to_method_def)

subsection \<open>What an accepted request looks like\<close>

lemma stream_word_ok: "stream_word s = Some (w, r) \<Longrightarrow> word_ok w"
proof -
  assume "stream_word s = Some (w, r)"
  then have d: "dropWhile is_space s \<noteq> []" "w = takeWhile (\<lambda>c. \<not> is_space c) (dropWhile is_space s)"
    by (auto simp: stream_word_def Let_def split: if_splits)
  from d(1) have "\<not> is_space (hd (dropWhile is_space s))" by (rule hd_dropWhile)
  with d show "word_ok w"
    by (cases "dropWhile is_space s") (auto simp: word_ok_def list_all_iff dest: set_takeWhileD)
qed

lemma read_request_line_ok:
  "read_request_line l = (m, p, v, True) \<Longrightarrow> word_ok m \<and> word_ok p \<and> word_ok v"
  by (auto simp: read_request_line_def split: option.splits prod.splits dest!: stream_word_ok)

lemma to_lower_colon: "to_lower c = CHR '':'' \<longleftrightarrow> c = CHR '':''"
proof
  assume a: "to_lower c = CHR '':''"
  show "c = CHR '':''"
  proof (cases "65 \<le> (of_char c :: nat) \<and> (of_char c :: nat) \<le> 90")
    case True
    with a have "char_of (of_char c + 32 :: nat) = CHR '':''" by (simp add: to_lower_def)
    then have "(of_char (char_of (of_char c + 32 :: nat) :: char) :: nat) = of_char (CHR '':'')"
      by simp
    with True show ?thesis by simp
  next
    case False
    with a show ?thesis by (simp add: to_lower_def Let_def)
  qed
qed (simp add: to_lower_def)

lemma colon_found:
  assumes "str_find ''content-length:'' (lower_str up) = Some cl"
  shows "\<exists>c. str_find_from '':'' up cl = Some c"
proof (rule ccontr)
  assume "\<not> ?thesis"
  then have none: "str_find_from '':'' up cl = None" by auto
  from str_find_Some [OF assms] have le: "cl + 15 \<le> length up"
    and p: "prefix ''content-length:'' (drop cl (lower_str up))" by auto
  from p obtain t where t: "drop cl (lower_str up) = ''content-length:'' @ t" by (auto simp: prefix_def)
  have "lower_str up ! (cl + 14) = drop cl (lower_str up) ! 14" using le by simp
  also have "\<dots> = CHR '':''" by (simp add: t)
  finally have "to_lower (up ! (cl + 14)) = CHR '':''" using le by (simp add: lower_str_def)
  then have "up ! (cl + 14) = CHR '':''" by (simp add: to_lower_colon)
  then have "prefix '':'' (drop (cl + 14) up)"
    using le by (simp add: Cons_nth_drop_Suc [symmetric])
  with str_find_from_None [OF none, of "cl + 14"] le show False by simp
qed

lemma eol_found:
  assumes up: "up = head @ crlfcrlf" and c: "str_find_from '':'' up cl = Some c"
  shows "\<exists>e. str_find_from crlf up (c + 1) = Some e"
proof (rule ccontr)
  assume "\<not> ?thesis"
  then have none: "str_find_from crlf up (c + 1) = None" by auto
  from str_find_from_Some [OF c] have cp: "c < length up" "up ! c = CHR '':''"
    by (auto simp: prefix_def) (metis nth_via_drop append_Cons)
  have "c < length head"
  proof (rule ccontr)
    assume "\<not> c < length head"
    with cp up have "c - length head < 4" "crlfcrlf ! (c - length head) = CHR '':''"
      by (auto simp: nth_append)
    then show False by (auto simp: crlfcrlf_def less_Suc_eq numeral_eq_Suc)
  qed
  then have "\<not> prefix crlf (drop (length head) up)"
    using str_find_from_None [OF none, of "length head"] up by simp
  then show False by (simp add: up crlf_def crlfcrlf_def)
qed

lemma parse_body_NONE:
  assumes pb: "parse_body raw h b mb r = Inr r'" "pr_error r' = NONE"
    and up: "take (h + 4) raw = head @ crlfcrlf"
  shows "(\<exists>bd e. r' = r\<lparr>pr_body := bd, pr_error := e\<rparr>) \<and> prefix (pr_body r') b \<and>
         (pr_body r' = b \<and> str_find ''content-length:'' (lower_str (take (h + 4) raw)) = None \<or>
          length (pr_body r') \<le> mb)"
proof (cases "str_find ''content-length:'' (lower_str (take (h + 4) raw))")
  case None
  with pb show ?thesis by (auto simp: parse_body_def)
next
  case (Some cl)
  obtain c where c: "str_find_from '':'' (take (h + 4) raw) cl = Some c"
    using colon_found [OF Some] by blast
  obtain e where e: "str_find_from crlf (take (h + 4) raw) (c + 1) = Some e"
    using eol_found [OF up c] by blast
  from str_find_from_Some [OF c] have c1: "c + 1 \<le> length (take (h + 4) raw)" by auto
  then obtain s where s: "substr (take (h + 4) raw) (c + 1) (size_sub (size_sub e c) 1) = Inr s"
    by simp
  obtain v where v: "left_trim s = Inr v" using left_trim_total by blast
  have pb': "(case stoull v of
                Inl _ \<Rightarrow> Inr (r\<lparr>pr_error := MALFORMED\<rparr>)
              | Inr n \<Rightarrow> if n > mb then Inr (r\<lparr>pr_error := BODY_TOO_LARGE\<rparr>)
                         else if length b < n then Inr (r\<lparr>pr_error := INCOMPLETE\<rparr>)
                         else Inr (r\<lparr>pr_body := take n b, pr_error := NONE\<rparr>)) = (Inr r' :: ParseResult throws)"
    using pb(1) Some c e s v
    by (cases "stoull v") (simp_all add: parse_body_def Let_def pos_plus1_def split: if_splits)
  then show ?thesis using pb(2)
    by (auto split: sum.splits if_splits simp: take_is_prefix)
qed

lemma take_find:
  assumes "str_find pat s = Some h"
  shows "take (h + length pat) s = take h s @ pat"
proof -
  from str_find_Some [OF assms] obtain t where "drop h s = pat @ t" by (auto simp: prefix_def)
  then show ?thesis by (metis append_eq_conv_conj take_add)
qed

lemma parse_NONE:
  assumes p: "HttpParser_parse raw mh mb = Inr r" "pr_error r = NONE"
  shows "\<exists>h. str_find crlfcrlf raw = Some h \<and> h + 4 \<le> mh \<and> pr_has_headers r \<and>
           word_ok (pr_method r) \<and> word_ok (pr_path r) \<and> word_ok (pr_version r) \<and>
           prefix ''HTTP/'' (pr_version r) \<and> prefix (pr_body r) (drop (h + 4) raw) \<and>
           (pr_body r = drop (h + 4) raw \<and>
              str_find ''content-length:'' (lower_str (take (h + 4) raw)) = None \<or>
            length (pr_body r) \<le> mb)"
proof (cases "str_find crlfcrlf raw")
  case None
  with p show ?thesis by (auto simp: HttpParser_parse_def Let_def)
next
  case (Some h)
  have le: "h + 4 \<le> length raw" using str_find_Some [OF Some] by simp
  have hd: "h + 4 \<le> mh" using p Some by (auto simp: HttpParser_parse_def Let_def split: if_splits)
  obtain l st m q v where gl: "getline (take h raw) = Some (l, st)"
    and rl: "read_request_line (drop_trailing CR l) = (m, q, v, True)"
    and ver: "str_find ''HTTP/'' v = Some 0"
    and pb: "parse_body raw h (drop (h + 4) raw) mb
       (ParseResult_default\<lparr>pr_method := m, pr_path := q, pr_version := v,
          pr_has_headers := True, pr_headers_raw := collect_headers st\<rparr>) = Inr r"
    using p Some le hd
    by (auto simp: HttpParser_parse_def Let_def split: option.splits prod.splits if_splits)
  have up: "take (h + 4) raw = take h raw @ crlfcrlf" using take_find [OF Some] by simp
  note pn = parse_body_NONE [OF pb p(2) up]
  then have f: "pr_has_headers r" "pr_method r = m" "pr_path r = q" "pr_version r = v" by auto
  from pn read_request_line_ok [OF rl] ver Some hd show ?thesis
    unfolding f str_find_zero_iff by (intro exI [of _ h]) (simp add: f)
qed

section \<open>Properties\<close>

text \<open>C27: Parsing a request and building the request object from the result never throws: for every
  byte string and all limits the parser returns a result, and \<open>build_request\<close> accepts it.\<close>

theorem parse_and_build_never_throw:
  "\<exists>r. HttpParser_parse raw max_header_size max_body_size = Inr r \<and> (\<exists>req. build_request r = Inr req)"
  using parse_total build_request_total by blast

text \<open>C10: Round trip. A request written in the wire format, with a \<open>Content-Length\<close> header that
  tells the length of its body, is parsed back to exactly its method, path, version, headers and
  body, and bytes after the declared body are dropped.\<close>

theorem parse_build_roundtrip:
  assumes "word_ok m" "word_ok p" "word_ok v" "prefix ''HTTP/'' v"
    and "list_all header_ok (hs1 @ hs2)"
    and "hs = hs1 @ (''Content-Length'', nat_to_string (length body)) # hs2" "umap_ok hs"
    and "str_find ''content-length:'' (lower_str (head_before m p v hs1)) = None"
    and "length (request_head m p v hs) + 4 \<le> max_header_size" "length body \<le> max_body_size"
    and "length (request_text m p v hs (body @ extra)) < 2 ^ 64"
  shows "throws_bind (HttpParser_parse (request_text m p v hs (body @ extra)) max_header_size max_body_size)
           build_request =
         Inr \<lparr>req_method = string_to_method m, req_method_string = m, req_path = p,
              req_version = v, req_headers = hs, req_body = body\<rparr>"
proof -
  have "length body < 2 ^ 64" using assms(11) by (simp add: request_text_def)
  with assms have "HttpParser_parse (request_text m p v hs (body @ extra)) max_header_size max_body_size =
      Inr ((request_result m p v hs)\<lparr>pr_body := body, pr_error := NONE\<rparr>)"
    using parse_declared [OF assms(1-3,5,6,4,9,8), of "body @ extra" max_body_size] by simp
  moreover have "list_all header_ok hs" using assms(5,6) header_ok_content_length by simp
  ultimately show ?thesis using build_request_result assms(7) by simp
qed

theorem parse_build_roundtrip_witness:
  "throws_bind
     (HttpParser_parse
        (request_text ''POST'' ''/echo'' ''HTTP/1.1''
           ([(''Host'', ''localhost'')] @ (''Content-Length'', nat_to_string (length ''hello'')) # [])
           (''hello'' @ ''!''))
        65536 1048576)
     build_request =
   Inr \<lparr>req_method = string_to_method ''POST'', req_method_string = ''POST'', req_path = ''/echo'',
        req_version = ''HTTP/1.1'',
        req_headers = [(''Host'', ''localhost'')] @ (''Content-Length'', nat_to_string (length ''hello'')) # [],
        req_body = ''hello''\<rparr>"
  by (rule parse_build_roundtrip [OF _ _ _ _ _ refl]; code_simp)

text \<open>C26: Limits on the declared body. For a request in the wire format that declares a body of
  \<open>k\<close> bytes, the parser answers \<open>BODY_TOO_LARGE\<close> when \<open>k\<close> exceeds the limit, and otherwise
  \<open>INCOMPLETE\<close> when fewer than \<open>k\<close> bytes follow the header section.\<close>

theorem parse_declared_length_errors:
  assumes "word_ok m" "word_ok p" "word_ok v" "prefix ''HTTP/'' v"
    and "list_all header_ok (hs1 @ hs2)"
    and "hs = hs1 @ (''Content-Length'', nat_to_string k) # hs2"
    and "str_find ''content-length:'' (lower_str (head_before m p v hs1)) = None"
    and "length (request_head m p v hs) + 4 \<le> max_header_size"
    and "k < 2 ^ 64" "length (request_text m p v hs body) < 2 ^ 64"
    and "max_body_size < k \<or> length body < k"
  shows "map_sum (\<lambda>e. e) pr_error (HttpParser_parse (request_text m p v hs body) max_header_size max_body_size) =
           Inr (if k > max_body_size then BODY_TOO_LARGE else INCOMPLETE)"
  using parse_declared [OF assms(1-3,5,6,4,8,7,9,10), of max_body_size] assms(11) by auto

theorem parse_declared_length_errors_witness:
  "map_sum (\<lambda>e. e) pr_error
     (HttpParser_parse
        (request_text ''POST'' ''/echo'' ''HTTP/1.1'' ([] @ (''Content-Length'', nat_to_string 5) # []) ''abc'')
        65536 1048576) =
   Inr (if (5::nat) > 1048576 then BODY_TOO_LARGE else INCOMPLETE)"
  by (rule parse_declared_length_errors [OF _ _ _ _ _ refl]; code_simp)

text \<open>C40: The length of the body is taken from the first occurrence of the text \<open>content-length:\<close> in the
  header section, also inside the name of another header: a request without a \<open>Content-Length\<close> header but
  with \<open>X-Content-Length: k\<close> is treated as if it declared a body of \<open>k\<close> bytes. It is refused when \<open>k\<close>
  exceeds the limit, waits for more data when fewer bytes follow, and otherwise loses the bytes after
  the first \<open>k\<close>.\<close>

theorem content_length_substring:
  assumes "word_ok m" "word_ok p" "word_ok v" "prefix ''HTTP/'' v"
    and "list_all header_ok (hs1 @ hs2)"
    and "hs = hs1 @ (''X-Content-Length'', nat_to_string k) # hs2" "umap_ok hs"
    and "str_find ''content-length:'' (lower_str (head_before m p v hs1)) = None"
    and "length (request_head m p v hs) + 4 \<le> max_header_size"
    and "k < 2 ^ 64" "length (request_text m p v hs body) < 2 ^ 64"
  shows "\<exists>r. HttpParser_parse (request_text m p v hs body) max_header_size max_body_size = Inr r \<and>
           pr_error r = (if k > max_body_size then BODY_TOO_LARGE
                         else if length body < k then INCOMPLETE else NONE) \<and>
           (pr_error r = NONE \<longrightarrow>
              build_request r = Inr \<lparr>req_method = string_to_method m, req_method_string = m, req_path = p,
                                     req_version = v, req_headers = hs, req_body = take k body\<rparr>)"
proof -
  let ?raw = "request_text m p v hs body" and ?h = "length (request_head m p v hs)"
  let ?P = "head_before m p v hs1 @ ''X-''"
  have hok: "list_all header_ok hs" using assms(5,6) header_ok_content_length by simp
  obtain Q where up: "take (?h + 4) ?raw = ?P @ ''Content-Length: '' @ nat_to_string k @ crlf @ Q"
    using request_head_field [OF assms(6)] by simp
  have cl: "str_find ''content-length:'' (lower_str (take (?h + 4) ?raw)) = Some (length ?P)"
    unfolding up using content_length_found_inside [OF assms(8) head_before_last] by simp
  show ?thesis
    unfolding parse_request_text [OF assms(1-3) hok assms(4,9)] parse_body_declared [OF up cl assms(10,11)]
    using build_request_result [OF hok assms(7), of "take k body" m p v] by simp
qed

theorem content_length_substring_witness:
  "\<exists>r. HttpParser_parse
       (request_text ''POST'' ''/echo'' ''HTTP/1.1'' ([] @ (''X-Content-Length'', nat_to_string 3) # []) ''hello'')
       65536 1048576 = Inr r \<and>
     pr_error r = (if (3::nat) > 1048576 then BODY_TOO_LARGE
                   else if length ''hello'' < 3 then INCOMPLETE else NONE) \<and>
     (pr_error r = NONE \<longrightarrow>
        build_request r = Inr \<lparr>req_method = string_to_method ''POST'', req_method_string = ''POST'',
          req_path = ''/echo'', req_version = ''HTTP/1.1'',
          req_headers = [] @ (''X-Content-Length'', nat_to_string 3) # [], req_body = take 3 ''hello''\<rparr>)"
  by (rule content_length_substring [OF _ _ _ _ _ refl]; code_simp)

end
