(* ===== verification/HeaderFields.thy ===== *)
theory HeaderFields
  imports HttpParser
begin

text \<open>
  A reference for what \<open>HttpParser\<close> makes of header lines, written with list functions only: the text is
  cut at line feeds, a line with a colon is a field, blanks around its value are dropped. The loop of
  \<open>build_request\<close> computes it, and \<open>HttpParser::trim\<close> the trimming. From the reference follows
  what a request object looks like that the server hands to its handlers.
\<close>

section \<open>Specification\<close>

definition is_blank :: "char \<Rightarrow> bool" where
  "is_blank c = (c = CHR '' '' \<or> c = TAB)"

definition strip :: "string \<Rightarrow> string" where
  "strip s = rev (dropWhile is_blank (rev (dropWhile is_blank s)))"

text \<open>A value that consists of blanks only is not trimmed.\<close>

definition field_value :: "string \<Rightarrow> string" where
  "field_value v = (if list_all is_blank v then v else strip v)"

fun split_lines :: "string \<Rightarrow> string list" where
  "split_lines [] = [[]]"
| "split_lines (c # s) =
     (if c = LF then [] # split_lines s else (c # hd (split_lines s)) # tl (split_lines s))"

definition line_field :: "string \<Rightarrow> (string \<times> string) list" where
  "line_field l =
     (if CHR '':'' \<in> set l
      then [(takeWhile (\<lambda>c. c \<noteq> CHR '':'') l, field_value (tl (dropWhile (\<lambda>c. c \<noteq> CHR '':'') l)))] else [])"

definition header_fields :: "string \<Rightarrow> (string \<times> string) list" where
  "header_fields s = concat (map line_field (split_lines s))"

definition store_fields :: "(string \<times> string) list \<Rightarrow> (string, string) umap" where
  "store_fields fs = fold (\<lambda>(k, v). AList.update k v) fs []"

text \<open>The well-formedness of a request object, a type of requests.\<close>

definition field_wf :: "string \<times> string \<Rightarrow> bool" where
  "field_wf kv =
     (case kv of (k, v) \<Rightarrow>
        LF \<notin> set k \<and> CHR '':'' \<notin> set k \<and> LF \<notin> set v \<and>
        (list_all is_blank v \<or> \<not> is_blank (hd v) \<and> \<not> is_blank (last v)))"

definition request_wf :: "HttpRequest \<Rightarrow> bool" where
  "request_wf req =
     (word_ok (req_method_string req) \<and> word_ok (req_path req) \<and> word_ok (req_version req) \<and>
      prefix ''HTTP/'' (req_version req) \<and> req_method req = string_to_method (req_method_string req) \<and>
      umap_ok (req_headers req) \<and> list_all field_wf (req_headers req))"

section \<open>Lemmas\<close>

subsection \<open>Trimming\<close>

lemma is_blank_blanks: "is_blank c \<longleftrightarrow> c \<in> set blanks" "is_blank = (\<lambda>c. c \<in> set blanks)"
  by (auto simp: is_blank_def blanks_def)

lemma find_last_not_of_take:
  "find_last_not_of cs s = Some i \<Longrightarrow> take (Suc i) s = rev (dropWhile (\<lambda>c. c \<in> set cs) (rev s))"
proof (induction s arbitrary: i)
  case (Cons c s)
  show ?case
  proof (cases "find_last_not_of cs s")
    case None
    then have s: "set s \<subseteq> set cs" by (simp add: find_last_not_of_None)
    with Cons.prems None show ?thesis by (auto simp: dropWhile_append split: if_splits)
  next
    case (Some j)
    then have "\<not> set s \<subseteq> set cs" using find_last_not_of_None [of cs s] by simp
    then have "\<exists>x \<in> set (rev s). x \<notin> set cs" by auto
    with Some Cons show ?thesis by (auto simp: dropWhile_append1)
  qed
qed simp

lemma left_trim_strip: "left_trim v = Inr (if list_all is_blank v then v else dropWhile is_blank v)"
proof (cases "find_first_not_of blanks v")
  case None
  then have "list_all is_blank v" by (auto simp: find_first_not_of_None list_all_iff is_blank_blanks)
  with None show ?thesis by (simp add: left_trim_def)
next
  case (Some i)
  then have "\<not> set v \<subseteq> set blanks" using find_first_not_of_None [of blanks v] by simp
  with find_first_not_of_dropWhile [OF Some] Some show ?thesis
    by (auto simp: left_trim_def list_all_iff is_blank_blanks)
qed

lemma blank_dropWhile: "list_all is_blank (dropWhile is_blank v) \<longleftrightarrow> list_all is_blank v"
  by (induction v) auto

lemma right_trim_strip:
  "(case find_last_not_of blanks v of None \<Rightarrow> Inr v | Some e \<Rightarrow> substr v 0 (e + 1)) =
   Inr (if list_all is_blank v then v else rev (dropWhile is_blank (rev v)))"
proof (cases "find_last_not_of blanks v")
  case None
  then have "list_all is_blank v" by (auto simp: find_last_not_of_None list_all_iff is_blank_blanks)
  with None show ?thesis by simp
next
  case (Some i)
  then have "\<not> set v \<subseteq> set blanks" using find_last_not_of_None [of blanks v] by simp
  with find_last_not_of_take [OF Some] Some show ?thesis
    by (auto simp: list_all_iff is_blank_blanks substr_def)
qed

lemma header_kv_reference: "header_kv l = Inr (if CHR '':'' \<in> set l then Some (hd (line_field l)) else None)"
proof (cases "CHR '':'' \<in> set l")
  case True
  let ?k = "takeWhile (\<lambda>c. c \<noteq> CHR '':'') l" and ?v = "tl (dropWhile (\<lambda>c. c \<noteq> CHR '':'') l)"
  have d: "dropWhile (\<lambda>c. c \<noteq> CHR '':'') l = CHR '':'' # ?v"
    using True hd_dropWhile [of "\<lambda>c. c \<noteq> CHR '':''" l]
    by (cases "dropWhile (\<lambda>c. c \<noteq> CHR '':'') l") (auto simp: dropWhile_eq_Nil_conv)
  have l: "l = ?k @ CHR '':'' # ?v" using d takeWhile_dropWhile_id [of "\<lambda>c. c \<noteq> CHR '':''" l] by simp
  have f: "str_find '':'' (k @ CHR '':'' # v) = Some (length k)" if "CHR '':'' \<notin> set k" for k v
    using that by (induction k) auto
  have "header_kv (k @ CHR '':'' # v) = Inr (Some (k, field_value v))" if "CHR '':'' \<notin> set k" for k v
    by (simp add: header_kv_def f [OF that] left_trim_strip right_trim_strip [simplified] blank_dropWhile
        field_value_def strip_def)
  moreover have "CHR '':'' \<notin> set ?k" by (auto dest: set_takeWhileD)
  ultimately have "header_kv (?k @ CHR '':'' # ?v) = Inr (Some (?k, field_value ?v))" by blast
  then show ?thesis using True l by (simp add: line_field_def)
next
  case False
  then show ?thesis by (simp add: header_kv_def str_find_char_None)
qed

lemma strip_core:
  assumes "list_all is_blank b" "list_all is_blank d" "c \<noteq> []" "\<not> is_blank (hd c)" "\<not> is_blank (last c)"
  shows "strip (b @ c @ d) = c"
proof -
  have 1: "dropWhile is_blank (b @ c @ d) = c @ d"
    using assms(1,3,4) by (cases c) (auto simp: dropWhile_append list_all_iff)
  have 2: "dropWhile is_blank (rev d @ rev c) = rev c"
    using assms(2,3,5) by (cases c rule: rev_cases) (auto simp: dropWhile_append list_all_iff)
  show ?thesis by (simp add: strip_def 1 2)
qed

lemma trim_strip:
  assumes "length s < 2 ^ 64"
  shows "HttpParser_trim s = Inr (strip s)"
proof (cases "find_first_not_of blanks s")
  case None
  then have "list_all is_blank s" by (auto simp: find_first_not_of_None list_all_iff is_blank_blanks)
  then have d: "dropWhile is_blank s = []" by (simp add: list_all_iff)
  show ?thesis unfolding strip_def d by (simp add: HttpParser_trim_def None)
next
  case (Some i)
  have i: "i < length s" "drop i s = dropWhile is_blank s"
    using find_first_not_of_dropWhile [OF Some] by (simp_all add: is_blank_blanks(2))
  then have si: "\<not> is_blank (s ! i)"
    by (metis hd_drop_conv_nth hd_dropWhile drop_eq_Nil leD)
  have "take i s = takeWhile is_blank s"
    using i(2) by (metis append_same_eq append_take_drop_id takeWhile_dropWhile_id)
  then have b: "list_all is_blank (take i s)" by (auto simp: list_all_iff dest: set_takeWhileD)
  have "\<not> set s \<subseteq> set blanks" using Some find_first_not_of_None [of blanks s] by simp
  then obtain e where e: "find_last_not_of blanks s = Some e"
    using find_last_not_of_None [of blanks s] by (cases "find_last_not_of blanks s") auto
  have le: "e < length s" "\<not> is_blank (s ! e)" "list_all is_blank (drop (Suc e) s)"
    using find_last_not_of_Some [OF e] by (auto simp: is_blank_blanks list_all_iff)
  have ie: "i \<le> e"
  proof (rule ccontr)
    assume "\<not> i \<le> e"
    then have "s ! i \<in> set (drop (Suc e) s)" using i(1) by (auto simp: in_set_conv_nth intro!: exI [of _ "i - Suc e"])
    with le(3) si show False by (auto simp: list_all_iff)
  qed
  let ?c = "drop i (take (Suc e) s)"
  have s: "s = take i s @ ?c @ drop (Suc e) s"
    using ie by (metis append_assoc append_take_drop_id le_SucI min.absorb1 take_take)
  have c: "?c \<noteq> []" "hd ?c = s ! i" "last ?c = s ! e"
    using ie i(1) le(1) by (simp_all add: hd_drop_conv_nth last_drop last_conv_nth)
  have "size_add (size_sub e i) 1 = Suc e - i"
    using assms ie le(1) by (simp add: size_add_def size_sub_le)
  then have "HttpParser_trim s = Inr ?c"
    using Some e i(1) by (simp add: HttpParser_trim_def substr_def drop_take)
  moreover have "strip s = ?c" using strip_core [OF b le(3) c(1)] si le(2) c(2,3) s by metis
  ultimately show ?thesis by simp
qed

subsection \<open>Lines and fields\<close>

lemma split_lines_ne [simp]: "split_lines s \<noteq> []"
  by (cases s) auto

lemma split_lines_line: "LF \<notin> set l \<Longrightarrow> split_lines (l @ LF # r) = l # split_lines r"
  by (induction l) auto

lemma split_lines_getline:
  "getline s = Some (l, r) \<Longrightarrow>
     split_lines s = (if LF \<in> set s then l # split_lines r else [l]) \<and> LF \<notin> set l \<and> (LF \<notin> set s \<longrightarrow> r = [])"
proof (induction s arbitrary: l)
  case (Cons c s)
  show ?case
  proof (cases "c = LF \<or> s = []")
    case True
    with Cons.prems show ?thesis by (auto simp: getline_def)
  next
    case False
    then obtain l' where "getline s = Some (l', r)" "l = c # l'"
      using Cons.prems by (auto simp: getline_def)
    with Cons.IH [of l'] False show ?thesis by auto
  qed
qed simp

lemma header_fields_getline:
  assumes "getline s = Some (l, r)"
  shows "header_fields s = line_field l @ header_fields r"
  using split_lines_getline [OF assms] by (auto simp: header_fields_def line_field_def)

lemma build_headers_reference:
  "build_headers s m = Inr (fold (\<lambda>(k, v). AList.update k v) (header_fields s) m)"
proof (induction s arbitrary: m rule: length_induct)
  case (1 s)
  show ?case
  proof (cases "getline s")
    case None
    then have "s = []" by (auto simp: getline_def split: if_splits)
    then show ?thesis by (simp add: build_headers.simps header_fields_def line_field_def)
  next
    case (Some lr)
    obtain l r where lr: "lr = (l, r)" by (cases lr)
    note g = Some [unfolded lr]
    have IH: "build_headers r m' = Inr (fold (\<lambda>(k, v). AList.update k v) (header_fields r) m')" for m'
      using 1 getline_shorter [OF g] by blast
    have l: "drop_trailing LF l = l" using split_lines_getline [OF g] by simp
    show ?thesis
      unfolding build_headers.simps [of s m] header_fields_getline [OF g]
      by (cases "CHR '':'' \<in> set l")
         (auto simp: g l IH Let_def header_kv_reference line_field_def)
  qed
qed

subsection \<open>Well-formed requests\<close>

lemma strip_ends:
  assumes "\<not> list_all is_blank v"
  shows "strip v \<noteq> []" "\<not> is_blank (hd (strip v))" "\<not> is_blank (last (strip v))" "set (strip v) \<subseteq> set v"
proof -
  let ?w = "dropWhile is_blank v"
  have w: "?w \<noteq> []" "\<not> is_blank (hd ?w)"
    using assms hd_dropWhile [of is_blank v] by (auto simp: list_all_iff dropWhile_eq_Nil_conv)
  then have "rev ?w = rev (tl ?w) @ [hd ?w]" by (cases ?w) simp_all
  then have d: "dropWhile is_blank (rev ?w) = dropWhile is_blank (rev (tl ?w)) @ [hd ?w]"
    using w(2) by (auto simp: dropWhile_append)
  then have s: "strip v = hd ?w # rev (dropWhile is_blank (rev (tl ?w)))" by (simp add: strip_def)
  have "last (strip v) = hd (dropWhile is_blank (rev ?w))" by (simp add: strip_def last_rev)
  with hd_dropWhile [of is_blank "rev ?w"] d show "\<not> is_blank (last (strip v))" by simp
  show "strip v \<noteq> []" "\<not> is_blank (hd (strip v))" using s w(2) by simp_all
  show "set (strip v) \<subseteq> set v" by (auto simp: strip_def dest!: set_dropWhileD)
qed

lemma field_value_wf:
  assumes "LF \<notin> set v"
  shows "LF \<notin> set (field_value v)"
    "list_all is_blank (field_value v) \<or> \<not> is_blank (hd (field_value v)) \<and> \<not> is_blank (last (field_value v))"
  using assms strip_ends [of v] by (auto simp: field_value_def)

lemma line_field_wf:
  assumes "LF \<notin> set l"
  shows "list_all field_wf (line_field l)"
proof -
  have "set (tl xs) \<subseteq> set xs" for xs :: string by (cases xs) auto
  then have "set (tl (dropWhile (\<lambda>c. c \<noteq> CHR '':'') l)) \<subseteq> set l" by (blast dest: set_dropWhileD)
  with assms have "LF \<notin> set (tl (dropWhile (\<lambda>c. c \<noteq> CHR '':'') l))" by blast
  from field_value_wf [OF this] assms show ?thesis
    by (auto simp: line_field_def field_wf_def dest: set_takeWhileD)
qed

lemma split_lines_safe: "l \<in> set (split_lines s) \<Longrightarrow> LF \<notin> set l"
  by (induction s arbitrary: l) (auto split: if_splits dest: list.set_sel(2) [rotated] simp: list.set_sel(1))

lemma header_fields_wf: "list_all field_wf (header_fields s)"
  using line_field_wf split_lines_safe [of _ s] by (fastforce simp: header_fields_def list_all_iff)

lemma store_fields_wf:
  assumes "list_all field_wf fs"
  shows "umap_ok (store_fields fs) \<and> list_all field_wf (store_fields fs)"
proof -
  have "umap_ok m \<Longrightarrow> list_all field_wf m \<Longrightarrow>
      umap_ok (fold (\<lambda>(k, v). AList.update k v) fs m) \<and>
      list_all field_wf (fold (\<lambda>(k, v). AList.update k v) fs m)" for m
    using assms
  proof (induction fs arbitrary: m)
    case (Cons kv fs)
    obtain k v where kv: "kv = (k, v)" by (cases kv)
    with Cons show ?case by (simp add: list_all_AList_update)
  qed simp
  from this [of "[]"] show ?thesis by (simp add: store_fields_def)
qed

lemma build_request_fields:
  "build_request r =
     Inr \<lparr>req_method = string_to_method (pr_method r), req_method_string = pr_method r, req_path = pr_path r,
          req_version = pr_version r, req_headers = store_fields (header_fields (pr_headers_raw r)),
          req_body = pr_body r\<rparr>"
  by (simp add: build_request_def build_headers_reference store_fields_def HttpRequest_default_def
      string_to_method_def)

section \<open>Properties\<close>

text \<open>
  C11: Building a request equals its reference: for every parse result, \<open>build_request\<close> returns the
  request whose headers are the fields of the header text (cut at line feeds, split at the first colon,
  values trimmed unless they consist of blanks only), the later of two equal names winning, and whose method is the one its text names.
\<close>

theorem build_request_reference:
  "build_request r =
     Inr \<lparr>req_method = string_to_method (pr_method r), req_method_string = pr_method r, req_path = pr_path r,
          req_version = pr_version r, req_headers = store_fields (header_fields (pr_headers_raw r)),
          req_body = pr_body r\<rparr>"
  by (rule build_request_fields)

text \<open>
  \<open>HttpParser::trim\<close> computes the reference trimming, and the trimming written out in
  \<open>build_request\<close> agrees with it except on a value of blanks only, which \<open>trim\<close> empties and
  \<open>build_request\<close> keeps.
\<close>

lemma trim_reference:
  assumes "length v < 2 ^ 64" "CHR '':'' \<notin> set k"
  shows "HttpParser_trim v = Inr (strip v) \<and>
         header_kv (k @ '':'' @ v) =
           Inr (Some (k, if v \<noteq> [] \<and> list_all is_blank v then v else strip v))"
proof -
  have "takeWhile (\<lambda>c. c \<noteq> CHR '':'') (k @ CHR '':'' # v) = k"
    "dropWhile (\<lambda>c. c \<noteq> CHR '':'') (k @ CHR '':'' # v) = CHR '':'' # v"
    using assms(2) by (auto simp: takeWhile_append dropWhile_append)
  then have "header_kv (k @ '':'' @ v) = Inr (Some (k, field_value v))"
    by (simp add: header_kv_reference line_field_def)
  moreover have "strip [] = []" by (simp add: strip_def)
  ultimately show ?thesis using trim_strip [OF assms(1)] by (auto simp: field_value_def)
qed

text \<open>
  C12: The requests that handlers see are well-formed: whatever bytes arrive, if the parser reports no
  error then the request built from its result has a method, path and version without white space, a
  version that starts with \<open>HTTP/\<close>, the method that its text names, and headers with distinct names that contain
  neither a colon nor a line feed and whose values contain no line feed and neither begin nor end with a
  blank, unless they consist of blanks only, which the code keeps as they are.
\<close>

theorem parsed_request_wf:
  assumes "HttpParser_parse raw max_header_size max_body_size = Inr r" "pr_error r = NONE"
    and "build_request r = Inr req"
  shows "request_wf req"
  using parse_NONE [OF assms(1,2)] assms(3) store_fields_wf [OF header_fields_wf, of "pr_headers_raw r"]
  by (auto simp: build_request_fields request_wf_def)

theorem parsed_request_wf_witness:
  "\<exists>req. request_wf req \<and> req_headers req = [(''A'', ''b''), (''C'', ''d:e'')]"
proof -
  let ?raw = "''GET /x HTTP/1.1'' @ crlf @ ''A:  b '' @ crlf @ ''C:d:e'' @ crlf @ ''none'' @ crlfcrlf"
  obtain r where r: "HttpParser_parse ?raw 1000 1000 = Inr r" using parse_total by blast
  have "map_sum (\<lambda>e. e) (\<lambda>r. (pr_error r, pr_headers_raw r)) (HttpParser_parse ?raw 1000 1000) =
        Inr (NONE, ''A:  b '' @ [LF] @ ''C:d:e'' @ [LF] @ ''none'' @ [LF])" by code_simp
  with r have e: "pr_error r = NONE" "pr_headers_raw r = ''A:  b '' @ [LF] @ ''C:d:e'' @ [LF] @ ''none'' @ [LF]"
    by simp_all
  obtain req where q: "build_request r = Inr req" using build_request_total by blast
  have "store_fields (header_fields (''A:  b '' @ [LF] @ ''C:d:e'' @ [LF] @ ''none'' @ [LF])) =
        [(''A'', ''b''), (''C'', ''d:e'')]" by code_simp
  with q e(2) have "req_headers req = [(''A'', ''b''), (''C'', ''d:e'')]" by (auto simp: build_request_fields)
  with parsed_request_wf [OF r e(1) q] show ?thesis by blast
qed

end
