(* ===== verification/StaticFileHandler.thy ===== *)
theory StaticFileHandler
  imports HttpResponse
begin

text \<open>
  Model of \<open>src/static_file_handler.cpp\<close> and \<open>include/server/static_file_handler.hpp\<close>: URL decoding,
  path normalisation, MIME types and the serving of a file. The file system is the environment of
  the component: the record \<open>filesystem\<close> holds the answers of \<open>weakly_canonical\<close>, \<open>canonical\<close>,
  \<open>is_regular_file\<close> (the throwing overload) and of reading a file, and every theorem is for all such
  answers. Paths are POSIX paths (\<open>preferred_separator\<close> is \<open>/\<close>).

  The specifications do not use the definitions they specify: \<open>resolve\<close> reads the components of a path
  from left to right over a stack of names, \<open>abs_path\<close> writes an absolute path from its names, and
  \<open>mime_table\<close> is the table of file suffixes and types. \<open>canonical_fs\<close> is what the documentation of
  \<open>std::filesystem::canonical\<close> promises, and \<open>tree_fs\<close> the file system of a directory of plain files.
\<close>

section \<open>Environment\<close>

record filesystem =
  fs_weakly_canonical :: "string \<Rightarrow> string option"
  fs_canonical :: "string \<Rightarrow> string option"
  fs_is_regular_file :: "string \<Rightarrow> bool throws"
  fs_read :: "string \<Rightarrow> string option"

definition path_append :: "string \<Rightarrow> string \<Rightarrow> string" where
  "path_append root p =
     (if p \<noteq> [] \<and> hd p = CHR ''/'' then p
      else if root \<noteq> [] \<and> last root \<noteq> CHR ''/'' then root @ ''/'' @ p
      else root @ p)"

definition path_filename :: "string \<Rightarrow> string" where
  "path_filename s = rev (takeWhile (\<lambda>c. c \<noteq> CHR ''/'') (rev s))"

definition path_extension :: "string \<Rightarrow> string" where
  "path_extension s =
     (let f = path_filename s;
          after = takeWhile (\<lambda>c. c \<noteq> CHR ''.'') (rev f);
          dot = length f - length after - 1
      in if f = ''.'' \<or> f = ''..'' \<or> CHR ''.'' \<notin> set f \<or> dot = 0 then []
         else drop dot f)"

section \<open>Data and operations\<close>

record StaticFileHandler =
  sfh_document_root :: string

definition StaticFileHandler_make :: "filesystem \<Rightarrow> string \<Rightarrow> StaticFileHandler" where
  "StaticFileHandler_make fs document_root =
     \<lparr>sfh_document_root =
        (case fs_weakly_canonical fs document_root of None \<Rightarrow> document_root | Some c \<Rightarrow> c)\<rparr>"

definition mime_type :: "string \<Rightarrow> string" where
  "mime_type extension =
     (let ext = lower_str extension in
      if ext = ''.html'' \<or> ext = ''.htm'' then ''text/html''
      else if ext = ''.css'' then ''text/css''
      else if ext = ''.js'' then ''application/javascript''
      else if ext = ''.json'' then ''application/json''
      else if ext = ''.txt'' then ''text/plain''
      else if ext = ''.png'' then ''image/png''
      else if ext = ''.jpg'' \<or> ext = ''.jpeg'' then ''image/jpeg''
      else if ext = ''.svg'' then ''image/svg+xml''
      else if ext = ''.ico'' then ''image/x-icon''
      else if ext = ''.gif'' then ''image/gif''
      else if ext = ''.woff'' then ''font/woff''
      else if ext = ''.woff2'' then ''font/woff2''
      else if ext = ''.ttf'' then ''font/ttf''
      else if ext = ''.pdf'' then ''application/pdf''
      else if ext = ''.xml'' then ''application/xml''
      else ''application/octet-stream'')"

definition hex_digit :: "char \<Rightarrow> nat option" where
  "hex_digit c =
     (let n = of_char c :: nat in
      if 48 \<le> n \<and> n \<le> 57 then Some (n - 48)
      else if 65 \<le> n \<and> n \<le> 70 then Some (n - 55)
      else if 97 \<le> n \<and> n \<le> 102 then Some (n - 87)
      else None)"

definition hex_value :: "string \<Rightarrow> nat" where
  "hex_value ds = foldl (\<lambda>n c. n * 16 + the (hex_digit c)) 0 ds"

definition extract_hex :: "string \<Rightarrow> int option" where
  "extract_hex s =
     (let (neg, s1) = split_sign (dropWhile is_space s);
          s2 = (if prefix ''0x'' s1 \<or> prefix ''0X'' s1 then drop 2 s1 else s1);
          ds = takeWhile (\<lambda>c. hex_digit c \<noteq> None) s2
      in if ds = [] then None
         else Some (if neg then - int (hex_value ds) else int (hex_value ds)))"

function url_decode :: "string \<Rightarrow> string" where
  "url_decode [] = []"
| "url_decode (c # rest) =
     (if c = CHR ''%'' \<and> 2 \<le> length rest then
        (case extract_hex (take 2 rest) of
           Some value \<Rightarrow> char_of (value mod 256) # url_decode (drop 2 rest)
         | None \<Rightarrow> c # url_decode rest)
      else if c = CHR ''+'' then CHR '' '' # url_decode rest
      else c # url_decode rest)"
  by pat_completeness auto
termination
  by (relation "measure length") auto

definition flush_part :: "string \<Rightarrow> string list \<Rightarrow> string list" where
  "flush_part current parts =
     (if current \<noteq> [] \<and> current \<noteq> ''.'' then
        (if current = ''..'' then (if parts \<noteq> [] then butlast parts else parts)
         else parts @ [current])
      else parts)"

fun normalize_loop :: "string \<Rightarrow> string \<Rightarrow> string list \<Rightarrow> string list" where
  "normalize_loop [] current parts = flush_part current parts"
| "normalize_loop (c # cs) current parts =
     (if c = CHR ''/'' then normalize_loop cs [] (flush_part current parts)
      else normalize_loop cs (current @ [c]) parts)"

fun join_parts :: "string list \<Rightarrow> string" where
  "join_parts [] = []"
| "join_parts [p] = p"
| "join_parts (p # ps) = p @ ''/'' @ join_parts ps"

definition sanitize :: "string \<Rightarrow> string" where
  "sanitize path =
     dropWhile (\<lambda>c. c = CHR ''/'')
       (map (\<lambda>c. if c = CHR 0x5C then CHR ''/'' else c)
         (filter (\<lambda>c. c \<noteq> CHR 0x00) path))"

definition normalize_path :: "string \<Rightarrow> string" where
  "normalize_path path = join_parts (normalize_loop (sanitize path) [] [])"

definition root_prefix :: "string \<Rightarrow> string" where
  "root_prefix root_str =
     (if root_str \<noteq> [] \<and> last root_str \<noteq> CHR ''/'' then root_str @ ''/'' else root_str)"

definition target_path :: "StaticFileHandler \<Rightarrow> string \<Rightarrow> string" where
  "target_path h url_path =
     (let normalized = normalize_path (url_decode url_path);
          normalized' = (if normalized = [] then ''index.html'' else normalized)
      in path_append (sfh_document_root h) normalized')"

definition serve :: "filesystem \<Rightarrow> StaticFileHandler \<Rightarrow> string \<Rightarrow> HttpResponse option throws" where
  "serve fs h url_path =
     (case fs_canonical fs (target_path h url_path) of
        None \<Rightarrow> Inr None
      | Some canonical \<Rightarrow>
          (case fs_canonical fs (sfh_document_root h) of
             None \<Rightarrow> Inr None
           | Some root_canonical \<Rightarrow>
               if str_find (root_prefix root_canonical) canonical \<noteq> Some 0
               then Inr (Some (forbidden ''403 Forbidden''))
               else
                 throws_bind (fs_is_regular_file fs canonical) (\<lambda>regular.
                   if \<not> regular then Inr None
                   else case fs_read fs canonical of
                          None \<Rightarrow> Inr None
                        | Some content \<Rightarrow>
                            Inr (Some (set_header ''Connection'' ''close''
                              (HttpResponse_ok content (mime_type (path_extension canonical))))))))"

section \<open>Specification of the normalisation\<close>

fun split_slash :: "string \<Rightarrow> string list" where
  "split_slash [] = [[]]"
| "split_slash (c # cs) =
     (if c = CHR ''/'' then [] # split_slash cs
      else (c # hd (split_slash cs)) # tl (split_slash cs))"

definition resolve :: "string list \<Rightarrow> string list" where
  "resolve names =
     rev (foldl (\<lambda>stack name. if name = [] \<or> name = ''.'' then stack
                             else if name = ''..'' then drop 1 stack
                             else name # stack) [] names)"

definition components :: "string \<Rightarrow> string list" where
  "components path =
     split_slash (map (\<lambda>c. if c = CHR 0x5C then CHR ''/'' else c) (filter (\<lambda>c. c \<noteq> CHR 0x00) path))"

definition part_ok :: "string \<Rightarrow> bool" where
  "part_ok p =
     (p \<noteq> [] \<and> p \<noteq> ''.'' \<and> p \<noteq> ''..'' \<and> CHR ''/'' \<notin> set p \<and> CHR 0x5C \<notin> set p \<and> CHR 0x00 \<notin> set p)"

definition hex_char :: "nat \<Rightarrow> char" where
  "hex_char k = (if k < 10 then char_of (48 + k) else char_of (55 + k))"

definition percent_byte :: "char \<Rightarrow> string" where
  "percent_byte c = [CHR ''%'', hex_char (of_char c div 16), hex_char (of_char c mod 16)]"

definition percent_encode :: "(char \<Rightarrow> bool) \<Rightarrow> string \<Rightarrow> string" where
  "percent_encode keep s = concat (map (\<lambda>c. if keep c then [c] else percent_byte c) s)"

definition no_symlinks :: "filesystem \<Rightarrow> string \<Rightarrow> bool" where
  "no_symlinks fs root =
     (fs_canonical fs root = Some root \<and>
      (\<forall>ps. list_all part_ok ps \<longrightarrow> ps \<noteq> [] \<longrightarrow>
         fs_canonical fs (root @ ''/'' @ join_parts ps) \<in>
           {None, Some (root @ ''/'' @ join_parts ps)}))"

text \<open>Canonical paths are absolute, without dot, dot-dot or empty names; the root directory is not a
  regular file.\<close>

definition plain_name :: "string \<Rightarrow> bool" where
  "plain_name p = (p \<noteq> [] \<and> p \<noteq> ''.'' \<and> p \<noteq> ''..'' \<and> CHR ''/'' \<notin> set p)"

definition below :: "string list \<Rightarrow> string" where
  "below ps = concat (map (\<lambda>p. CHR ''/'' # p) ps)"

definition abs_path :: "string list \<Rightarrow> string" where
  "abs_path ps = (if ps = [] then ''/'' else below ps)"

definition canonical_fs :: "filesystem \<Rightarrow> bool" where
  "canonical_fs fs =
     ((\<forall>p c. fs_canonical fs p = Some c \<longrightarrow> (\<exists>ps. list_all plain_name ps \<and> c = abs_path ps)) \<and>
      fs_is_regular_file fs ''/'' \<noteq> Inr True)"

text \<open>A directory tree of plain files: each file is given by its names below the root and its content.\<close>

definition tree_fs :: "string \<Rightarrow> (string list \<times> string) list \<Rightarrow> filesystem" where
  "tree_fs root files =
     (let content = map_of (map (\<lambda>(ps, c). (root @ below ps, c)) files)
      in \<lparr>fs_weakly_canonical = Some,
          fs_canonical = (\<lambda>p. if p = root \<or> content p \<noteq> None then Some p else None),
          fs_is_regular_file = (\<lambda>p. Inr (content p \<noteq> None)),
          fs_read = content\<rparr>)"

definition url_names :: "string \<Rightarrow> string list" where
  "url_names url =
     (let ps = resolve (components (url_decode url)) in if ps = [] then [''index.html''] else ps)"

definition mime_table :: "(string \<times> string) list" where
  "mime_table =
     [(''html'', ''text/html''), (''htm'', ''text/html''), (''css'', ''text/css''),
      (''js'', ''application/javascript''), (''json'', ''application/json''),
      (''txt'', ''text/plain''), (''png'', ''image/png''), (''jpg'', ''image/jpeg''),
      (''jpeg'', ''image/jpeg''), (''svg'', ''image/svg+xml''), (''ico'', ''image/x-icon''),
      (''gif'', ''image/gif''), (''woff'', ''font/woff''), (''woff2'', ''font/woff2''),
      (''ttf'', ''font/ttf''), (''pdf'', ''application/pdf''), (''xml'', ''application/xml'')]"

definition file_suffix :: "string \<Rightarrow> string option" where
  "file_suffix name =
     (if CHR ''.'' \<in> set (tl name) then Some (rev (takeWhile (\<lambda>c. c \<noteq> CHR ''.'') (rev name))) else None)"

definition content_type_of :: "string \<Rightarrow> string" where
  "content_type_of name =
     (case Option.bind (file_suffix name) (\<lambda>s. map_of mime_table (lower_str s)) of
        None \<Rightarrow> ''application/octet-stream'' | Some t \<Rightarrow> t)"

text \<open>A small file system, for the witnesses: one directory and one file.\<close>

definition sample_fs :: filesystem where
  "sample_fs =
     \<lparr>fs_weakly_canonical = Some,
      fs_canonical = (\<lambda>p. if p = ''/srv'' \<or> p = ''/srv/hello.txt'' then Some p else None),
      fs_is_regular_file = (\<lambda>p. Inr (p = ''/srv/hello.txt'')),
      fs_read = (\<lambda>p. if p = ''/srv/hello.txt'' then Some ''Hello'' else None)\<rparr>"

definition sample_handler :: StaticFileHandler where
  "sample_handler = StaticFileHandler_make sample_fs ''/srv''"

section \<open>Lemmas\<close>

subsection \<open>Normalisation\<close>

lemma split_slash_neq_Nil [simp]: "split_slash s \<noteq> []"
  by (cases s) auto

lemma normalize_loop_split:
  "normalize_loop s cur parts =
     fold flush_part ((cur @ hd (split_slash s)) # tl (split_slash s)) parts"
proof (induction s arbitrary: cur parts)
  case (Cons c s)
  have "fold flush_part (split_slash s) (flush_part cur parts) =
          fold flush_part (tl (split_slash s)) (flush_part (hd (split_slash s)) (flush_part cur parts))"
    by (cases "split_slash s") simp_all
  with Cons show ?case by simp
qed simp

lemma fold_flush_resolve:
  "fold flush_part names (rev stack) =
     rev (foldl (\<lambda>stack name. if name = [] \<or> name = ''.'' then stack
                             else if name = ''..'' then drop 1 stack
                             else name # stack) stack names)"
proof (induction names arbitrary: stack)
  case (Cons c names)
  have "flush_part c (rev stack) =
          rev (if c = [] \<or> c = ''.'' then stack else if c = ''..'' then drop 1 stack else c # stack)"
    by (cases stack) (auto simp: flush_part_def)
  then show ?case using Cons by simp
qed simp

lemma normalize_loop_spec: "normalize_loop s [] [] = resolve (split_slash s)"
proof -
  have "hd (split_slash s) # tl (split_slash s) = split_slash s" by simp
  then show ?thesis
    using fold_flush_resolve [of "split_slash s" "[]"]
    unfolding resolve_def normalize_loop_split by simp
qed

lemma resolve_Nil_name [simp]: "resolve ([] # names) = resolve names"
  by (simp add: resolve_def)

lemma resolve_drop_slashes: "resolve (split_slash (dropWhile (\<lambda>c. c = CHR ''/'') s)) = resolve (split_slash s)"
  by (induction s) auto

lemma normalize_sanitize: "normalize_loop (sanitize p) [] [] = resolve (components p)"
  by (simp add: normalize_loop_spec sanitize_def components_def resolve_drop_slashes)

definition chars_ok :: "string \<Rightarrow> bool" where
  "chars_ok s = (CHR 0x5C \<notin> set s \<and> CHR 0x00 \<notin> set s)"

lemma flush_part_ok:
  assumes "list_all part_ok parts" "chars_ok cur" "CHR ''/'' \<notin> set cur"
  shows "list_all part_ok (flush_part cur parts)"
  using assms by (auto simp: flush_part_def part_ok_def chars_ok_def list_all_iff dest: in_set_butlastD)

lemma normalize_loop_ok:
  assumes "list_all part_ok parts" "chars_ok cur" "CHR ''/'' \<notin> set cur" "chars_ok s"
  shows "list_all part_ok (normalize_loop s cur parts)"
  using assms
proof (induction s cur parts rule: normalize_loop.induct)
  case (1 cur parts)
  then show ?case by (simp add: flush_part_ok)
next
  case (2 c cs cur parts)
  then show ?case by (auto simp: flush_part_ok chars_ok_def)
qed

lemma sanitize_ok: "chars_ok (sanitize p)"
  by (auto simp: chars_ok_def sanitize_def dest!: set_dropWhileD split: if_splits)

lemma normalize_parts_ok: "list_all part_ok (normalize_loop (sanitize p) [] [])"
  by (rule normalize_loop_ok) (simp_all add: chars_ok_def sanitize_ok [unfolded chars_ok_def])

lemma join_parts_Cons: "ps \<noteq> [] \<Longrightarrow> join_parts (p # ps) = p @ ''/'' @ join_parts ps"
  by (cases ps) auto

lemma split_slash_append:
  assumes "CHR ''/'' \<notin> set p"
  shows "split_slash (p @ ''/'' @ s) = p # split_slash s" "split_slash p = [p]"
  using assms by (induction p) auto

lemma split_join_parts:
  assumes "list_all part_ok ps" "ps \<noteq> []"
  shows "split_slash (join_parts ps) = ps"
  using assms
  by (induction ps rule: join_parts.induct) (simp_all add: part_ok_def split_slash_append(2)
      split_slash_append(1) [simplified])

lemma resolve_ok:
  assumes "list_all part_ok ps"
  shows "resolve ps = ps"
proof -
  have "fold flush_part ps acc = acc @ ps" for acc
    using assms by (induction ps arbitrary: acc) (auto simp: flush_part_def part_ok_def)
  from this [of "[]"] show ?thesis using fold_flush_resolve [of ps "[]"] by (simp add: resolve_def)
qed

lemma set_join_parts: "set (join_parts ps) \<subseteq> insert (CHR ''/'') (\<Union> (set ` set ps))"
  by (induction ps rule: join_parts.induct) auto

lemma join_parts_hd:
  assumes "list_all part_ok ps"
  shows "join_parts ps = [] \<or> hd (join_parts ps) \<noteq> CHR ''/''"
  using assms by (induction ps rule: join_parts.induct) (auto simp: part_ok_def hd_append dest: hd_in_set)

lemma sanitize_id:
  assumes "chars_ok s" "s = [] \<or> hd s \<noteq> CHR ''/''"
  shows "sanitize s = s"
proof -
  have "filter (\<lambda>c. c \<noteq> CHR 0x00) s = s" using assms(1) by (auto simp: chars_ok_def filter_id_conv)
  moreover have "map (\<lambda>c. if c = CHR 0x5C then CHR ''/'' else c) s = s"
    using assms(1) by (intro map_idI) (auto simp: chars_ok_def)
  moreover have "dropWhile (\<lambda>c. c = CHR ''/'') s = s" using assms(2) by (cases s) auto
  ultimately show ?thesis by (simp add: sanitize_def)
qed

lemma normalize_join_parts:
  assumes "list_all part_ok ps"
  shows "normalize_path (join_parts ps) = join_parts ps"
proof -
  have "chars_ok (join_parts ps)"
    using set_join_parts [of ps] assms by (fastforce simp: chars_ok_def list_all_iff part_ok_def)
  then have s: "sanitize (join_parts ps) = join_parts ps"
    using sanitize_id join_parts_hd [OF assms] by blast
  show ?thesis
  proof (cases "ps = []")
    case True
    then show ?thesis by (simp add: normalize_path_def sanitize_def flush_part_def)
  next
    case False
    then show ?thesis
      using s split_join_parts [OF assms False] resolve_ok [OF assms]
      by (simp add: normalize_path_def normalize_loop_spec)
  qed
qed

lemma normalize_path_hd: "normalize_path p = [] \<or> hd (normalize_path p) \<noteq> CHR ''/''"
  unfolding normalize_path_def by (rule join_parts_hd [OF normalize_parts_ok])

lemma target_path_under_root:
  assumes "sfh_document_root h \<noteq> []" "last (sfh_document_root h) \<noteq> CHR ''/''"
  shows "\<exists>n. n \<noteq> [] \<and> target_path h url = sfh_document_root h @ ''/'' @ n"
  using assms normalize_path_hd [of "url_decode url"]
  by (auto simp: target_path_def path_append_def Let_def)

subsection \<open>Percent decoding\<close>

lemma hex_char_digit:
  assumes "k < 16"
  shows "hex_digit (hex_char k) = Some k" "\<not> is_space (hex_char k)"
    "hex_char k \<noteq> CHR ''-''" "hex_char k \<noteq> CHR ''+''"
    "hex_char k \<noteq> CHR ''x''" "hex_char k \<noteq> CHR ''X''"
proof -
  have c: "(of_char (hex_char k) :: nat) = (if k < 10 then 48 + k else 55 + k)"
    using assms by (simp add: hex_char_def)
  show "hex_digit (hex_char k) = Some k" using c assms by (simp add: hex_digit_def)
  have "hex_char k \<noteq> d" if "of_char d < (48::nat) \<or> of_char d > (70::nat)" for d
    using c that assms by (auto split: if_splits)
  then show "hex_char k \<noteq> CHR ''-''" "hex_char k \<noteq> CHR ''+''"
    "hex_char k \<noteq> CHR ''x''" "hex_char k \<noteq> CHR ''X''" "\<not> is_space (hex_char k)"
    using c by (simp_all add: is_space_def Let_def)
qed

lemma extract_hex_byte:
  assumes "n < 256"
  shows "extract_hex [hex_char (n div 16), hex_char (n mod 16)] = Some (int n)"
proof -
  have d: "n div 16 < 16" "n mod 16 < 16" using assms by simp_all
  note h = hex_char_digit [OF d(1)] hex_char_digit [OF d(2)]
  have "n div 16 * 16 + n mod 16 = n" by simp
  with h show ?thesis
    by (simp add: extract_hex_def split_sign_def hex_value_def)
qed

lemma url_decode_percent_byte: "url_decode (percent_byte c @ s) = c # url_decode s"
  using extract_hex_byte [of "of_char c"]
  by (simp add: percent_byte_def numeral_2_eq_2 of_nat_mod [symmetric])

lemma url_decode_percent_encode:
  assumes "\<forall>c. keep c \<longrightarrow> c \<noteq> CHR ''%'' \<and> c \<noteq> CHR ''+''"
  shows "url_decode (percent_encode keep s) = s"
proof (induction s)
  case (Cons c s)
  then show ?case
    using assms url_decode_percent_byte by (auto simp: percent_encode_def)
qed (simp add: percent_encode_def)

subsection \<open>Serving\<close>

lemma mime_type_safe: "line_safe (mime_type ext)"
  by (simp add: mime_type_def Let_def line_safe_Cons)

lemma serve_wf: "serve fs h url = Inr (Some r) \<Longrightarrow> resp_wf r"
  by (auto simp: serve_def throws_bind_Inr_iff factories_wf mime_type_safe set_connection_wf
      split: option.splits if_splits)

lemma serve_OK_cases:
  assumes "serve fs h url_path = Inr (Some resp)" "status_code resp = OK"
  shows "\<exists>file root. fs_canonical fs (target_path h url_path) = Some file \<and>
           fs_canonical fs (sfh_document_root h) = Some root \<and>
           prefix (root_prefix root) file \<and>
           fs_is_regular_file fs file = Inr True \<and> fs_read fs file = Some (resp_body resp)"
  using assms
  by (auto simp: serve_def throws_bind_Inr_iff status_code_def str_find_zero_iff forbidden_def
      resp_defs HttpResponse_ok_def split: option.splits if_splits)

lemma target_path_parts:
  assumes "sfh_document_root h \<noteq> []" "last (sfh_document_root h) \<noteq> CHR ''/''"
  shows "\<exists>ps. list_all part_ok ps \<and> ps \<noteq> [] \<and>
           target_path h url = sfh_document_root h @ ''/'' @ join_parts ps"
proof -
  let ?ps = "normalize_loop (sanitize (url_decode url)) [] []"
  have ok: "list_all part_ok ?ps" by (rule normalize_parts_ok)
  have idx: "list_all part_ok [''index.html'']" by (simp add: part_ok_def)
  have ne: "join_parts ?ps = [] \<Longrightarrow> ?thesis"
    using idx assms by (intro exI [of _ "[''index.html'']"])
      (auto simp: target_path_def path_append_def normalize_path_def)
  show ?thesis
  proof (cases "join_parts ?ps = []")
    case True
    then show ?thesis by (rule ne)
  next
    case False
    then have "?ps \<noteq> []" by auto
    with False ok assms join_parts_hd [OF ok] show ?thesis
      by (intro exI [of _ ?ps]) (auto simp: target_path_def path_append_def normalize_path_def)
  qed
qed

subsection \<open>Absolute paths\<close>

lemma below_Cons: "below (p # ps) = CHR ''/'' # p @ below ps"
  by (simp add: below_def)

lemma below_Nil [simp]: "below [] = []"
  by (simp add: below_def)

lemma below_hd: "below ps = [] \<or> hd (below ps) = CHR ''/''"
  by (cases ps) (simp_all add: below_def)

lemma slash_free_split:
  assumes "p @ xs = q @ ys" "CHR ''/'' \<notin> set p" "CHR ''/'' \<notin> set q"
    and "xs = [] \<or> hd xs = CHR ''/''" "ys = [] \<or> hd ys = CHR ''/''"
  shows "p = q \<and> xs = ys"
proof -
  have tw: "takeWhile (\<lambda>c. c \<noteq> CHR ''/'') (p @ xs) = p"
    if "CHR ''/'' \<notin> set p" "xs = [] \<or> hd xs = CHR ''/''" for p xs :: string
    using that by (cases xs) (auto simp: takeWhile_append)
  have "p = q" using tw [OF assms(2,4)] tw [OF assms(3,5)] assms(1) by metis
  then show ?thesis using assms(1) by simp
qed

lemma below_prefix_names:
  assumes "list_all plain_name rs" "list_all plain_name qs" "below qs = below rs @ CHR ''/'' # s"
  shows "\<exists>ps. ps \<noteq> [] \<and> qs = rs @ ps"
  using assms
proof (induction rs arbitrary: qs)
  case Nil
  then show ?case by (intro exI [of _ qs]) auto
next
  case (Cons r rs)
  then obtain q qs' where q: "qs = q # qs'" by (cases qs) (auto simp: below_def)
  have "q @ below qs' = r @ below rs @ CHR ''/'' # s" using Cons.prems q by (simp add: below_Cons)
  moreover have "below rs @ CHR ''/'' # s = [] \<or> hd (below rs @ CHR ''/'' # s) = CHR ''/''"
    using below_hd [of rs] by (cases "below rs") auto
  ultimately have "q = r \<and> below qs' = below rs @ CHR ''/'' # s"
    using Cons.prems q below_hd by (intro slash_free_split) (auto simp: plain_name_def)
  with Cons.IH [of qs'] Cons.prems q show ?case by auto
qed

lemma below_inj:
  assumes "list_all plain_name ps" "list_all plain_name qs" "below ps = below qs"
  shows "ps = qs"
  using assms
proof (induction ps arbitrary: qs)
  case Nil
  then show ?case by (cases qs) (auto simp: below_def)
next
  case (Cons p ps)
  then obtain q qs' where q: "qs = q # qs'" by (cases qs) (auto simp: below_def)
  have "p = q \<and> below ps = below qs'"
    using Cons.prems q below_hd by (intro slash_free_split) (auto simp: below_Cons plain_name_def)
  with Cons q show ?case by auto
qed

lemma last_below:
  assumes "list_all plain_name ps" "ps \<noteq> []"
  shows "last (below ps) \<noteq> CHR ''/''" "below ps \<noteq> []"
  using assms
proof (induction ps)
  case (Cons p ps)
  {
    case 1
    then show ?case using Cons.IH
      by (cases "ps = []") (auto simp: below_Cons plain_name_def dest: last_in_set)
  next
    case 2
    then show ?case by (simp add: below_Cons)
  }
qed simp_all

lemma abs_path_confined:
  assumes "list_all plain_name rs" "list_all plain_name qs"
    and "prefix (root_prefix (abs_path rs)) (abs_path qs)" "qs \<noteq> []"
  shows "\<exists>ps. ps \<noteq> [] \<and> qs = rs @ ps"
proof (cases "rs = []")
  case False
  then have "root_prefix (abs_path rs) = below rs @ ''/''"
    using last_below [OF assms(1)] by (simp add: root_prefix_def abs_path_def)
  then obtain s where "below qs = below rs @ CHR ''/'' # s"
    using assms(3,4) by (auto simp: abs_path_def prefix_def)
  then show ?thesis by (rule below_prefix_names [OF assms(1,2)])
qed (use assms(4) in auto)

lemma part_ok_plain: "list_all part_ok ps \<Longrightarrow> list_all plain_name ps"
  by (auto simp: list_all_iff part_ok_def plain_name_def)

lemma below_join_parts: "ps \<noteq> [] \<Longrightarrow> below ps = ''/'' @ join_parts ps"
  by (induction ps rule: join_parts.induct) (simp_all add: below_def)

lemma map_of_below:
  assumes "list_all (list_all part_ok) (map fst files)" "list_all part_ok ps"
  shows "map_of (map (\<lambda>(ps, c). (root @ below ps, c)) files) (root @ below ps) = map_of files ps"
  using assms by (induction files) (auto dest: below_inj [OF part_ok_plain part_ok_plain])

subsection \<open>Types by suffix\<close>

lemma path_filename_below:
  assumes "ps \<noteq> []" "CHR ''/'' \<notin> set (last ps)"
  shows "path_filename (root @ below ps) = last ps"
proof -
  have "below ps = below (butlast ps) @ CHR ''/'' # last ps"
    using assms(1) by (induction ps) (auto simp: below_def)
  then show ?thesis using assms(2) by (simp add: path_filename_def takeWhile_append)
qed

lemma extension_suffix:
  assumes "path_filename s = f" "part_ok f"
  shows "path_extension s = (case file_suffix f of None \<Rightarrow> [] | Some x \<Rightarrow> CHR ''.'' # x)"
proof -
  let ?after = "takeWhile (\<lambda>c. c \<noteq> CHR ''.'') (rev f)"
  have f: "f \<noteq> []" "f \<noteq> ''.''" "f \<noteq> ''..''" using assms(2) by (simp_all add: part_ok_def)
  show ?thesis
  proof (cases "CHR ''.'' \<in> set f")
    case False
    then have "CHR ''.'' \<notin> set (tl f)" by (cases f) auto
    with False assms(1) show ?thesis by (simp add: path_extension_def Let_def file_suffix_def)
  next
    case True
    then have d: "dropWhile (\<lambda>c. c \<noteq> CHR ''.'') (rev f) \<noteq> []" by (auto simp: dropWhile_eq_Nil_conv)
    let ?pre = "tl (dropWhile (\<lambda>c. c \<noteq> CHR ''.'') (rev f))"
    define pre where "pre = rev ?pre"
    have "hd (dropWhile (\<lambda>c. c \<noteq> CHR ''.'') (rev f)) = CHR ''.''" using hd_dropWhile [OF d] by simp
    then have "dropWhile (\<lambda>c. c \<noteq> CHR ''.'') (rev f) = CHR ''.'' # ?pre" using d by (metis list.collapse)
    then have "rev f = ?after @ CHR ''.'' # ?pre"
      using takeWhile_dropWhile_id [of "\<lambda>c. c \<noteq> CHR ''.''" "rev f"] by simp
    from arg_cong [OF this, of rev] have fe: "f = pre @ CHR ''.'' # rev ?after" by (simp add: pre_def)
    have dot: "length f - length ?after - 1 = length pre" "length f \<le> Suc (length ?after) \<longleftrightarrow> pre = []"
      using arg_cong [OF fe, of length] by auto
    have nd: "CHR ''.'' \<notin> set ?after" by (auto dest: set_takeWhileD)
    have "CHR ''.'' \<in> set (tl f) \<longleftrightarrow> pre \<noteq> []"
      using nd by (subst fe, cases pre) auto
    moreover have "drop (length pre) f = CHR ''.'' # rev ?after" by (subst fe) simp
    ultimately show ?thesis
      using f assms(1) True dot by (simp add: path_extension_def Let_def file_suffix_def)
  qed
qed

lemma mime_type_table:
  "mime_type (CHR ''.'' # s) =
     (case map_of mime_table (lower_str s) of None \<Rightarrow> ''application/octet-stream'' | Some t \<Rightarrow> t)"
proof -
  have "lower_str (CHR ''.'' # s) = CHR ''.'' # lower_str s" by (simp add: lower_str_def to_lower_def)
  then show ?thesis by (simp add: mime_type_def mime_table_def Let_def)
qed

lemma mime_type_content:
  assumes "part_ok f" "path_filename s = f"
  shows "mime_type (path_extension s) = content_type_of f"
proof -
  have "mime_type [] = ''application/octet-stream''" by (simp add: mime_type_def lower_str_def)
  then show ?thesis
    using extension_suffix [OF assms(2,1)]
    by (auto simp: content_type_of_def mime_type_table split: option.splits)
qed

subsection \<open>Serving a directory tree\<close>

lemma url_names_ok: "list_all part_ok (url_names url)" "url_names url \<noteq> []"
  using normalize_parts_ok [of "url_decode url"]
  by (auto simp: url_names_def normalize_sanitize Let_def part_ok_def)

lemma target_path_names:
  assumes "sfh_document_root h \<noteq> []" "last (sfh_document_root h) \<noteq> CHR ''/''"
  shows "target_path h url = sfh_document_root h @ below (url_names url)"
proof -
  let ?ps = "resolve (components (url_decode url))"
  have ok: "list_all part_ok ?ps"
    using normalize_parts_ok [of "url_decode url"] by (simp add: normalize_sanitize)
  have "join_parts ?ps = [] \<longleftrightarrow> ?ps = []"
    using ok by (cases ?ps rule: join_parts.cases) (auto simp: part_ok_def)
  then show ?thesis
    using assms join_parts_hd [OF ok] url_names_ok [of url]
    by (auto simp: target_path_def path_append_def normalize_path_def normalize_sanitize
        url_names_def below_join_parts Let_def)
qed

section \<open>Properties\<close>

text \<open>C1: Confinement. Whatever the URL, on every file system whose canonical paths are absolute paths of
  plain names, a file is served (status 200) only when the names of its canonical path are those of the
  canonical document root followed by at least one more, it is a regular file, and the body is exactly
  its content. In particular a sibling whose name only begins with that of the root is never served.\<close>

theorem serve_confined:
  assumes "canonical_fs fs"
    and "serve fs h url_path = Inr (Some resp)" "status_code resp = OK"
  shows "\<exists>rs ps. list_all plain_name (rs @ ps) \<and> ps \<noteq> [] \<and>
           fs_canonical fs (sfh_document_root h) = Some (abs_path rs) \<and>
           fs_canonical fs (target_path h url_path) = Some (abs_path (rs @ ps)) \<and>
           fs_is_regular_file fs (abs_path (rs @ ps)) = Inr True \<and>
           fs_read fs (abs_path (rs @ ps)) = Some (resp_body resp)"
proof -
  obtain f root where fr: "fs_canonical fs (target_path h url_path) = Some f"
    "fs_canonical fs (sfh_document_root h) = Some root" "prefix (root_prefix root) f"
    "fs_is_regular_file fs f = Inr True" "fs_read fs f = Some (resp_body resp)"
    using serve_OK_cases [OF assms(2,3)] by blast
  obtain rs qs where q: "list_all plain_name rs" "root = abs_path rs" "list_all plain_name qs"
    "f = abs_path qs"
    using assms(1) fr(1,2) unfolding canonical_fs_def by blast
  have "qs \<noteq> []" using assms(1) fr(4) q(4) by (auto simp: canonical_fs_def abs_path_def)
  then obtain ps where "ps \<noteq> []" "qs = rs @ ps"
    using abs_path_confined [OF q(1,3)] fr(3) q(2,4) by blast
  with fr q show ?thesis by (intro exI [of _ rs] exI [of _ ps]) simp
qed

theorem serve_confined_witness:
  "\<exists>resp rs ps. serve sample_fs sample_handler ''/x/../hello.txt'' = Inr (Some resp) \<and>
     status_code resp = OK \<and> ps \<noteq> [] \<and>
     fs_canonical sample_fs (sfh_document_root sample_handler) = Some (abs_path rs) \<and>
     fs_canonical sample_fs (target_path sample_handler ''/x/../hello.txt'') = Some (abs_path (rs @ ps))"
proof -
  have s: "serve sample_fs sample_handler ''/x/../hello.txt'' =
             Inr (Some (set_header ''Connection'' ''close'' (HttpResponse_ok ''Hello'' ''text/plain'')))"
    by code_simp
  have c: "status_code (set_header ''Connection'' ''close'' (HttpResponse_ok ''Hello'' ''text/plain'')) = OK"
    by code_simp
  have "\<exists>ps. list_all plain_name ps \<and> c = abs_path ps" if "fs_canonical sample_fs p = Some c" for p c
    using that by (intro exI [of _ "if p = ''/srv'' then [''srv''] else [''srv'', ''hello.txt'']"])
      (auto simp: sample_fs_def abs_path_def below_def plain_name_def split: if_splits)
  then have "canonical_fs sample_fs" by (simp add: canonical_fs_def) (simp add: sample_fs_def)
  from serve_confined [OF this s c] s c show ?thesis by blast
qed

text \<open>C33: \<open>normalize_path\<close> resolves a path: cut at slashes and backslashes, with NUL bytes removed, its
  components are read from left to right, empty ones and \<open>.\<close> skipped, \<open>..\<close> removing the name kept last
  (and nothing at the top). The result holds exactly the names that remain, separated by single
  slashes, and each is a plain name without slash, backslash or NUL byte.\<close>

theorem normalize_path_spec:
  "list_all part_ok (resolve (components path)) \<and>
   (if resolve (components path) = [] then normalize_path path = []
    else split_slash (normalize_path path) = resolve (components path))"
  using normalize_parts_ok [of path] split_join_parts [of "resolve (components path)"]
  by (simp add: normalize_path_def normalize_sanitize)

text \<open>Normalisation is idempotent, and its result is never an absolute path.\<close>

lemma normalize_path_idempotent:
  "normalize_path (normalize_path path) = normalize_path path \<and> \<not> prefix ''/'' (normalize_path path)"
proof
  show "normalize_path (normalize_path path) = normalize_path path"
    unfolding normalize_path_def [of path] by (rule normalize_join_parts [OF normalize_parts_ok])
  show "\<not> prefix ''/'' (normalize_path path)"
    using normalize_path_hd [of path] by (auto simp: prefix_def)
qed

text \<open>C34: Without symbolic links below the document root no URL is answered with 403: the
  normalisation alone keeps every request, encoded dot-dot sequences included, below the root.\<close>

theorem serve_no_traversal:
  assumes "sfh_document_root h \<noteq> []" "last (sfh_document_root h) \<noteq> CHR ''/''"
    and "no_symlinks fs (sfh_document_root h)"
    and "serve fs h url_path = Inr (Some resp)"
  shows "status_code resp = OK \<and> prefix (sfh_document_root h @ ''/'') (target_path h url_path)"
proof -
  obtain ps where ps: "list_all part_ok ps" "ps \<noteq> []"
    "target_path h url_path = sfh_document_root h @ ''/'' @ join_parts ps"
    using target_path_parts [OF assms(1,2)] by blast
  then have "fs_canonical fs (target_path h url_path) \<in> {None, Some (target_path h url_path)}"
    using assms(3) by (auto simp: no_symlinks_def)
  with ps(3) assms show ?thesis
    by (auto simp: serve_def no_symlinks_def root_prefix_def str_find_zero_iff throws_bind_Inr_iff
        status_code_def HttpResponse_ok_def resp_defs split: option.splits if_splits)
qed

theorem serve_no_traversal_witness:
  "prefix (sfh_document_root sample_handler @ ''/'')
     (target_path sample_handler ''/%2e%2e/%2e%2e/hello.txt'')"
proof -
  have s: "serve sample_fs sample_handler ''/%2e%2e/%2e%2e/hello.txt'' =
             Inr (Some (set_header ''Connection'' ''close'' (HttpResponse_ok ''Hello'' ''text/plain'')))"
    by code_simp
  have root: "sfh_document_root sample_handler = ''/srv''" by code_simp
  have "no_symlinks sample_fs (sfh_document_root sample_handler)"
    unfolding root by (auto simp: no_symlinks_def sample_fs_def)
  from serve_no_traversal [OF _ _ this s] root show ?thesis by simp
qed



text \<open>C36: Percent decoding inverts percent encoding: whichever bytes other than the percent and plus
  signs are left as they are, encoding the others as two hexadecimal digits and decoding gives the
  original string back.\<close>

theorem url_decode_roundtrip:
  assumes "\<forall>c. keep c \<longrightarrow> c \<noteq> CHR ''%'' \<and> c \<noteq> CHR ''+''"
  shows "url_decode (percent_encode keep s) = s"
  by (rule url_decode_percent_encode [OF assms])

theorem url_decode_roundtrip_witness:
  "url_decode (percent_encode (\<lambda>c. c = CHR ''a'') ''a b%+/'') = ''a b%+/''"
  by (rule url_decode_roundtrip) simp

end
