(* ===== verification/Metrics.thy ===== *)
theory Metrics
  imports Prelude
begin

text \<open>
  Model of \<open>include/server/metrics.hpp\<close>. The counters are 64-bit words, so every \<open>fetch_add\<close> wraps as
  the hardware does; \<open>active_connections_\<close> is the two's complement pattern of an \<open>int64_t\<close>. Times are
  readings of \<open>steady_clock\<close> in its nanoseconds. An update is one atomic step. \<open>Metrics_connection_opened\<close> is the sequential meaning of the
  compare-exchange loop; \<open>peak_step\<close> models the loop itself, one shared access per step,
  interleaved over any number of threads and with spurious failures of \<open>compare_exchange_weak\<close>.
\<close>

section \<open>Data and operations\<close>

record Metrics =
  start_time :: int
  total_requests :: u64
  successful_requests :: u64
  client_errors :: u64
  server_errors :: u64
  active_connections :: u64
  peak_connections :: u64
  total_bytes_sent :: u64
  m_queue_size :: u64
  m_queue_capacity :: u64
  m_thread_count :: u64
  m_active_workers :: u64
  total_latency_ms :: double
  latency_count :: u64

definition Metrics_init :: "int \<Rightarrow> Metrics" where
  "Metrics_init now =
     \<lparr>start_time = now, total_requests = 0, successful_requests = 0, client_errors = 0,
      server_errors = 0, active_connections = 0, peak_connections = 0, total_bytes_sent = 0,
      m_queue_size = 0, m_queue_capacity = 0, m_thread_count = 0, m_active_workers = 0,
      total_latency_ms = 0, latency_count = 0\<rparr>"

definition record_request :: "Metrics \<Rightarrow> Metrics" where
  "record_request m = m\<lparr>total_requests := total_requests m + 1\<rparr>"

definition record_success :: "Metrics \<Rightarrow> Metrics" where
  "record_success m = m\<lparr>successful_requests := successful_requests m + 1\<rparr>"

definition record_client_error :: "Metrics \<Rightarrow> Metrics" where
  "record_client_error m = m\<lparr>client_errors := client_errors m + 1\<rparr>"

definition record_server_error :: "Metrics \<Rightarrow> Metrics" where
  "record_server_error m = m\<lparr>server_errors := server_errors m + 1\<rparr>"

definition add_bytes_sent :: "u64 \<Rightarrow> Metrics \<Rightarrow> Metrics" where
  "add_bytes_sent bytes m = m\<lparr>total_bytes_sent := total_bytes_sent m + bytes\<rparr>"

definition Metrics_connection_opened :: "Metrics \<Rightarrow> Metrics" where
  "Metrics_connection_opened m =
     (let current = active_connections m + 1;
          peak = peak_connections m
      in m\<lparr>active_connections := current,
           peak_connections := (if current > peak then current else peak)\<rparr>)"

definition connection_closed :: "Metrics \<Rightarrow> Metrics" where
  "connection_closed m = m\<lparr>active_connections := active_connections m - 1\<rparr>"

definition record_latency :: "double_ops \<Rightarrow> double \<Rightarrow> Metrics \<Rightarrow> Metrics" where
  "record_latency dops ms m =
     m\<lparr>total_latency_ms := d_add dops (total_latency_ms m) ms,
       latency_count := latency_count m + 1\<rparr>"

definition set_queue_size :: "u64 \<Rightarrow> Metrics \<Rightarrow> Metrics" where
  "set_queue_size sz m = m\<lparr>m_queue_size := sz\<rparr>"

definition set_queue_capacity :: "u64 \<Rightarrow> Metrics \<Rightarrow> Metrics" where
  "set_queue_capacity cap m = m\<lparr>m_queue_capacity := cap\<rparr>"

definition set_thread_count :: "u64 \<Rightarrow> Metrics \<Rightarrow> Metrics" where
  "set_thread_count n m = m\<lparr>m_thread_count := n\<rparr>"

definition set_active_workers :: "u64 \<Rightarrow> Metrics \<Rightarrow> Metrics" where
  "set_active_workers n m = m\<lparr>m_active_workers := n\<rparr>"

definition u64_str :: "u64 \<Rightarrow> string" where
  "u64_str w = nat_to_string (unat w)"

definition json_line :: "string \<Rightarrow> string \<Rightarrow> string" where
  "json_line key value = ''  '' @ [CHR 0x22] @ key @ [CHR 0x22] @ '': '' @ value"

definition idle_workers_json :: "Metrics \<Rightarrow> u64" where
  "idle_workers_json m =
     (if m_thread_count m > m_active_workers m then m_thread_count m - m_active_workers m else 0)"

text \<open>\<open>duration_cast<seconds>\<close> of a difference in nanoseconds rounds towards zero.\<close>

definition duration_cast_seconds :: "int \<Rightarrow> int" where
  "duration_cast_seconds d = sgn d * (\<bar>d\<bar> div 1000000000)"

definition to_json :: "double_ops \<Rightarrow> int \<Rightarrow> Metrics \<Rightarrow> string" where
  "to_json dops now m =
     (let uptime_secs = duration_cast_seconds (now - start_time m);
          avg_latency =
            (if latency_count m > 0
             then d_div dops (total_latency_ms m) (d_of_int dops (uint (latency_count m))) else 0);
          requests_per_sec =
            (if uptime_secs > 0
             then d_div dops (d_of_int dops (uint (total_requests m))) (d_of_int dops uptime_secs)
             else 0)
      in ''{'' @ [LF] @
         json_line ''total_requests'' (u64_str (total_requests m)) @ '','' @ [LF] @
         json_line ''successful_requests'' (u64_str (successful_requests m)) @ '','' @ [LF] @
         json_line ''client_errors'' (u64_str (client_errors m)) @ '','' @ [LF] @
         json_line ''server_errors'' (u64_str (server_errors m)) @ '','' @ [LF] @
         json_line ''active_connections'' (int_to_string (sint (active_connections m))) @ '','' @ [LF] @
         json_line ''peak_connections'' (u64_str (peak_connections m)) @ '','' @ [LF] @
         json_line ''total_bytes_sent'' (u64_str (total_bytes_sent m)) @ '','' @ [LF] @
         json_line ''average_latency_ms'' (d_show dops avg_latency) @ '','' @ [LF] @
         json_line ''requests_per_second'' (d_show_fixed dops 2 requests_per_sec) @ '','' @ [LF] @
         json_line ''uptime_seconds'' (int_to_string uptime_secs) @ '','' @ [LF] @
         json_line ''worker_threads'' (u64_str (m_thread_count m)) @ '','' @ [LF] @
         json_line ''active_workers'' (u64_str (m_active_workers m)) @ '','' @ [LF] @
         json_line ''idle_workers'' (u64_str (idle_workers_json m)) @ '','' @ [LF] @
         json_line ''queue_size'' (u64_str (m_queue_size m)) @ '','' @ [LF] @
         json_line ''queue_capacity'' (u64_str (m_queue_capacity m)) @ [LF] @ ''}'')"

section \<open>The peak counter under concurrency\<close>

text \<open>
  One program counter per thread that executes \<open>connection_opened\<close>: between calls, after the
  \<open>fetch_add\<close>, and in the loop with the value of \<open>peak\<close> it last saw. \<open>observed\<close> is a ghost
  list of the values that the \<open>fetch_add\<close>s produced.
\<close>

datatype peak_pc = PIdle | PAdded u64 | PLoop u64 u64

record peak_state =
  ps_active :: u64
  ps_peak :: u64
  ps_pc :: "nat \<Rightarrow> peak_pc"
  ps_observed :: "u64 list"

definition peak_init :: peak_state where
  "peak_init = \<lparr>ps_active = 0, ps_peak = 0, ps_pc = (\<lambda>_. PIdle), ps_observed = []\<rparr>"

inductive peak_step :: "peak_state \<Rightarrow> peak_state \<Rightarrow> bool" where
  fetch_add: "ps_pc s t = PIdle \<Longrightarrow>
     peak_step s (s\<lparr>ps_active := ps_active s + 1,
                    ps_pc := (ps_pc s)(t := PAdded (ps_active s + 1)),
                    ps_observed := (ps_active s + 1) # ps_observed s\<rparr>)"
| load: "ps_pc s t = PAdded current \<Longrightarrow>
     peak_step s (s\<lparr>ps_pc := (ps_pc s)(t := PLoop current (ps_peak s))\<rparr>)"
| loop_exit: "ps_pc s t = PLoop current peak \<Longrightarrow> \<not> current > peak \<Longrightarrow>
     peak_step s (s\<lparr>ps_pc := (ps_pc s)(t := PIdle)\<rparr>)"
| cas_success: "ps_pc s t = PLoop current peak \<Longrightarrow> current > peak \<Longrightarrow> ps_peak s = peak \<Longrightarrow>
     peak_step s (s\<lparr>ps_peak := current, ps_pc := (ps_pc s)(t := PIdle)\<rparr>)"
| cas_failure: "ps_pc s t = PLoop current peak \<Longrightarrow> current > peak \<Longrightarrow>
     peak_step s (s\<lparr>ps_pc := (ps_pc s)(t := PLoop current (ps_peak s))\<rparr>)"
| fetch_sub: "peak_step s (s\<lparr>ps_active := ps_active s - 1\<rparr>)"

inductive peak_reachable :: "peak_state \<Rightarrow> bool" where
  start: "peak_reachable peak_init"
| step: "peak_reachable s \<Longrightarrow> peak_step s s' \<Longrightarrow> peak_reachable s'"

definition peak_quiescent :: "peak_state \<Rightarrow> bool" where
  "peak_quiescent s = (\<forall>t. ps_pc s t = PIdle)"

definition in_flight :: "peak_state \<Rightarrow> u64 \<Rightarrow> bool" where
  "in_flight s v = (\<exists>t. ps_pc s t = PAdded v \<or> (\<exists>p. ps_pc s t = PLoop v p))"

definition peak_inv :: "peak_state \<Rightarrow> bool" where
  "peak_inv s =
     (ps_peak s \<in> insert 0 (set (ps_observed s)) \<and>
      (\<forall>v \<in> set (ps_observed s). v \<le> ps_peak s \<or> in_flight s v) \<and>
      (\<forall>t v p. ps_pc s t = PLoop v p \<longrightarrow> p \<le> ps_peak s) \<and>
      (\<forall>v. in_flight s v \<longrightarrow> v \<in> set (ps_observed s)))"

section \<open>Specification: updates as events\<close>

datatype metric_event =
    Ev_request
  | Ev_success
  | Ev_client_error
  | Ev_server_error
  | Ev_bytes u64
  | Ev_opened
  | Ev_closed
  | Ev_latency double
  | Ev_queue_size u64
  | Ev_queue_capacity u64
  | Ev_thread_count u64
  | Ev_active_workers u64

fun apply_event :: "double_ops \<Rightarrow> metric_event \<Rightarrow> Metrics \<Rightarrow> Metrics" where
  "apply_event dops Ev_request m = record_request m"
| "apply_event dops Ev_success m = record_success m"
| "apply_event dops Ev_client_error m = record_client_error m"
| "apply_event dops Ev_server_error m = record_server_error m"
| "apply_event dops (Ev_bytes n) m = add_bytes_sent n m"
| "apply_event dops Ev_opened m = Metrics_connection_opened m"
| "apply_event dops Ev_closed m = connection_closed m"
| "apply_event dops (Ev_latency ms) m = record_latency dops ms m"
| "apply_event dops (Ev_queue_size n) m = set_queue_size n m"
| "apply_event dops (Ev_queue_capacity n) m = set_queue_capacity n m"
| "apply_event dops (Ev_thread_count n) m = set_thread_count n m"
| "apply_event dops (Ev_active_workers n) m = set_active_workers n m"

fun is_latency :: "metric_event \<Rightarrow> bool" where
  "is_latency (Ev_latency ms) = True"
| "is_latency _ = False"

fun bytes_of :: "metric_event \<Rightarrow> u64" where
  "bytes_of (Ev_bytes n) = n"
| "bytes_of _ = 0"

section \<open>Lemmas\<close>

lemmas metric_defs = record_request_def record_success_def record_client_error_def
  record_server_error_def add_bytes_sent_def Metrics_connection_opened_def connection_closed_def
  record_latency_def set_queue_size_def set_queue_capacity_def set_thread_count_def
  set_active_workers_def

lemma connection_opened_peak:
  "peak_connections (Metrics_connection_opened m) = max (peak_connections m) (active_connections m + 1)"
  by (auto simp: Metrics_connection_opened_def Let_def max_def)

lemma in_flight_upd:
  "in_flight (s\<lparr>ps_pc := (ps_pc s)(t := q)\<rparr>) v \<Longrightarrow>
     in_flight s v \<or> q = PAdded v \<or> (\<exists>p. q = PLoop v p)"
  by (auto simp: in_flight_def split: if_splits)

lemma in_flight_other:
  assumes "in_flight s v" "ps_pc s t = PIdle \<or> q = PAdded v \<or> (\<exists>p. q = PLoop v p) \<or>
             (ps_pc s t \<noteq> PAdded v \<and> (\<forall>p. ps_pc s t \<noteq> PLoop v p))"
  shows "in_flight (s\<lparr>ps_pc := (ps_pc s)(t := q)\<rparr>) v"
proof -
  obtain u where u: "ps_pc s u = PAdded v \<or> (\<exists>p. ps_pc s u = PLoop v p)"
    using assms(1) by (auto simp: in_flight_def)
  show ?thesis
  proof (cases "u = t")
    case True
    with u assms(2) have "q = PAdded v \<or> (\<exists>p. q = PLoop v p)" by auto
    then show ?thesis unfolding in_flight_def by (intro exI [of _ t]) simp
  next
    case False
    with u show ?thesis unfolding in_flight_def by (intro exI [of _ u]) simp
  qed
qed

lemma in_flight_cong:
  "in_flight (s\<lparr>ps_active := a\<rparr>) = in_flight s"
  "in_flight (s\<lparr>ps_active := a, ps_pc := f, ps_observed := l\<rparr>) = in_flight (s\<lparr>ps_pc := f\<rparr>)"
  "in_flight (s\<lparr>ps_peak := p, ps_pc := f\<rparr>) = in_flight (s\<lparr>ps_pc := f\<rparr>)"
  by (auto simp: in_flight_def fun_eq_iff)

lemma peak_step_inv: "peak_step s s' \<Longrightarrow> peak_inv s \<Longrightarrow> peak_inv s'"
proof (induction rule: peak_step.induct)
  case (fetch_add s t)
  let ?v = "ps_active s + 1" and ?s = "s\<lparr>ps_pc := (ps_pc s)(t := PAdded (ps_active s + 1))\<rparr>"
  have "in_flight ?s ?v" by (auto simp: in_flight_def)
  moreover have "in_flight s v \<Longrightarrow> in_flight ?s v" for v
    by (rule in_flight_other) (auto simp: fetch_add)
  ultimately show ?case using fetch_add
    by (auto simp: peak_inv_def in_flight_cong dest!: in_flight_upd split: if_splits)
next
  case (load s t current)
  have "in_flight s v \<Longrightarrow> in_flight (s\<lparr>ps_pc := (ps_pc s)(t := PLoop current (ps_peak s))\<rparr>) v" for v
    by (rule in_flight_other) (auto simp: load)
  moreover have "in_flight s current" using load by (auto simp: in_flight_def)
  ultimately show ?case using load
    by (auto simp: peak_inv_def dest!: in_flight_upd)
next
  case (loop_exit s t current peak)
  have "peak \<le> ps_peak s" using loop_exit(1,3) unfolding peak_inv_def by blast
  with loop_exit(2) have "current \<le> ps_peak s" by simp
  moreover have "in_flight s v \<Longrightarrow> v \<noteq> current \<Longrightarrow> in_flight (s\<lparr>ps_pc := (ps_pc s)(t := PIdle)\<rparr>) v" for v
    by (rule in_flight_other) (auto simp: loop_exit)
  ultimately show ?case using loop_exit
    by (auto simp: peak_inv_def dest!: in_flight_upd)
next
  case (cas_success s t current peak)
  let ?s = "s\<lparr>ps_pc := (ps_pc s)(t := PIdle)\<rparr>"
  have le: "ps_peak s \<le> current" using cas_success by simp
  have "in_flight s current" using cas_success(1) by (auto simp: in_flight_def)
  then have cur: "current \<in> set (ps_observed s)" using cas_success(4) by (simp add: peak_inv_def)
  have keep: "in_flight s v \<Longrightarrow> v \<noteq> current \<Longrightarrow> in_flight ?s v" for v
    by (rule in_flight_other) (auto simp: cas_success)
  have "v \<le> current \<or> in_flight ?s v" if "v \<in> set (ps_observed s)" for v
  proof (cases "v \<le> ps_peak s")
    case True
    with le show ?thesis by (meson order_trans)
  next
    case False
    with that cas_success(4) have "in_flight s v" unfolding peak_inv_def by blast
    with keep show ?thesis by (cases "v = current") auto
  qed
  moreover have "p \<le> current" if "ps_pc s u = PLoop v p" for u v p
    using that le cas_success(4) unfolding peak_inv_def by (meson order_trans)
  ultimately show ?case using cas_success(4) cur
    by (auto simp: peak_inv_def in_flight_cong dest!: in_flight_upd)
next
  case (cas_failure s t current peak)
  have "in_flight s v \<Longrightarrow> in_flight (s\<lparr>ps_pc := (ps_pc s)(t := PLoop current (ps_peak s))\<rparr>) v" for v
    by (rule in_flight_other) (auto simp: cas_failure)
  moreover have "in_flight s current" using cas_failure by (auto simp: in_flight_def)
  ultimately show ?case using cas_failure
    by (auto simp: peak_inv_def dest!: in_flight_upd)
next
  case (fetch_sub s)
  then show ?case by (simp add: peak_inv_def in_flight_cong)
qed

lemma peak_reachable_inv: "peak_reachable s \<Longrightarrow> peak_inv s"
proof (induction rule: peak_reachable.induct)
  case start
  show ?case by (simp add: peak_inv_def peak_init_def in_flight_def)
qed (rule peak_step_inv)

subsection \<open>Sequences of updates\<close>

lemma counters_fold:
  "total_requests (fold (apply_event dops) es m) =
     total_requests m + of_nat (count_list es Ev_request) \<and>
   successful_requests (fold (apply_event dops) es m) =
     successful_requests m + of_nat (count_list es Ev_success) \<and>
   client_errors (fold (apply_event dops) es m) =
     client_errors m + of_nat (count_list es Ev_client_error) \<and>
   server_errors (fold (apply_event dops) es m) =
     server_errors m + of_nat (count_list es Ev_server_error) \<and>
   total_bytes_sent (fold (apply_event dops) es m) =
     total_bytes_sent m + sum_list (map bytes_of es) \<and>
   active_connections (fold (apply_event dops) es m) =
     active_connections m + of_nat (count_list es Ev_opened) - of_nat (count_list es Ev_closed) \<and>
   latency_count (fold (apply_event dops) es m) =
     latency_count m + of_nat (length (filter is_latency es))"
proof (induction es arbitrary: m)
  case (Cons e es)
  show ?case
    unfolding fold_simps comp_apply count_list.simps list.map sum_list.Cons
    using Cons [of "apply_event dops e m"]
    by (cases e) (simp_all add: metric_defs Let_def algebra_simps)
qed simp

section \<open>Properties\<close>

text \<open>C30: The lock-free peak is exact. Whatever the interleaving of the threads and however often the
  compare-exchange fails, whenever no \<open>connection_opened\<close> is in progress the peak counter is the
  largest number of connections that any \<open>fetch_add\<close> produced (0 before the first one).\<close>

theorem peak_is_maximum:
  assumes "peak_reachable s" "peak_quiescent s"
  shows "ps_peak s = Max (insert 0 (set (ps_observed s)))"
proof (rule Max_eqI [symmetric])
  have inv: "peak_inv s" by (rule peak_reachable_inv [OF assms(1)])
  then show "ps_peak s \<in> insert 0 (set (ps_observed s))" by (simp add: peak_inv_def)
  fix v assume "v \<in> insert 0 (set (ps_observed s))"
  moreover have "\<not> in_flight s v" using assms(2) by (simp add: in_flight_def peak_quiescent_def)
  ultimately show "v \<le> ps_peak s" using inv by (auto simp: peak_inv_def)
qed simp

theorem peak_is_maximum_witness:
  "\<exists>s. peak_reachable s \<and> peak_quiescent s \<and> ps_peak s = Max (insert 0 {1}) \<and> ps_observed s = [1]"
proof -
  let ?s1 = "peak_init\<lparr>ps_active := 1, ps_pc := (\<lambda>_. PIdle)(0 := PAdded 1), ps_observed := [1]\<rparr>"
  let ?s2 = "?s1\<lparr>ps_pc := (\<lambda>_. PIdle)(0 := PLoop 1 0)\<rparr>"
  let ?s3 = "?s2\<lparr>ps_peak := 1, ps_pc := (\<lambda>_. PIdle)\<rparr>"
  have "peak_reachable ?s1"
    using peak_reachable.step [OF peak_reachable.start peak_step.fetch_add [of peak_init 0]]
    by (simp add: peak_init_def)
  from peak_reachable.step [OF this peak_step.load [of ?s1 0 1]]
  have "peak_reachable ?s2" by (simp add: peak_init_def)
  from peak_reachable.step [OF this peak_step.cas_success [of ?s2 0 1 0]]
  have r: "peak_reachable ?s3" by (simp add: peak_init_def fun_upd_idem)
  have q: "peak_quiescent ?s3" by (simp add: peak_quiescent_def)
  from peak_is_maximum [OF r q] r q show ?thesis by (intro exI [of _ ?s3]) (simp add: peak_init_def)
qed

end
