(* ===== verification/BlockingQueue.thy ===== *)
theory BlockingQueue
  imports Prelude
begin

text \<open>
  Model of \<open>include/server/blocking_queue.hpp\<close>. Every operation holds the mutex for its whole body,
  so each is one atomic function on the record of the protected fields. An operation also returns
  the notification it sends on the condition variable, since the users of the queue depend on it.
  \<open>wait_and_pop\<close> returns \<open>None\<close> when its wait predicate is false, that is, when the calling thread
  goes to sleep; otherwise it returns what the body after the wait does.

  The locale \<open>bounded_queue\<close> is the contract of the queue. Its client lemmas (the bound, FIFO order)
  are proved once from the laws and hold for the model by the interpretation \<open>bq\<close>.
\<close>

section \<open>Data and operations\<close>

datatype notify = No_notify | Notify_one | Notify_all

record 'a BoundedBlockingQueue =
  q_items :: "'a list"
  q_capacity :: nat
  q_shutdown :: bool

definition BoundedBlockingQueue_make :: "nat \<Rightarrow> 'a BoundedBlockingQueue" where
  "BoundedBlockingQueue_make cap = \<lparr>q_items = [], q_capacity = cap, q_shutdown = False\<rparr>"

definition push :: "'a \<Rightarrow> 'a BoundedBlockingQueue \<Rightarrow> bool \<times> notify \<times> 'a BoundedBlockingQueue" where
  "push item q =
     (if length (q_items q) \<ge> q_capacity q then (False, No_notify, q)
      else (True, Notify_one, q\<lparr>q_items := q_items q @ [item]\<rparr>))"

definition wait_predicate :: "'a BoundedBlockingQueue \<Rightarrow> bool" where
  "wait_predicate q = (q_items q \<noteq> [] \<or> q_shutdown q)"

definition wait_and_pop ::
    "'a BoundedBlockingQueue \<Rightarrow> ('a option \<times> notify \<times> 'a BoundedBlockingQueue) option" where
  "wait_and_pop q =
     (if \<not> wait_predicate q then None
      else if q_shutdown q \<and> q_items q = [] then Some (None, No_notify, q)
      else Some (Some (hd (q_items q)), Notify_one, q\<lparr>q_items := tl (q_items q)\<rparr>))"

definition try_pop :: "'a BoundedBlockingQueue \<Rightarrow> 'a option \<times> notify \<times> 'a BoundedBlockingQueue" where
  "try_pop q =
     (if q_items q = [] then (None, No_notify, q)
      else (Some (hd (q_items q)), Notify_one, q\<lparr>q_items := tl (q_items q)\<rparr>))"

definition queue_shutdown :: "'a BoundedBlockingQueue \<Rightarrow> notify \<times> 'a BoundedBlockingQueue" where
  "queue_shutdown q = (Notify_all, q\<lparr>q_shutdown := True\<rparr>)"

definition queue_empty :: "'a BoundedBlockingQueue \<Rightarrow> bool" where
  "queue_empty q = (q_items q = [])"

definition queue_size :: "'a BoundedBlockingQueue \<Rightarrow> nat" where
  "queue_size q = length (q_items q)"

definition queue_capacity :: "'a BoundedBlockingQueue \<Rightarrow> nat" where
  "queue_capacity q = q_capacity q"

definition is_full :: "'a BoundedBlockingQueue \<Rightarrow> bool" where
  "is_full q = (length (q_items q) \<ge> q_capacity q)"

section \<open>Specification: runs of queue operations\<close>

datatype 'a queue_op = Op_push 'a | Op_pop | Op_close

text \<open>A run collects the items that were accepted and the items that were handed out, in order;
  a pop that would sleep leaves the queue as it is.\<close>

fun run_ops ::
    "('a \<Rightarrow> 'q \<Rightarrow> bool \<times> notify \<times> 'q) \<Rightarrow> ('q \<Rightarrow> ('a option \<times> notify \<times> 'q) option) \<Rightarrow>
     ('q \<Rightarrow> notify \<times> 'q) \<Rightarrow> 'a queue_op list \<Rightarrow> 'q \<Rightarrow> 'a list \<times> 'a list \<times> 'q" where
  "run_ops psh pop cls [] q = ([], [], q)"
| "run_ops psh pop cls (Op_push x # ops) q =
     (case psh x q of (b, _, q') \<Rightarrow>
        (case run_ops psh pop cls ops q' of (acc, out, q'') \<Rightarrow>
           ((if b then x # acc else acc), out, q'')))"
| "run_ops psh pop cls (Op_pop # ops) q =
     (case pop q of
        None \<Rightarrow> run_ops psh pop cls ops q
      | Some (r, _, q') \<Rightarrow>
          (case run_ops psh pop cls ops q' of (acc, out, q'') \<Rightarrow>
             (acc, (case r of None \<Rightarrow> out | Some x \<Rightarrow> x # out), q'')))"
| "run_ops psh pop cls (Op_close # ops) q = run_ops psh pop cls ops (snd (cls q))"

section \<open>The contract\<close>

locale bounded_queue =
  fixes items :: "'q \<Rightarrow> 'a list"
    and cap :: "'q \<Rightarrow> nat"
    and closed :: "'q \<Rightarrow> bool"
    and psh :: "'a \<Rightarrow> 'q \<Rightarrow> bool \<times> notify \<times> 'q"
    and pop :: "'q \<Rightarrow> ('a option \<times> notify \<times> 'q) option"
    and cls :: "'q \<Rightarrow> notify \<times> 'q"
  assumes psh_full: "cap q \<le> length (items q) \<Longrightarrow> psh x q = (False, No_notify, q)"
    and psh_room: "length (items q) < cap q \<Longrightarrow>
          \<exists>q'. psh x q = (True, Notify_one, q') \<and> items q' = items q @ [x] \<and> cap q' = cap q \<and>
               closed q' = closed q"
    and pop_sleeps: "items q = [] \<Longrightarrow> \<not> closed q \<Longrightarrow> pop q = None"
    and pop_ends: "items q = [] \<Longrightarrow> closed q \<Longrightarrow> pop q = Some (None, No_notify, q)"
    and pop_item: "items q = x # xs \<Longrightarrow>
          \<exists>q'. pop q = Some (Some x, Notify_one, q') \<and> items q' = xs \<and> cap q' = cap q \<and>
               closed q' = closed q"
    and cls_closes: "\<exists>q'. cls q = (Notify_all, q') \<and> items q' = items q \<and> cap q' = cap q \<and> closed q'"
begin

lemma psh_cases:
  assumes "psh x q = (b, n, q')"
  shows "cap q' = cap q \<and> closed q' = closed q \<and>
         (if b then n = Notify_one \<and> length (items q) < cap q \<and> items q' = items q @ [x]
          else n = No_notify \<and> cap q \<le> length (items q) \<and> q' = q)"
  using assms psh_full [of q x] psh_room [of q x] by (cases "length (items q) < cap q") auto

lemma pop_cases:
  assumes "pop q = Some (r, n, q')"
  shows "cap q' = cap q \<and> closed q' = closed q \<and>
         (case r of
            None \<Rightarrow> n = No_notify \<and> q' = q \<and> items q = [] \<and> closed q
          | Some x \<Rightarrow> n = Notify_one \<and> items q = x # items q')"
proof (cases "items q")
  case Nil
  with assms pop_sleeps pop_ends show ?thesis by (cases "closed q") auto
next
  case (Cons x xs)
  with assms pop_item show ?thesis by fastforce
qed

lemma pop_None_iff: "pop q = None \<longleftrightarrow> items q = [] \<and> \<not> closed q"
  using pop_sleeps pop_ends pop_item by (cases "items q") fastforce+

lemma psh_bound: "length (items q) \<le> cap q \<Longrightarrow> psh x q = (b, n, q') \<Longrightarrow> length (items q') \<le> cap q'"
  using psh_cases [of x q b n q'] by (auto split: if_splits)

lemma pop_bound: "length (items q) \<le> cap q \<Longrightarrow> pop q = Some (r, n, q') \<Longrightarrow> length (items q') \<le> cap q'"
  using pop_cases [of q r n q'] by (auto split: option.splits)

lemma run_fifo:
  "run_ops psh pop cls ops q = (acc, out, q') \<Longrightarrow> items q @ acc = out @ items q'"
proof (induction ops arbitrary: q acc out)
  case (Cons op ops)
  show ?case
  proof (cases op)
    case (Op_push x)
    obtain b n q1 where p: "psh x q = (b, n, q1)" by (cases "psh x q")
    obtain acc1 where r: "run_ops psh pop cls ops q1 = (acc1, out, q')"
      "acc = (if b then x # acc1 else acc1)"
      using Cons.prems Op_push p by (auto split: prod.splits)
    from psh_cases [OF p] Cons.IH [OF r(1)] r(2) show ?thesis by (auto split: if_splits)
  next
    case Op_pop
    show ?thesis
    proof (cases "pop q")
      case None
      with Cons Op_pop show ?thesis by simp
    next
      case (Some rnq)
      obtain r n q1 where p: "pop q = Some (r, n, q1)" using Some by (cases rnq) auto
      obtain out1 where o: "run_ops psh pop cls ops q1 = (acc, out1, q')"
        "out = (case r of None \<Rightarrow> out1 | Some x \<Rightarrow> x # out1)"
        using Cons.prems Op_pop p by (auto split: prod.splits)
      from pop_cases [OF p] Cons.IH [OF o(1)] o(2) show ?thesis by (auto split: option.splits)
    qed
  next
    case Op_close
    obtain q1 where "cls q = (Notify_all, q1)" "items q1 = items q" using cls_closes by blast
    with Cons.prems Cons.IH [of q1 acc out] Op_close show ?thesis by simp
  qed
qed simp

lemma run_bound:
  "run_ops psh pop cls ops q = (acc, out, q') \<Longrightarrow> length (items q) \<le> cap q \<Longrightarrow>
     length (items q') \<le> cap q' \<and> cap q' = cap q"
proof (induction ops arbitrary: q acc out)
  case (Cons op ops)
  show ?case
  proof (cases op)
    case (Op_push x)
    obtain b n q1 where p: "psh x q = (b, n, q1)" by (cases "psh x q")
    with Cons Op_push psh_bound [OF _ p] psh_cases [OF p] show ?thesis
      by (fastforce split: prod.splits)
  next
    case Op_pop
    show ?thesis
    proof (cases "pop q")
      case None
      with Cons.prems Cons.IH [of q acc out] Op_pop show ?thesis by simp
    next
      case (Some rnq)
      obtain r n q1 where p: "pop q = Some (r, n, q1)" using Some by (cases rnq) auto
      with Cons Op_pop pop_bound [OF _ p] pop_cases [OF p] show ?thesis
        by (fastforce split: prod.splits)
    qed
  next
    case Op_close
    obtain q1 where "cls q = (Notify_all, q1)" "items q1 = items q" "cap q1 = cap q"
      using cls_closes by blast
    with Cons.prems Cons.IH [of q1 acc out] Op_close show ?thesis by simp
  qed
qed simp

end

interpretation bq: bounded_queue q_items q_capacity q_shutdown push wait_and_pop queue_shutdown
  by unfold_locales
     (auto simp: push_def wait_and_pop_def wait_predicate_def queue_shutdown_def)

section \<open>Properties\<close>

text \<open>C17: FIFO and loss-free. Over any run of pushes, pops and shutdowns, what was in the queue
  followed by what was accepted is exactly what was handed out followed by what is still queued, in
  this order, and the number of queued items never exceeds the capacity.\<close>

theorem queue_fifo_bounded:
  assumes "run_ops push wait_and_pop queue_shutdown ops (BoundedBlockingQueue_make cap) = (accepted, handed_out, q)"
  shows "accepted = handed_out @ q_items q \<and> queue_size q \<le> cap"
proof -
  let ?q0 = "BoundedBlockingQueue_make cap :: 'a BoundedBlockingQueue"
  have q0: "q_items ?q0 = []" "q_capacity ?q0 = cap" by (simp_all add: BoundedBlockingQueue_make_def)
  from bq.run_fifo [OF assms] bq.run_bound [OF assms] q0 show ?thesis by (simp add: queue_size_def)
qed

theorem queue_fifo_bounded_witness:
  "[1, 2] = [1] @ q_items \<lparr>q_items = [2::nat], q_capacity = 2, q_shutdown = True\<rparr> \<and>
   queue_size \<lparr>q_items = [2::nat], q_capacity = 2, q_shutdown = True\<rparr> \<le> 2"
  by (rule queue_fifo_bounded [where ops = "[Op_push 1, Op_push 2, Op_push 3, Op_pop, Op_close]"]) code_simp

text \<open>Backpressure and shutdown. A push is refused exactly when the queue is full and then
  changes nothing and wakes nobody; a pop never fails on a non-empty queue, even after shutdown, and
  reports the end exactly when the queue is shut down and drained; it sleeps exactly when the queue
  is empty and open.\<close>

lemma queue_backpressure_and_drain:
  "(fst (push x q) = (\<not> is_full q)) \<and>
   (is_full q \<longrightarrow> push x q = (False, No_notify, q)) \<and>
   (wait_and_pop q = None \<longleftrightarrow> queue_empty q \<and> \<not> q_shutdown q) \<and>
   (wait_and_pop q = Some (None, No_notify, q) \<longleftrightarrow> queue_empty q \<and> q_shutdown q) \<and>
   (\<not> queue_empty q \<longrightarrow> wait_and_pop q = Some (try_pop q))"
  by (auto simp: push_def is_full_def wait_and_pop_def wait_predicate_def queue_empty_def try_pop_def)

end
