(* ===== verification/ThreadPool.thy ===== *)
theory ThreadPool
  imports BlockingQueue
begin

text \<open>
  Model of \<open>include/server/thread_pool.hpp\<close> as a system of interleaved steps. A step is one access
  to shared state: a queue operation (atomic, since it holds the mutex), one access to an atomic, the
  run of a task, or a delivery of a condition variable notification. Each worker executes
  \<open>worker_loop\<close>; any number of threads call \<open>submit\<close> (a check of \<open>stopped_\<close>, then a push, so
  a shutdown may happen in between); one thread calls \<open>shutdown\<close>. \<open>notify_one\<close> wakes an arbitrary
  sleeping worker, and wake-ups may be spurious.

  The parameter \<open>excl\<close> of \<open>pool_step\<close> says that the caller does not run \<open>shutdown\<close> concurrently with
  \<open>submit\<close> (as in \<open>TcpServer::start\<close>, where one thread does both). The field
  \<open>tp_submitters\<close> holds the tasks of the \<open>submit\<close> calls that have passed the check of \<open>stopped_\<close> and
  have not pushed yet, \<open>tp_shutdown\<close> the progress of \<open>shutdown\<close>. The last three fields are ghosts:
  the tasks accepted by \<open>submit\<close>, handed to workers, and completed, in order.
\<close>

section \<open>Data and operations\<close>

datatype 'a worker_pc =
    W_idle          \<comment> \<open>about to lock the queue in \<open>wait_and_pop\<close>\<close>
  | W_blocked       \<comment> \<open>asleep in \<open>cv_.wait\<close>\<close>
  | W_woken         \<comment> \<open>notified, about to re-evaluate the predicate\<close>
  | W_got 'a        \<comment> \<open>has a task, before \<open>active_workers_.fetch_add\<close>\<close>
  | W_running 'a    \<comment> \<open>in the task\<close>
  | W_finished      \<comment> \<open>after the task, before \<open>active_workers_.fetch_sub\<close>\<close>
  | W_exited        \<comment> \<open>left the loop\<close>

datatype shutdown_pc = S_not_called | S_stopped | S_flagged | S_joining | S_joined

record 'a ThreadPool =
  tp_queue :: "'a BoundedBlockingQueue"
  tp_queue_capacity :: nat
  tp_stopped :: bool
  tp_active_workers :: nat
  tp_workers :: "'a worker_pc list"
  tp_submitters :: "'a list"
  tp_shutdown :: shutdown_pc
  tp_accepted :: "'a list"
  tp_popped :: "'a list"
  tp_executed :: "'a list"

definition ThreadPool_make :: "nat \<Rightarrow> nat \<Rightarrow> 'a ThreadPool" where
  "ThreadPool_make num_threads cap =
     \<lparr>tp_queue = BoundedBlockingQueue_make cap, tp_queue_capacity = cap, tp_stopped = False,
      tp_active_workers = 0,
      tp_workers = replicate (if num_threads = 0 then 2 else num_threads) W_idle,
      tp_submitters = [], tp_shutdown = S_not_called,
      tp_accepted = [], tp_popped = [], tp_executed = []\<rparr>"

definition pool_submit :: "'a \<Rightarrow> 'a ThreadPool \<Rightarrow> bool \<times> notify \<times> 'a ThreadPool" where
  "pool_submit task p =
     (if tp_stopped p then (False, No_notify, p)
      else case push task (tp_queue p) of (b, n, q) \<Rightarrow>
             (b, n, p\<lparr>tp_queue := q,
                      tp_accepted := (if b then tp_accepted p @ [task] else tp_accepted p)\<rparr>))"

definition pool_queue_size :: "'a ThreadPool \<Rightarrow> nat" where
  "pool_queue_size p = queue_size (tp_queue p)"

definition pool_queue_capacity :: "'a ThreadPool \<Rightarrow> nat" where
  "pool_queue_capacity p = tp_queue_capacity p"

definition thread_count :: "'a ThreadPool \<Rightarrow> nat" where
  "thread_count p = length (tp_workers p)"

definition active_workers :: "'a ThreadPool \<Rightarrow> nat" where
  "active_workers p = tp_active_workers p"

definition idle_workers :: "'a ThreadPool \<Rightarrow> nat" where
  "idle_workers p = size_sub (thread_count p) (active_workers p)"

definition is_queue_full :: "'a ThreadPool \<Rightarrow> bool" where
  "is_queue_full p = is_full (tp_queue p)"

definition wake :: "'a worker_pc \<Rightarrow> 'a worker_pc" where
  "wake w = (case w of W_blocked \<Rightarrow> W_woken | _ \<Rightarrow> w)"

inductive notified :: "notify \<Rightarrow> 'a worker_pc list \<Rightarrow> 'a worker_pc list \<Rightarrow> bool" where
  none: "notified No_notify ws ws"
| one_nobody: "W_blocked \<notin> set ws \<Longrightarrow> notified Notify_one ws ws"
| one: "j < length ws \<Longrightarrow> ws ! j = W_blocked \<Longrightarrow> notified Notify_one ws (ws[j := W_woken])"
| all: "notified Notify_all ws (map wake ws)"

definition at_queue :: "'a worker_pc \<Rightarrow> bool" where
  "at_queue w = (w = W_idle \<or> w = W_woken)"

inductive pool_step :: "bool \<Rightarrow> 'a ThreadPool \<Rightarrow> 'a ThreadPool \<Rightarrow> bool" for excl where
  worker_take: "i < length (tp_workers p) \<Longrightarrow> at_queue (tp_workers p ! i) \<Longrightarrow>
     wait_and_pop (tp_queue p) = Some (Some t, n, q) \<Longrightarrow>
     notified n ((tp_workers p)[i := W_got t]) ws \<Longrightarrow>
     pool_step excl p (p\<lparr>tp_queue := q, tp_workers := ws, tp_popped := tp_popped p @ [t]\<rparr>)"
| worker_exit: "i < length (tp_workers p) \<Longrightarrow> at_queue (tp_workers p ! i) \<Longrightarrow>
     wait_and_pop (tp_queue p) = Some (None, n, q) \<Longrightarrow>
     pool_step excl p (p\<lparr>tp_workers := (tp_workers p)[i := W_exited]\<rparr>)"
| worker_block: "i < length (tp_workers p) \<Longrightarrow> at_queue (tp_workers p ! i) \<Longrightarrow>
     wait_and_pop (tp_queue p) = None \<Longrightarrow>
     pool_step excl p (p\<lparr>tp_workers := (tp_workers p)[i := W_blocked]\<rparr>)"
| spurious: "i < length (tp_workers p) \<Longrightarrow> tp_workers p ! i = W_blocked \<Longrightarrow>
     pool_step excl p (p\<lparr>tp_workers := (tp_workers p)[i := W_woken]\<rparr>)"
| active_inc: "i < length (tp_workers p) \<Longrightarrow> tp_workers p ! i = W_got t \<Longrightarrow>
     pool_step excl p (p\<lparr>tp_workers := (tp_workers p)[i := W_running t],
                         tp_active_workers := tp_active_workers p + 1\<rparr>)"
| run_task: "i < length (tp_workers p) \<Longrightarrow> tp_workers p ! i = W_running t \<Longrightarrow>
     pool_step excl p (p\<lparr>tp_workers := (tp_workers p)[i := W_finished],
                         tp_executed := tp_executed p @ [t]\<rparr>)"
| active_dec: "i < length (tp_workers p) \<Longrightarrow> tp_workers p ! i = W_finished \<Longrightarrow>
     pool_step excl p (p\<lparr>tp_workers := (tp_workers p)[i := W_idle],
                         tp_active_workers := tp_active_workers p - 1\<rparr>)"
| submit_check: "\<not> tp_stopped p \<Longrightarrow>
     pool_step excl p (p\<lparr>tp_submitters := tp_submitters p @ [t]\<rparr>)"
| submit_push: "tp_submitters p = xs @ t # ys \<Longrightarrow> push t (tp_queue p) = (b, n, q) \<Longrightarrow>
     notified n (tp_workers p) ws \<Longrightarrow>
     pool_step excl p (p\<lparr>tp_submitters := xs @ ys, tp_queue := q,
                         tp_workers := ws,
                         tp_accepted := (if b then tp_accepted p @ [t] else tp_accepted p)\<rparr>)"
| shutdown_cas: "\<not> tp_stopped p \<Longrightarrow> (excl \<Longrightarrow> tp_submitters p = []) \<Longrightarrow>
     pool_step excl p (p\<lparr>tp_stopped := True, tp_shutdown := S_stopped\<rparr>)"
| shutdown_flag: "tp_shutdown p = S_stopped \<Longrightarrow> queue_shutdown (tp_queue p) = (n, q) \<Longrightarrow>
     pool_step excl p (p\<lparr>tp_queue := q, tp_shutdown := S_flagged\<rparr>)"
| shutdown_notify: "tp_shutdown p = S_flagged \<Longrightarrow> queue_shutdown (tp_queue p) = (n, q) \<Longrightarrow>
     notified n (tp_workers p) ws \<Longrightarrow>
     pool_step excl p (p\<lparr>tp_workers := ws, tp_shutdown := S_joining\<rparr>)"
| shutdown_join: "tp_shutdown p = S_joining \<Longrightarrow> list_all (\<lambda>w. w = W_exited) (tp_workers p) \<Longrightarrow>
     pool_step excl p (p\<lparr>tp_shutdown := S_joined\<rparr>)"

inductive pool_reachable :: "bool \<Rightarrow> nat \<Rightarrow> nat \<Rightarrow> 'a ThreadPool \<Rightarrow> bool" for excl n cap where
  start: "pool_reachable excl n cap (ThreadPool_make n cap)"
| step: "pool_reachable excl n cap p \<Longrightarrow> pool_step excl p p' \<Longrightarrow> pool_reachable excl n cap p'"

text \<open>
  An executable scheduler: each event picks the thread that moves, \<open>notify_one\<close> wakes the first
  sleeping worker. Its runs are runs of \<open>pool_step\<close> (\<open>pool_run_reachable\<close> below), so concrete
  schedules can be evaluated.
\<close>

datatype 'a pool_event =
  Ev_worker nat | Ev_spurious nat | Ev_check 'a | Ev_push nat | Ev_shutdown

fun wake_first :: "'a worker_pc list \<Rightarrow> 'a worker_pc list" where
  "wake_first [] = []"
| "wake_first (W_blocked # ws) = W_woken # ws"
| "wake_first (w # ws) = w # wake_first ws"

fun deliver :: "notify \<Rightarrow> 'a worker_pc list \<Rightarrow> 'a worker_pc list" where
  "deliver No_notify ws = ws"
| "deliver Notify_one ws = wake_first ws"
| "deliver Notify_all ws = map wake ws"

definition queue_turn :: "nat \<Rightarrow> 'a ThreadPool \<Rightarrow> 'a ThreadPool" where
  "queue_turn i p =
     (case wait_and_pop (tp_queue p) of
        None \<Rightarrow> p\<lparr>tp_workers := (tp_workers p)[i := W_blocked]\<rparr>
      | Some (None, n, q) \<Rightarrow> p\<lparr>tp_workers := (tp_workers p)[i := W_exited]\<rparr>
      | Some (Some t, n, q) \<Rightarrow>
          p\<lparr>tp_queue := q, tp_workers := deliver n ((tp_workers p)[i := W_got t]),
            tp_popped := tp_popped p @ [t]\<rparr>)"

definition worker_turn :: "nat \<Rightarrow> 'a ThreadPool \<Rightarrow> 'a ThreadPool option" where
  "worker_turn i p =
     (if length (tp_workers p) \<le> i then None
      else case tp_workers p ! i of
        W_idle \<Rightarrow> Some (queue_turn i p)
      | W_woken \<Rightarrow> Some (queue_turn i p)
      | W_got t \<Rightarrow> Some (p\<lparr>tp_workers := (tp_workers p)[i := W_running t],
                            tp_active_workers := tp_active_workers p + 1\<rparr>)
      | W_running t \<Rightarrow> Some (p\<lparr>tp_workers := (tp_workers p)[i := W_finished],
                                tp_executed := tp_executed p @ [t]\<rparr>)
      | W_finished \<Rightarrow> Some (p\<lparr>tp_workers := (tp_workers p)[i := W_idle],
                               tp_active_workers := tp_active_workers p - 1\<rparr>)
      | _ \<Rightarrow> None)"

definition shutdown_turn :: "bool \<Rightarrow> 'a ThreadPool \<Rightarrow> 'a ThreadPool option" where
  "shutdown_turn excl p =
     (case tp_shutdown p of
        S_not_called \<Rightarrow>
          (if tp_stopped p \<or> excl \<and> 0 < length (tp_submitters p) then None
           else Some (p\<lparr>tp_stopped := True, tp_shutdown := S_stopped\<rparr>))
      | S_stopped \<Rightarrow> Some (p\<lparr>tp_queue := snd (queue_shutdown (tp_queue p)), tp_shutdown := S_flagged\<rparr>)
      | S_flagged \<Rightarrow> Some (p\<lparr>tp_workers := deliver (fst (queue_shutdown (tp_queue p))) (tp_workers p),
                              tp_shutdown := S_joining\<rparr>)
      | S_joining \<Rightarrow>
          (if list_all (\<lambda>w. case w of W_exited \<Rightarrow> True | _ \<Rightarrow> False) (tp_workers p)
           then Some (p\<lparr>tp_shutdown := S_joined\<rparr>) else None)
      | S_joined \<Rightarrow> None)"

fun pool_do :: "bool \<Rightarrow> 'a pool_event \<Rightarrow> 'a ThreadPool \<Rightarrow> 'a ThreadPool option" where
  "pool_do excl (Ev_worker i) p = worker_turn i p"
| "pool_do excl (Ev_spurious i) p =
     (if i < length (tp_workers p) \<and> (case tp_workers p ! i of W_blocked \<Rightarrow> True | _ \<Rightarrow> False)
      then Some (p\<lparr>tp_workers := (tp_workers p)[i := W_woken]\<rparr>) else None)"
| "pool_do excl (Ev_check t) p =
     (if tp_stopped p then None else Some (p\<lparr>tp_submitters := tp_submitters p @ [t]\<rparr>))"
| "pool_do excl (Ev_push j) p =
     (if j < length (tp_submitters p)
      then case push (tp_submitters p ! j) (tp_queue p) of (b, n, q) \<Rightarrow>
             Some (p\<lparr>tp_submitters := take j (tp_submitters p) @ drop (Suc j) (tp_submitters p),
                     tp_queue := q, tp_workers := deliver n (tp_workers p),
                     tp_accepted := (if b then tp_accepted p @ [tp_submitters p ! j]
                                     else tp_accepted p)\<rparr>)
      else None)"
| "pool_do excl Ev_shutdown p = shutdown_turn excl p"

fun pool_run :: "bool \<Rightarrow> 'a pool_event list \<Rightarrow> 'a ThreadPool \<Rightarrow> 'a ThreadPool option" where
  "pool_run excl [] p = Some p"
| "pool_run excl (e # es) p =
     (case pool_do excl e p of None \<Rightarrow> None | Some p' \<Rightarrow> pool_run excl es p')"

section \<open>Invariants\<close>

fun held :: "'a worker_pc \<Rightarrow> 'a list" where
  "held (W_got t) = [t]"
| "held (W_running t) = [t]"
| "held _ = []"

fun counted :: "'a worker_pc \<Rightarrow> bool" where
  "counted (W_running t) = True"
| "counted W_finished = True"
| "counted _ = False"

definition held_tasks :: "'a worker_pc list \<Rightarrow> 'a list" where
  "held_tasks ws = concat (map held ws)"

definition count_if :: "('a \<Rightarrow> bool) \<Rightarrow> 'a list \<Rightarrow> nat" where
  "count_if P xs = length (filter P xs)"

definition data_inv :: "'a ThreadPool \<Rightarrow> bool" where
  "data_inv p =
     (length (q_items (tp_queue p)) \<le> q_capacity (tp_queue p) \<and>
      q_capacity (tp_queue p) = tp_queue_capacity p \<and>
      tp_accepted p = tp_popped p @ q_items (tp_queue p) \<and>
      mset (tp_popped p) = mset (tp_executed p) + mset (held_tasks (tp_workers p)) \<and>
      tp_active_workers p = count_if counted (tp_workers p))"

definition wake_inv :: "'a ThreadPool \<Rightarrow> bool" where
  "wake_inv p =
     (W_blocked \<in> set (tp_workers p) \<longrightarrow>
        length (q_items (tp_queue p)) \<le> count_if at_queue (tp_workers p))"

definition shutdown_inv :: "'a ThreadPool \<Rightarrow> bool" where
  "shutdown_inv p =
     (q_shutdown (tp_queue p) = (tp_shutdown p \<in> {S_flagged, S_joining, S_joined}) \<and>
      tp_stopped p = (tp_shutdown p \<noteq> S_not_called) \<and>
      (tp_shutdown p \<in> {S_joining, S_joined} \<longrightarrow> W_blocked \<notin> set (tp_workers p)) \<and>
      (W_exited \<in> set (tp_workers p) \<longrightarrow> q_shutdown (tp_queue p)) \<and>
      (tp_shutdown p = S_joined \<longrightarrow> list_all (\<lambda>w. w = W_exited) (tp_workers p)))"

definition drain_inv :: "'a ThreadPool \<Rightarrow> bool" where
  "drain_inv p =
     ((tp_stopped p \<longrightarrow> tp_submitters p = []) \<and>
      (W_exited \<in> set (tp_workers p) \<longrightarrow> q_items (tp_queue p) = []))"

section \<open>Lemmas\<close>

subsection \<open>Counting over worker lists\<close>

lemma count_if_update:
  "i < length ws \<Longrightarrow>
     count_if P (ws[i := x]) + of_bool (P (ws ! i)) = count_if P ws + of_bool (P x)"
proof (induction ws arbitrary: i)
  case (Cons w ws)
  then show ?case by (cases i) (auto simp: count_if_def)
qed simp

lemma held_tasks_update:
  "i < length ws \<Longrightarrow>
     mset (held_tasks (ws[i := x])) + mset (held (ws ! i)) = mset (held_tasks ws) + mset (held x)"
proof (induction ws arbitrary: i)
  case (Cons w ws)
  then show ?case by (cases i) (auto simp: held_tasks_def ac_simps)
qed simp

lemma count_if_wake:
  "P W_blocked = P W_woken \<Longrightarrow> count_if P (map wake ws) = count_if P ws"
  by (induction ws) (auto simp: count_if_def wake_def split: worker_pc.splits)

lemma notified_count:
  assumes "notified n ws ws'" "P W_blocked = P W_woken"
  shows "count_if P ws' = count_if P ws"
  using assms
proof (cases rule: notified.cases)
  case (one j)
  with assms(2) count_if_update [of j ws P W_woken] show ?thesis by simp
qed (simp_all add: count_if_wake)

lemma notified_held:
  assumes "notified n ws ws'"
  shows "mset (held_tasks ws') = mset (held_tasks ws)"
  using assms
proof (cases rule: notified.cases)
  case (one j)
  with held_tasks_update [of j ws W_woken] show ?thesis by simp
next
  case all
  have "held (wake w) = held w" for w :: "'a worker_pc" by (cases w) (simp_all add: wake_def)
  then show ?thesis by (simp add: all held_tasks_def comp_def)
qed simp_all

lemma notified_available:
  assumes "notified n ws ws'"
  shows "count_if at_queue ws \<le> count_if at_queue ws'"
  using assms
proof (cases rule: notified.cases)
  case (one j)
  with count_if_update [of j ws at_queue W_woken] show ?thesis by (simp add: at_queue_def)
next
  case all
  have "count_if at_queue ws \<le> count_if at_queue (map wake ws)"
    by (induction ws) (auto simp: count_if_def wake_def at_queue_def split: worker_pc.splits)
  then show ?thesis by (simp add: all)
qed simp_all

lemma notified_one_available:
  assumes "notified Notify_one ws ws'" "W_blocked \<in> set ws'"
  shows "count_if at_queue ws' = count_if at_queue ws + 1"
  using assms(1)
proof (cases rule: notified.cases)
  case (one j)
  with count_if_update [of j ws at_queue W_woken] show ?thesis by (simp add: at_queue_def)
qed (use assms(2) in simp_all)

lemma notified_exited: "notified n ws ws' \<Longrightarrow> W_exited \<in> set ws' \<Longrightarrow> W_exited \<in> set ws"
  by (erule notified.cases)
     (auto simp: wake_def set_update_subset_insert [THEN subsetD] split: worker_pc.splits
       dest!: set_update_subset_insert [THEN subsetD])

lemma notified_blocked: "notified n ws ws' \<Longrightarrow> W_blocked \<in> set ws' \<Longrightarrow> W_blocked \<in> set ws"
  by (erule notified.cases)
     (auto simp: wake_def split: worker_pc.splits dest!: set_update_subset_insert [THEN subsetD])

lemma notified_all_blocked: "notified Notify_all ws ws' \<Longrightarrow> W_blocked \<notin> set ws'"
  by (erule notified.cases) (auto simp: wake_def split: worker_pc.splits)

lemma notified_length: "notified n ws ws' \<Longrightarrow> length ws' = length ws"
  by (erule notified.cases) auto

lemma update_memD: "x \<in> set (ws[i := y]) \<Longrightarrow> x = y \<or> x \<in> set ws"
  by (meson insertE set_update_subset_insert subsetD)

subsection \<open>Each step keeps the invariants\<close>

lemma at_queue_simps [simp]:
  "at_queue W_idle" "at_queue W_woken" "\<not> at_queue W_blocked" "\<not> at_queue (W_got t)"
  "\<not> at_queue (W_running t)" "\<not> at_queue W_finished" "\<not> at_queue W_exited"
  by (simp_all add: at_queue_def)

lemma at_queue_data: "at_queue w \<Longrightarrow> held w = [] \<and> \<not> counted w"
  by (auto simp: at_queue_def)

lemma pool_step_data: "pool_step excl p p' \<Longrightarrow> data_inv p \<Longrightarrow> data_inv p'"
proof (induction rule: pool_step.induct)
  case (worker_take i p t n q ws)
  let ?w = "tp_workers p"
  have aq: "held (?w ! i) = []" "\<not> counted (?w ! i)" using at_queue_data worker_take(2) by auto
  have "mset (held_tasks ws) = mset (held_tasks ?w) + {#t#}"
    using held_tasks_update [OF worker_take(1), of "W_got t"] notified_held [OF worker_take(4)] aq
    by simp
  moreover have "count_if counted ws = count_if counted ?w"
    using count_if_update [OF worker_take(1), of counted "W_got t"] aq
      notified_count [OF worker_take(4), of counted] by simp
  ultimately show ?case
    using bq.pop_cases [OF worker_take(3)] worker_take(5) by (simp add: data_inv_def)
next
  case (submit_push p xs t ys b n q ws)
  have "mset (held_tasks ws) = mset (held_tasks (tp_workers p))"
    "count_if counted ws = count_if counted (tp_workers p)"
    using notified_held [OF submit_push(3)] notified_count [OF submit_push(3), of counted] by simp_all
  then show ?case
    using bq.psh_cases [OF submit_push(2)] submit_push(4) by (auto simp: data_inv_def split: if_splits)
next
  case (worker_exit i p n q)
  then show ?case
    using held_tasks_update [OF worker_exit(1), of W_exited] at_queue_data [OF worker_exit(2)]
      count_if_update [OF worker_exit(1), of counted W_exited] by (simp add: data_inv_def)
next
  case (worker_block i p)
  then show ?case
    using held_tasks_update [OF worker_block(1), of W_blocked] at_queue_data [OF worker_block(2)]
      count_if_update [OF worker_block(1), of counted W_blocked] by (simp add: data_inv_def)
next
  case (spurious i p)
  then show ?case
    using held_tasks_update [OF spurious(1), of W_woken]
      count_if_update [OF spurious(1), of counted W_woken] by (simp add: data_inv_def)
next
  case (active_inc i p t)
  then show ?case
    using held_tasks_update [OF active_inc(1), of "W_running t"]
      count_if_update [OF active_inc(1), of counted "W_running t"] by (simp add: data_inv_def)
next
  case (run_task i p t)
  then show ?case
    using held_tasks_update [OF run_task(1), of W_finished]
      count_if_update [OF run_task(1), of counted W_finished] by (simp add: data_inv_def)
next
  case (active_dec i p)
  then show ?case
    using held_tasks_update [OF active_dec(1), of W_idle]
      count_if_update [OF active_dec(1), of counted W_idle] by (simp add: data_inv_def)
next
  case (shutdown_notify p n q ws)
  have "mset (held_tasks ws) = mset (held_tasks (tp_workers p))"
    "count_if counted ws = count_if counted (tp_workers p)"
    using notified_held [OF shutdown_notify(3)] notified_count [OF shutdown_notify(3), of counted]
    by simp_all
  then show ?case using shutdown_notify(4) by (simp add: data_inv_def)
qed (auto simp: data_inv_def queue_shutdown_def)

lemma pool_step_wake: "pool_step excl p p' \<Longrightarrow> wake_inv p \<Longrightarrow> wake_inv p'"
proof (induction rule: pool_step.induct)
  case (worker_take i p t n q ws)
  let ?w = "tp_workers p"
  have n: "n = Notify_one" "q_items (tp_queue p) = t # q_items q"
    using bq.pop_cases [OF worker_take(3)] by auto
  have c: "count_if at_queue (?w[i := W_got t]) + 1 = count_if at_queue ?w"
    using count_if_update [OF worker_take(1), of at_queue "W_got t"] worker_take(2) by simp
  show ?case
    unfolding wake_inv_def
  proof (intro impI)
    assume "W_blocked \<in> set (tp_workers (p\<lparr>tp_queue := q, tp_workers := ws, tp_popped := tp_popped p @ [t]\<rparr>))"
    then have b: "W_blocked \<in> set ws" by simp
    then have "W_blocked \<in> set ?w"
      using notified_blocked [OF worker_take(4)] update_memD by fastforce
    with worker_take(5) have "length (q_items (tp_queue p)) \<le> count_if at_queue ?w"
      by (simp add: wake_inv_def)
    with b c n notified_one_available worker_take(4)
    show "length (q_items (tp_queue (p\<lparr>tp_queue := q, tp_workers := ws, tp_popped := tp_popped p @ [t]\<rparr>)))
            \<le> count_if at_queue (tp_workers (p\<lparr>tp_queue := q, tp_workers := ws, tp_popped := tp_popped p @ [t]\<rparr>))"
      by fastforce
  qed
next
  case (worker_exit i p n q)
  then show ?case using bq.pop_cases [OF worker_exit(3)] by (simp add: wake_inv_def)
next
  case (worker_block i p)
  then show ?case using bq.pop_None_iff [of "tp_queue p"] by (simp add: wake_inv_def)
next
  case (spurious i p)
  then show ?case
    using count_if_update [OF spurious(1), of at_queue W_woken]
    by (auto simp: wake_inv_def at_queue_def dest!: update_memD)
next
  case (active_inc i p t)
  then show ?case
    using count_if_update [OF active_inc(1), of at_queue "W_running t"]
    by (auto simp: wake_inv_def at_queue_def dest!: update_memD)
next
  case (run_task i p t)
  then show ?case
    using count_if_update [OF run_task(1), of at_queue W_finished]
    by (auto simp: wake_inv_def at_queue_def dest!: update_memD)
next
  case (active_dec i p)
  then show ?case
    using count_if_update [OF active_dec(1), of at_queue W_idle]
    by (auto simp: wake_inv_def at_queue_def dest!: update_memD)
next
  case (submit_push p xs t ys b n q ws)
  show ?case
  proof (cases b)
    case True
    with bq.psh_cases [OF submit_push(2)] have n: "n = Notify_one" "q_items q = q_items (tp_queue p) @ [t]"
      by simp_all
    from submit_push(3) n have no: "notified Notify_one (tp_workers p) ws" by simp
    from submit_push(4) n notified_one_available [OF no] notified_blocked [OF no] show ?thesis
      by (auto simp: wake_inv_def)
  next
    case False
    with bq.psh_cases [OF submit_push(2)] have "n = No_notify" "q = tp_queue p" by simp_all
    with submit_push(3,4) show ?thesis by (auto simp: wake_inv_def elim: notified.cases)
  qed
next
  case (shutdown_notify p n q ws)
  with notified_available [OF shutdown_notify(3)] notified_blocked [OF shutdown_notify(3)] show ?case
    by (auto simp: wake_inv_def)
qed (auto simp: wake_inv_def queue_shutdown_def)

lemma pool_step_shutdown: "pool_step excl p p' \<Longrightarrow> shutdown_inv p \<Longrightarrow> shutdown_inv p'"
proof (induction rule: pool_step.induct)
  case (worker_take i p t n q ws)
  have "W_exited \<in> set ws \<Longrightarrow> W_exited \<in> set (tp_workers p)"
    "W_blocked \<in> set ws \<Longrightarrow> W_blocked \<in> set (tp_workers p)"
    using notified_exited [OF worker_take(4)] notified_blocked [OF worker_take(4)] update_memD
    by fastforce+
  moreover have "\<not> list_all (\<lambda>w. w = W_exited) (tp_workers p)"
    using worker_take(1,2) by (auto simp: list_all_length at_queue_def)
  ultimately show ?case
    using worker_take(5) bq.pop_cases [OF worker_take(3)] by (auto simp: shutdown_inv_def)
next
  case (worker_exit i p n q)
  then show ?case
    using bq.pop_cases [OF worker_exit(3)]
    by (auto simp: shutdown_inv_def list_all_iff dest!: update_memD)
next
  case (worker_block i p)
  then show ?case
    using bq.pop_None_iff [of "tp_queue p"]
    by (auto simp: shutdown_inv_def list_all_iff dest!: update_memD)
next
  case (spurious i p)
  then show ?case
    by (auto simp: shutdown_inv_def list_all_length dest!: update_memD)
next
  case (active_inc i p t)
  then show ?case
    by (auto simp: shutdown_inv_def list_all_length dest!: update_memD)
next
  case (run_task i p t)
  then show ?case
    by (auto simp: shutdown_inv_def list_all_length dest!: update_memD)
next
  case (active_dec i p)
  then show ?case
    by (auto simp: shutdown_inv_def list_all_length dest!: update_memD)
next
  case (submit_push p xs t ys b n q ws)
  have "list_all (\<lambda>w. w = W_exited) (tp_workers p) \<Longrightarrow> ws = tp_workers p"
    using submit_push(3) bq.psh_cases [OF submit_push(2)]
    by (cases rule: notified.cases) (auto simp: list_all_length split: if_splits)
  with submit_push(4) bq.psh_cases [OF submit_push(2)] notified_exited [OF submit_push(3)]
    notified_blocked [OF submit_push(3)] show ?case
    by (auto simp: shutdown_inv_def)
next
  case (shutdown_notify p n q ws)
  then have "n = Notify_all" by (simp add: queue_shutdown_def)
  with shutdown_notify notified_all_blocked notified_exited [OF shutdown_notify(3)] show ?case
    by (auto simp: shutdown_inv_def)
next
  case (shutdown_flag p n q)
  then show ?case by (auto simp: shutdown_inv_def queue_shutdown_def)
qed (auto simp: shutdown_inv_def)

lemma pool_step_drain: "pool_step True p p' \<Longrightarrow> shutdown_inv p \<Longrightarrow> drain_inv p \<Longrightarrow> drain_inv p'"
proof (induction rule: pool_step.induct)
  case (worker_take i p t n q ws)
  have "W_exited \<in> set ws \<Longrightarrow> W_exited \<in> set (tp_workers p)"
    using notified_exited [OF worker_take(4)] update_memD by fastforce
  with worker_take(6) bq.pop_cases [OF worker_take(3)] show ?case by (auto simp: drain_inv_def)
next
  case (submit_push p xs t ys b n q ws)
  then show ?case
    using notified_exited [OF submit_push(3)] by (auto simp: drain_inv_def shutdown_inv_def)
next
  case (shutdown_notify p n q ws)
  then show ?case
    using notified_exited [OF shutdown_notify(3)] by (auto simp: drain_inv_def)
next
  case (worker_exit i p n q)
  then show ?case
    using bq.pop_cases [OF worker_exit(3)] by (simp add: drain_inv_def)
qed (auto simp: drain_inv_def queue_shutdown_def dest!: update_memD)

lemma pool_make_invs:
  "data_inv (ThreadPool_make n cap)" "wake_inv (ThreadPool_make n cap)"
  "shutdown_inv (ThreadPool_make n cap)" "drain_inv (ThreadPool_make n cap)"
  by (auto simp: ThreadPool_make_def BoundedBlockingQueue_make_def data_inv_def wake_inv_def
      shutdown_inv_def drain_inv_def held_tasks_def count_if_def)

lemma pool_reachable_invs:
  assumes "pool_reachable excl n cap p"
  shows "data_inv p" "wake_inv p" "shutdown_inv p"
  using assms
  by (induction rule: pool_reachable.induct)
     (auto intro: pool_make_invs pool_step_data pool_step_wake pool_step_shutdown)

lemma pool_reachable_drain:
  assumes "pool_reachable True n cap p"
  shows "drain_inv p"
  using assms
  by (induction rule: pool_reachable.induct)
     (auto intro: pool_make_invs pool_step_drain pool_reachable_invs)

lemma pool_step_frame:
  "pool_step excl p p' \<Longrightarrow>
     length (tp_workers p') = length (tp_workers p) \<and> tp_queue_capacity p' = tp_queue_capacity p"
  by (induction rule: pool_step.induct) (auto dest: notified_length)

lemma pool_reachable_frame:
  "pool_reachable excl n cap p \<Longrightarrow>
     length (tp_workers p) = (if n = 0 then 2 else n) \<and> tp_queue_capacity p = cap"
  by (induction rule: pool_reachable.induct) (auto simp: ThreadPool_make_def dest: pool_step_frame)

lemma count_if_le: "count_if P ws \<le> length ws"
  by (simp add: count_if_def)

text \<open>A call of \<open>submit\<close> that nothing interrupts is the two steps of the relation.\<close>

lemma pool_submit_steps:
  assumes "\<not> tp_stopped p" "pool_submit t p = (b, n, p')" "notified n (tp_workers p) ws"
  shows "\<exists>p1. pool_step excl p p1 \<and> pool_step excl p1 (p'\<lparr>tp_workers := ws\<rparr>)"
proof -
  let ?p1 = "p\<lparr>tp_submitters := tp_submitters p @ [t]\<rparr>"
  obtain q where q: "push t (tp_queue p) = (b, n, q)"
    and p': "p' = p\<lparr>tp_queue := q, tp_accepted := (if b then tp_accepted p @ [t] else tp_accepted p)\<rparr>"
    using assms(1,2) by (auto simp: pool_submit_def split: prod.splits)
  have "pool_step excl p ?p1" by (rule submit_check [OF assms(1)])
  moreover have "pool_step excl ?p1 (p'\<lparr>tp_workers := ws\<rparr>)"
  proof -
    have "p'\<lparr>tp_workers := ws\<rparr> = ?p1\<lparr>tp_submitters := tp_submitters p @ [], tp_queue := q, tp_workers := ws,
        tp_accepted := (if b then tp_accepted ?p1 @ [t] else tp_accepted ?p1)\<rparr>"
      by (simp add: p')
    then show ?thesis
      by (simp only:) (rule submit_push, use q assms(3) in simp_all)
  qed
  ultimately show ?thesis by blast
qed

lemma notified_exists: "\<exists>ws'. notified n ws ws'"
proof (cases n)
  case Notify_one
  show ?thesis
  proof (cases "W_blocked \<in> set ws")
    case True
    then show ?thesis using Notify_one by (auto simp: in_set_conv_nth intro: one)
  next
    case False
    then show ?thesis using Notify_one by (blast intro: one_nobody)
  qed
qed (auto intro: notified.intros)

lemma worker_can_step:
  assumes i: "i < length (tp_workers p)"
    and nb: "tp_workers p ! i \<noteq> W_blocked" and nx: "tp_workers p ! i \<noteq> W_exited"
  shows "\<exists>p'. pool_step excl p p'"
proof (cases "at_queue (tp_workers p ! i)")
  case True
  show ?thesis
  proof (cases "wait_and_pop (tp_queue p)")
    case None
    then show ?thesis using i True by (blast intro: worker_block)
  next
    case (Some r)
    obtain t n q where r: "r = (t, n, q)" by (cases r)
    show ?thesis
    proof (cases t)
      case None
      then show ?thesis using Some r i True by (blast intro: worker_exit)
    next
      case (Some x)
      obtain ws where "notified n ((tp_workers p)[i := W_got x]) ws" using notified_exists by blast
      then show ?thesis
        using \<open>wait_and_pop (tp_queue p) = Some r\<close> r Some i True by (blast intro: worker_take)
    qed
  qed
next
  case False
  then show ?thesis
    using assms by (cases "tp_workers p ! i") (auto intro: active_inc run_task active_dec)
qed

subsection \<open>Shutdown terminates\<close>

fun pc_weight :: "'a worker_pc \<Rightarrow> nat" where
  "pc_weight (W_got t) = 4"
| "pc_weight (W_running t) = 3"
| "pc_weight W_finished = 2"
| "pc_weight W_exited = 0"
| "pc_weight _ = 1"

definition drain_measure :: "'a ThreadPool \<Rightarrow> nat" where
  "drain_measure p =
     5 * length (q_items (tp_queue p)) + sum_list (map pc_weight (tp_workers p)) +
     of_bool (tp_shutdown p = S_joining)"

lemma pc_weight_update:
  "i < length ws \<Longrightarrow>
     sum_list (map pc_weight (ws[i := x])) + pc_weight (ws ! i) =
     sum_list (map pc_weight ws) + pc_weight x"
proof (induction ws arbitrary: i)
  case (Cons w ws)
  then show ?case by (cases i) auto
qed simp

lemma notified_same:
  assumes "notified n ws ws'" "W_blocked \<notin> set ws"
  shows "ws' = ws"
  using assms(1)
proof (cases rule: notified.cases)
  case all
  have "wake w = w" if "w \<in> set ws" for w
  proof -
    from that assms(2) have "w \<noteq> W_blocked" by auto
    then show ?thesis by (cases w) (simp_all add: wake_def)
  qed
  with all show ?thesis by (simp add: map_idI)
qed (use assms(2) in \<open>auto dest: nth_mem\<close>)

lemma at_queue_weight: "at_queue w \<Longrightarrow> pc_weight w = 1"
  by (auto simp: at_queue_def)

lemma drain_step:
  assumes "pool_step True p p'" "shutdown_inv p" "drain_inv p" "tp_shutdown p = S_joining"
  shows "drain_measure p' < drain_measure p"
  using assms
proof (cases rule: pool_step.cases)
  case (worker_take i t n q ws)
  let ?ws = "(tp_workers p)[i := W_got t]"
  have "W_blocked \<notin> set ?ws"
    using assms(2,4) by (auto simp: shutdown_inv_def dest!: update_memD)
  with worker_take have "ws = ?ws" by (auto dest: notified_same)
  with pc_weight_update [OF worker_take(2), of "W_got t"] at_queue_weight [OF worker_take(3)]
    bq.pop_cases [OF worker_take(4)] worker_take(1) show ?thesis
    by (simp add: drain_measure_def)
next
  case (worker_exit i n q)
  with pc_weight_update [OF worker_exit(2), of W_exited] at_queue_weight [OF worker_exit(3)]
  show ?thesis by (simp add: drain_measure_def)
next
  case (worker_block i)
  then show ?thesis
    using bq.pop_None_iff [of "tp_queue p"] assms(2,4) by (simp add: shutdown_inv_def)
next
  case (spurious i)
  then show ?thesis using assms(2,4) by (auto simp: shutdown_inv_def dest: nth_mem)
next
  case (active_inc i t)
  with pc_weight_update [OF active_inc(2), of "W_running t"] show ?thesis
    by (simp add: drain_measure_def)
next
  case (run_task i t)
  with pc_weight_update [OF run_task(2), of W_finished] show ?thesis
    by (simp add: drain_measure_def)
next
  case (active_dec i)
  with pc_weight_update [OF active_dec(2), of W_idle] show ?thesis
    by (simp add: drain_measure_def)
next
  case (submit_push xs t ys b n q ws)
  then show ?thesis using assms(2-4) by (simp add: drain_inv_def shutdown_inv_def)
next
  case shutdown_join
  then show ?thesis by (simp add: drain_measure_def)
qed (use assms(2,4) in \<open>simp_all add: shutdown_inv_def\<close>)

lemma joining_can_step:
  assumes "shutdown_inv p" "tp_shutdown p = S_joining"
  shows "\<exists>p'. pool_step excl p p'"
proof (cases "list_all (\<lambda>w. w = W_exited) (tp_workers p)")
  case True
  with assms show ?thesis by (blast intro: shutdown_join)
next
  case False
  then obtain i where "i < length (tp_workers p)" "tp_workers p ! i \<noteq> W_exited"
    by (auto simp: list_all_length)
  moreover from this assms have "tp_workers p ! i \<noteq> W_blocked"
    by (auto simp: shutdown_inv_def dest: nth_mem)
  ultimately show ?thesis by (blast intro: worker_can_step)
qed

lemma pool_joined:
  assumes "pool_reachable True n cap p" "tp_shutdown p = S_joined"
  shows "list_all (\<lambda>w. w = W_exited) (tp_workers p)" "q_items (tp_queue p) = []"
    "mset (tp_executed p) = mset (tp_accepted p)" "tp_active_workers p = 0"
proof -
  show ex: "list_all (\<lambda>w. w = W_exited) (tp_workers p)"
    using pool_reachable_invs(3) [OF assms(1)] assms(2) by (simp add: shutdown_inv_def)
  have "tp_workers p \<noteq> []" using pool_reachable_frame [OF assms(1)] by (auto split: if_splits)
  with ex have "W_exited \<in> set (tp_workers p)" by (cases "tp_workers p") auto
  with pool_reachable_drain [OF assms(1)] show q: "q_items (tp_queue p) = []"
    by (simp add: drain_inv_def)
  have "held_tasks (tp_workers p) = []" "count_if counted (tp_workers p) = 0"
    using ex by (auto simp: held_tasks_def count_if_def list_all_iff filter_empty_conv)
  with q pool_reachable_invs(1) [OF assms(1)]
  show "mset (tp_executed p) = mset (tp_accepted p)" "tp_active_workers p = 0"
    by (simp_all add: data_inv_def)
qed

subsection \<open>The executable scheduler follows the step relation\<close>

lemma wake_first_notified: "notified Notify_one ws (wake_first ws)"
proof (cases "W_blocked \<in> set ws")
  case True
  then have "\<exists>j < length ws. ws ! j = W_blocked \<and> wake_first ws = ws[j := W_woken]"
  proof (induction ws rule: wake_first.induct)
    case (2 ws)
    show ?case by (rule exI [of _ 0]) simp
  qed (force intro: exI [of _ "Suc _"])+
  then show ?thesis by (auto intro: one)
next
  case False
  then have "wake_first ws = ws" by (induction ws rule: wake_first.induct) auto
  with False one_nobody show ?thesis by metis
qed

lemma deliver_notified: "notified n ws (deliver n ws)"
  by (cases n) (auto intro: notified.intros wake_first_notified)

lemma queue_turn_sound:
  "i < length (tp_workers p) \<Longrightarrow> at_queue (tp_workers p ! i) \<Longrightarrow> pool_step excl p (queue_turn i p)"
  by (auto simp: queue_turn_def split: option.splits
      intro: worker_take worker_exit worker_block deliver_notified)

lemma worker_turn_sound: "worker_turn i p = Some p' \<Longrightarrow> pool_step excl p p'"
  by (auto simp: worker_turn_def split: if_splits worker_pc.splits
      intro: queue_turn_sound active_inc [simplified] run_task active_dec [simplified])

lemma exited_case: "(case w of W_exited \<Rightarrow> True | _ \<Rightarrow> False) = (w = W_exited)"
  by (cases w) auto

lemma shutdown_turn_sound: "shutdown_turn excl p = Some p' \<Longrightarrow> pool_step excl p p'"
proof (cases "tp_shutdown p")
  case S_not_called
  assume "shutdown_turn excl p = Some p'"
  with S_not_called show ?thesis
    by (auto simp: shutdown_turn_def split: if_splits intro: shutdown_cas)
next
  case S_stopped
  assume "shutdown_turn excl p = Some p'"
  with S_stopped show ?thesis
    using shutdown_flag [OF S_stopped prod.collapse [symmetric]] by (simp add: shutdown_turn_def)
next
  case S_flagged
  assume "shutdown_turn excl p = Some p'"
  with S_flagged show ?thesis
    using shutdown_notify [OF S_flagged prod.collapse [symmetric] deliver_notified]
    by (simp add: shutdown_turn_def)
next
  case S_joining
  assume "shutdown_turn excl p = Some p'"
  with S_joining show ?thesis
    using shutdown_join [OF S_joining]
    by (simp add: shutdown_turn_def list_all_iff exited_case split: if_splits)
qed (simp add: shutdown_turn_def)

lemma pool_do_sound: "pool_do excl e p = Some p' \<Longrightarrow> pool_step excl p p'"
proof (cases e)
  case (Ev_push j)
  assume r: "pool_do excl e p = Some p'"
  with Ev_push have j: "j < length (tp_submitters p)" by (auto split: if_splits)
  obtain b n q where ps: "push (tp_submitters p ! j) (tp_queue p) = (b, n, q)"
    by (cases "push (tp_submitters p ! j) (tp_queue p)")
  from r j ps Ev_push submit_push [OF id_take_nth_drop [OF j] ps deliver_notified] show ?thesis by auto
qed (auto simp: worker_turn_sound shutdown_turn_sound split: if_splits worker_pc.splits
     intro: spurious submit_check)

lemma pool_run_sound:
  "pool_reachable excl n cap p \<Longrightarrow> pool_run excl es p = Some p' \<Longrightarrow> pool_reachable excl n cap p'"
proof (induction es arbitrary: p)
  case (Cons e es)
  then show ?case
    by (auto split: option.splits dest!: pool_do_sound intro: pool_reachable.step)
qed simp

lemma pool_run_reachable:
  "pool_run excl es (ThreadPool_make n cap) = Some p \<Longrightarrow> pool_reachable excl n cap p"
  using pool_run_sound pool_reachable.start by blast

section \<open>Properties\<close>

definition pool_reaches :: "bool \<Rightarrow> nat \<Rightarrow> nat \<Rightarrow> 'a pool_event list \<Rightarrow> ('a ThreadPool \<Rightarrow> bool) \<Rightarrow> bool" where
  "pool_reaches excl n cap es P =
     (case pool_run excl es (ThreadPool_make n cap) of None \<Rightarrow> False | Some p \<Rightarrow> P p)"

lemma pool_reachesD:
  "pool_reaches excl n cap es P \<Longrightarrow> \<exists>p. pool_reachable excl n cap p \<and> P p"
  by (auto simp: pool_reaches_def split: option.splits intro: pool_run_reachable)

text \<open>
  C9: In every reachable state of a pool of \<open>n\<close> threads and capacity \<open>cap\<close>, under any interleaving
  of submitters, workers, spurious wake-ups and \<open>shutdown\<close>: the queue never exceeds its capacity; the
  accepted tasks are, in order, those handed to workers followed by those queued, and each task handed
  out is either completed or held by exactly one worker, so no accepted task is lost, duplicated or
  taken out of order; \<open>active_workers()\<close> is the number of workers between the two counter updates, and
  \<open>idle_workers()\<close> does not wrap around.
\<close>

theorem pool_task_accounting:
  assumes "pool_reachable excl n cap p" "n < 2 ^ 64"
  shows "pool_queue_size p \<le> pool_queue_capacity p \<and> pool_queue_capacity p = cap \<and>
         tp_accepted p = tp_popped p @ q_items (tp_queue p) \<and>
         mset (tp_popped p) = mset (tp_executed p) + mset (held_tasks (tp_workers p)) \<and>
         active_workers p = count_if counted (tp_workers p) \<and>
         thread_count p = (if n = 0 then 2 else n) \<and>
         idle_workers p + active_workers p = thread_count p"
proof -
  have "count_if counted (tp_workers p) \<le> length (tp_workers p)" by (rule count_if_le)
  with pool_reachable_invs(1) [OF assms(1)] pool_reachable_frame [OF assms(1)] assms(2) show ?thesis
    by (auto simp: data_inv_def pool_queue_size_def pool_queue_capacity_def active_workers_def
        thread_count_def idle_workers_def queue_size_def size_sub_le)
qed

definition sample_schedule :: "nat pool_event list" where
  "sample_schedule =
     [Ev_worker 0, Ev_worker 1, Ev_check 7, Ev_check 8, Ev_push 1, Ev_push 0, Ev_worker 0,
      Ev_worker 0, Ev_worker 1, Ev_worker 0]"

theorem pool_task_accounting_witness:
  "\<exists>p :: nat ThreadPool. tp_accepted p = [8, 7] \<and> active_workers p = 1 \<and>
     pool_queue_size p \<le> pool_queue_capacity p \<and> pool_queue_capacity p = 3 \<and>
     tp_accepted p = tp_popped p @ q_items (tp_queue p) \<and>
     mset (tp_popped p) = mset (tp_executed p) + mset (held_tasks (tp_workers p)) \<and>
     active_workers p = count_if counted (tp_workers p) \<and>
     thread_count p = 2 \<and> idle_workers p + active_workers p = thread_count p"
proof -
  have "pool_reaches False 2 3 sample_schedule (\<lambda>p. tp_accepted p = [8, 7] \<and> active_workers p = 1)"
    by code_simp
  then obtain p :: "nat ThreadPool" where
    "pool_reachable False 2 3 p" "tp_accepted p = [8, 7]" "active_workers p = 1"
    using pool_reachesD by blast
  with pool_task_accounting [of False 2 3 p] show ?thesis by auto
qed

text \<open>
  C18: No lost wake-up: whenever a worker sleeps in \<open>cv_.wait\<close>, every queued task has a worker of its
  own that is about to lock the queue; and whenever the queue is not empty, some worker that is neither
  asleep nor finished exists or all workers have left the loop, so some thread of the pool can step.
\<close>

theorem pool_no_lost_wakeup:
  assumes "pool_reachable excl n cap p"
  shows "(W_blocked \<in> set (tp_workers p) \<longrightarrow> pool_queue_size p \<le> count_if at_queue (tp_workers p)) \<and>
         (0 < pool_queue_size p \<and> \<not> list_all (\<lambda>w. w = W_exited) (tp_workers p) \<longrightarrow>
            (\<exists>w \<in> set (tp_workers p). w \<noteq> W_blocked \<and> w \<noteq> W_exited))"
proof -
  have w: "wake_inv p" using pool_reachable_invs(2) [OF assms] .
  have "\<exists>w \<in> set (tp_workers p). w \<noteq> W_blocked \<and> w \<noteq> W_exited"
    if q: "0 < pool_queue_size p" and ne: "\<not> list_all (\<lambda>w. w = W_exited) (tp_workers p)"
  proof (cases "W_blocked \<in> set (tp_workers p)")
    case True
    with w q have "filter at_queue (tp_workers p) \<noteq> []"
      by (auto simp: wake_inv_def pool_queue_size_def queue_size_def count_if_def)
    then show ?thesis by (auto simp: filter_empty_conv at_queue_def)
  next
    case False
    from ne obtain w where w: "w \<in> set (tp_workers p)" "w \<noteq> W_exited"
      by (auto simp: list_all_iff)
    with False have "w \<noteq> W_blocked" by blast
    with w show ?thesis by blast
  qed
  with w show ?thesis by (auto simp: wake_inv_def pool_queue_size_def queue_size_def)
qed

theorem pool_no_lost_wakeup_witness:
  "\<exists>p :: nat ThreadPool. W_blocked \<in> set (tp_workers p) \<and> pool_queue_size p = 1 \<and>
     (W_blocked \<in> set (tp_workers p) \<longrightarrow> pool_queue_size p \<le> count_if at_queue (tp_workers p)) \<and>
     (0 < pool_queue_size p \<and> \<not> list_all (\<lambda>w. w = W_exited) (tp_workers p) \<longrightarrow>
        (\<exists>w \<in> set (tp_workers p). w \<noteq> W_blocked \<and> w \<noteq> W_exited))"
proof -
  have "pool_reaches False 2 3 [Ev_worker 0, Ev_worker 1, Ev_check (7 :: nat), Ev_push 0]
          (\<lambda>p. W_blocked \<in> set (tp_workers p) \<and> pool_queue_size p = 1)"
    by code_simp
  then obtain p :: "nat ThreadPool" where
    "pool_reachable False 2 3 p" "W_blocked \<in> set (tp_workers p)" "pool_queue_size p = 1"
    using pool_reachesD by blast
  with pool_no_lost_wakeup [of False 2 3 p] show ?thesis by blast
qed

text \<open>
  C8: Graceful shutdown: when \<open>shutdown\<close> is not run concurrently with \<open>submit\<close> and has returned, the
  queue is empty, every worker has left its loop, and the tasks completed are exactly the tasks ever
  accepted, each as often as it was accepted.
\<close>

theorem pool_shutdown_drains:
  assumes "pool_reachable True n cap p" "tp_shutdown p = S_joined"
  shows "pool_queue_size p = 0 \<and> list_all (\<lambda>w. w = W_exited) (tp_workers p) \<and>
         mset (tp_executed p) = mset (tp_accepted p) \<and> active_workers p = 0"
  using pool_joined [OF assms] by (simp add: pool_queue_size_def queue_size_def active_workers_def)

definition drain_schedule :: "nat pool_event list" where
  "drain_schedule =
     [Ev_worker 0, Ev_check 7, Ev_push 0, Ev_check 8, Ev_push 0, Ev_shutdown, Ev_shutdown,
      Ev_worker 0, Ev_worker 0, Ev_worker 0, Ev_worker 0, Ev_shutdown, Ev_worker 0, Ev_worker 0,
      Ev_worker 0, Ev_worker 0, Ev_worker 0, Ev_shutdown]"

theorem pool_shutdown_drains_witness:
  "\<exists>p :: nat ThreadPool. tp_shutdown p = S_joined \<and> tp_accepted p = [7, 8] \<and>
     pool_queue_size p = 0 \<and> list_all (\<lambda>w. w = W_exited) (tp_workers p) \<and>
     mset (tp_executed p) = mset (tp_accepted p) \<and> active_workers p = 0"
proof -
  have "pool_reaches True 1 2 drain_schedule (\<lambda>p. tp_shutdown p = S_joined \<and> tp_accepted p = [7, 8])"
    by code_simp
  then obtain p :: "nat ThreadPool" where
    "pool_reachable True 1 2 p" "tp_shutdown p = S_joined" "tp_accepted p = [7, 8]"
    using pool_reachesD by blast
  with pool_shutdown_drains [of 1 2 p] show ?thesis by blast
qed

text \<open>
  C19: Shutdown terminates: while \<open>shutdown\<close> waits in \<open>join\<close> (and no \<open>submit\<close> runs concurrently), some
  thread of the pool can always step, and every step decreases \<open>drain_measure\<close>; so every run reaches
  the return of \<open>shutdown\<close>, whatever the scheduling, as long as tasks themselves return.
\<close>

theorem pool_shutdown_terminates:
  assumes "pool_reachable True n cap p" "tp_shutdown p = S_joining"
  shows "(\<exists>p'. pool_step True p p') \<and>
         (\<forall>p'. pool_step True p p' \<longrightarrow> drain_measure p' < drain_measure p)"
  using joining_can_step drain_step assms pool_reachable_invs(3) [OF assms(1)]
    pool_reachable_drain [OF assms(1)] by blast

theorem pool_shutdown_terminates_witness:
  "\<exists>p :: nat ThreadPool. tp_shutdown p = S_joining \<and> pool_queue_size p = 1 \<and>
     (\<exists>p'. pool_step True p p') \<and>
     (\<forall>p'. pool_step True p p' \<longrightarrow> drain_measure p' < drain_measure p)"
proof -
  have "pool_reaches True 1 2 (take 12 drain_schedule)
          (\<lambda>p. tp_shutdown p = S_joining \<and> pool_queue_size p = 1)"
    by code_simp
  then obtain p :: "nat ThreadPool" where
    "pool_reachable True 1 2 p" "tp_shutdown p = S_joining" "pool_queue_size p = 1"
    using pool_reachesD by blast
  with pool_shutdown_terminates [of 1 2 p] show ?thesis by blast
qed

text \<open>
  A \<open>submit\<close> that races with \<open>shutdown\<close> can lose its task: \<open>push\<close> does not look at the queue's
  shutdown flag, so a run exists in which \<open>submit\<close> returns true, \<open>shutdown\<close> has joined all workers,
  and the accepted task is still queued and never runs.
\<close>

lemma pool_submit_shutdown_race:
  "\<exists>p :: nat ThreadPool. pool_reachable False 1 4 p \<and> tp_shutdown p = S_joined \<and>
     tp_accepted p = [7] \<and> tp_executed p = [] \<and> pool_queue_size p = 1 \<and>
     list_all (\<lambda>w. w = W_exited) (tp_workers p)"
proof -
  have "pool_reaches False 1 4
          [Ev_check (7 :: nat), Ev_shutdown, Ev_shutdown, Ev_worker 0, Ev_shutdown, Ev_shutdown, Ev_push 0]
          (\<lambda>p. tp_shutdown p = S_joined \<and> tp_accepted p = [7] \<and> tp_executed p = [] \<and>
               pool_queue_size p = 1 \<and> list_all (\<lambda>w. w = W_exited) (tp_workers p))"
    by code_simp
  then show ?thesis using pool_reachesD by blast
qed

end
