(* ===== verification/Router.thy ===== *)
theory Router
  imports HttpRequest StaticFileHandler Metrics
begin

text \<open>
  Model of \<open>src/router.cpp\<close> and \<open>include/server/router.hpp\<close>: the route table, the dispatch and the
  default handlers. A handler is a function of the request and of the environment it reads (the file
  system, the metrics singleton, the clock, and for \<open>/work\<close> the elapsed time it measures); it
  may throw. The two-level \<open>unordered_map\<close> is an association list of association lists.

  The locale \<open>route_table\<close> is the contract of a route table, what a lookup gives after an insertion;
  the effect of a sequence of registrations is proved from it once and then used for the default routes.
\<close>

section \<open>Data and operations\<close>

record handler_env =
  he_fs :: filesystem
  he_dops :: double_ops
  he_now :: int
  he_metrics :: Metrics
  he_elapsed :: double

type_synonym Handler = "handler_env \<Rightarrow> HttpRequest \<Rightarrow> HttpResponse throws"

record Router =
  document_root :: string
  routes :: "(string, (string, Handler) umap) umap"
  static_handler :: StaticFileHandler

definition Router_make :: "filesystem \<Rightarrow> string \<Rightarrow> Router" where
  "Router_make fs root =
     \<lparr>document_root = root, routes = [], static_handler = StaticFileHandler_make fs root\<rparr>"

definition path_methods :: "Router \<Rightarrow> string \<Rightarrow> (string, Handler) umap" where
  "path_methods r path = (case map_of (routes r) path of None \<Rightarrow> [] | Some ms \<Rightarrow> ms)"

definition add_route :: "string \<Rightarrow> string \<Rightarrow> Handler \<Rightarrow> Router \<Rightarrow> Router" where
  "add_route method path handler r =
     r\<lparr>routes := AList.update path (AList.update method handler (path_methods r path)) (routes r)\<rparr>"

definition allowed_methods :: "(string list \<Rightarrow> string list) \<Rightarrow> (string, Handler) umap \<Rightarrow> string" where
  "allowed_methods ord ms =
     foldl (\<lambda>allowed m. (if allowed \<noteq> [] then allowed @ '', '' else allowed) @ m) []
       (map fst (umap_iter ord ms))"

definition static_fallback :: "handler_env \<Rightarrow> Router \<Rightarrow> HttpRequest \<Rightarrow> HttpResponse throws" where
  "static_fallback env r req =
     (if req_method req = GET \<or> req_method req = HEAD then
        throws_bind (serve (he_fs env) (static_handler r) (req_path req)) (\<lambda>file_resp.
          case file_resp of
            Some f \<Rightarrow> if req_method req = HEAD then Inr (set_body [] f) else Inr f
          | None \<Rightarrow> Inr (not_found ''Not Found''))
      else Inr (not_found ''Not Found''))"

definition Router_handle ::
    "(string list \<Rightarrow> string list) \<Rightarrow> handler_env \<Rightarrow> Router \<Rightarrow> HttpRequest \<Rightarrow> HttpResponse throws" where
  "Router_handle ord env r req =
     (case map_of (routes r) (req_path req) of
        None \<Rightarrow> static_fallback env r req
      | Some ms \<Rightarrow>
          (case map_of ms (req_method_string req) of
             None \<Rightarrow> Inr (method_not_allowed (allowed_methods ord ms))
           | Some handler \<Rightarrow> handler env req))"

subsection \<open>The default handlers\<close>

definition page_handler :: "string \<Rightarrow> string \<Rightarrow> string \<Rightarrow> Handler" where
  "page_handler root page missing env req =
     (case fs_read (he_fs env) (root @ page) of
        None \<Rightarrow> Inr (not_found missing)
      | Some html \<Rightarrow> Inr (HttpResponse_ok html ''text/html''))"

definition work_param :: "string \<Rightarrow> string \<Rightarrow> string \<Rightarrow> string throws" where
  "work_param params key dflt =
     (case str_find key params of
        None \<Rightarrow> Inr dflt
      | Some pos \<Rightarrow>
          substr params (pos + 6)
            (case str_find_from ''&'' params pos of
               None \<Rightarrow> npos
             | Some e \<Rightarrow> size_sub (size_sub e pos) 6))"

definition work_params :: "string \<Rightarrow> (string \<times> string) throws" where
  "work_params path =
     (case str_find ''?'' path of
        None \<Rightarrow> Inr (''100'', ''0'')
      | Some qs \<Rightarrow>
          throws_bind (substr_from path (qs + 1)) (\<lambda>params.
            throws_bind (work_param params ''delay='' ''100'') (\<lambda>delay_str.
              throws_bind (work_param params ''body='' ''0'') (\<lambda>body_str.
                Inr (delay_str, body_str)))))"

definition stoi_or :: "int \<Rightarrow> string \<Rightarrow> int" where
  "stoi_or dflt s = (case stoi s of Inl _ \<Rightarrow> dflt | Inr v \<Rightarrow> v)"

definition work_clamp :: "int \<Rightarrow> int \<Rightarrow> int" where
  "work_clamp hi v =
     (let v1 = (if v < 0 then 0 else v) in if v1 > hi then hi else v1)"

definition work_delay_ms :: "string \<Rightarrow> int" where
  "work_delay_ms delay_str = work_clamp 30000 (stoi_or 100 delay_str)"

definition work_body_kb :: "string \<Rightarrow> int" where
  "work_body_kb body_str = work_clamp 10240 (stoi_or 0 body_str)"

definition work_json :: "int \<Rightarrow> string \<Rightarrow> int \<Rightarrow> string" where
  "work_json delay_ms actual body_kb =
     ''{'' @ [LF] @
     json_line ''status'' ([CHR 0x22] @ ''work_done'' @ [CHR 0x22]) @ '','' @ [LF] @
     json_line ''delay_ms'' (int_to_string delay_ms) @ '','' @ [LF] @
     json_line ''actual_ms'' actual @ '','' @ [LF] @
     json_line ''body_kb'' (int_to_string body_kb) @ [LF] @ ''}''"

definition work_handler :: Handler where
  "work_handler env req =
     throws_bind (work_params (req_path req)) (\<lambda>(delay_str, body_str).
       let delay_ms = work_delay_ms delay_str;
           body_kb = work_body_kb body_str;
           elapsed = he_elapsed env;
           resp = HttpResponse_ok
                    (work_json delay_ms (d_show_fixed (he_dops env) 1 elapsed) body_kb)
                    ''application/json''
       in Inr (set_header ''X-Work-Actual'' (int_to_string (d_to_int (he_dops env) elapsed))
                (set_header ''X-Work-Delay'' (int_to_string delay_ms) resp)))"

definition health_handler :: Handler where
  "health_handler env req =
     Inr (HttpResponse_ok
       (''{'' @ [CHR 0x22] @ ''status'' @ [CHR 0x22] @ '':'' @ [CHR 0x22] @ ''ok'' @ [CHR 0x22] @ ''}'')
       ''application/json'')"

definition hello_handler :: Handler where
  "hello_handler env req = Inr (HttpResponse_ok (''Hello, World!'' @ [LF]) ''text/plain'')"

definition metrics_handler :: Handler where
  "metrics_handler env req =
     Inr (HttpResponse_ok (to_json (he_dops env) (he_now env) (he_metrics env)) ''application/json'')"

definition echo_handler :: Handler where
  "echo_handler env req = Inr (HttpResponse_ok (req_body req) ''text/plain'')"

definition head_hello_handler :: Handler where
  "head_hello_handler env req = Inr (HttpResponse_ok [] ''text/plain'')"

definition head_health_handler :: Handler where
  "head_health_handler env req = Inr (HttpResponse_ok [] ''application/json'')"

definition default_routes :: "string \<Rightarrow> (string \<times> string \<times> Handler) list" where
  "default_routes root =
     [(''GET'', ''/dashboard'', page_handler root ''/dashboard.html'' ''Dashboard not found''),
      (''GET'', ''/playground'', page_handler root ''/playground.html'' ''Playground not found''),
      (''GET'', ''/lab'', page_handler root ''/lab.html'' ''Lab not found''),
      (''GET'', ''/work'', work_handler),
      (''GET'', ''/health'', health_handler),
      (''GET'', ''/hello'', hello_handler),
      (''GET'', ''/metrics'', metrics_handler),
      (''POST'', ''/echo'', echo_handler),
      (''HEAD'', ''/hello'', head_hello_handler),
      (''HEAD'', ''/health'', head_health_handler)]"

definition register_routes :: "(string \<times> string \<times> Handler) list \<Rightarrow> Router \<Rightarrow> Router" where
  "register_routes rs r = fold (\<lambda>(method, path, handler). add_route method path handler) rs r"

definition setup_default_routes :: "Router \<Rightarrow> Router" where
  "setup_default_routes r = register_routes (default_routes (document_root r)) r"

section \<open>Specification\<close>

definition route_lookup :: "Router \<Rightarrow> string \<Rightarrow> string \<Rightarrow> Handler option" where
  "route_lookup r path method = map_of (path_methods r path) method"

definition has_path :: "Router \<Rightarrow> string \<Rightarrow> bool" where
  "has_path r path = (map_of (routes r) path \<noteq> None)"

definition path_allow :: "Router \<Rightarrow> string \<Rightarrow> string list" where
  "path_allow r path = map fst (path_methods r path)"

definition handler_safe :: "Handler \<Rightarrow> bool" where
  "handler_safe h = (\<forall>env req resp. h env req = Inr resp \<longrightarrow> resp_wf resp)"

definition routes_wf :: "Router \<Rightarrow> bool" where
  "routes_wf r =
     (umap_ok (routes r) \<and>
      list_all (\<lambda>(path, ms). ms \<noteq> [] \<and> umap_ok ms \<and>
        list_all (\<lambda>(m, h). m \<noteq> [] \<and> line_safe m \<and> handler_safe h) ms) (routes r))"

fun join_comma :: "string list \<Rightarrow> string" where
  "join_comma [] = []"
| "join_comma [m] = m"
| "join_comma (m # ms) = m @ '', '' @ join_comma ms"

section \<open>The contract of a route table\<close>

locale route_table =
  fixes look :: "'s \<Rightarrow> string \<Rightarrow> string \<Rightarrow> 'h option"
    and known :: "'s \<Rightarrow> string \<Rightarrow> bool"
    and add :: "string \<Rightarrow> string \<Rightarrow> 'h \<Rightarrow> 's \<Rightarrow> 's"
  assumes look_add: "look (add m p h s) p' m' = (if p' = p \<and> m' = m then Some h else look s p' m')"
    and known_add: "known (add m p h s) p' \<longleftrightarrow> p' = p \<or> known s p'"
begin

lemma look_fold:
  "look (fold (\<lambda>(m, p, h). add m p h) rs s) p m =
     (case map_of (rev (map (\<lambda>(m, p, h). ((p, m), h)) rs)) (p, m) of
        Some h \<Rightarrow> Some h | None \<Rightarrow> look s p m)"
proof (induction rs arbitrary: s)
  case (Cons r rs)
  obtain m' p' h' where r: "r = (m', p', h')" by (cases r)
  show ?case
    unfolding r by (auto simp: Cons.IH look_add map_add_def split: option.splits)
qed simp

lemma known_fold:
  "known (fold (\<lambda>(m, p, h). add m p h) rs s) p \<longleftrightarrow> p \<in> (fst \<circ> snd) ` set rs \<or> known s p"
  by (induction rs arbitrary: s) (auto simp: known_add)

lemma look_add_commute:
  assumes "(m, p) \<noteq> (m', p')"
  shows "look (add m p h (add m' p' h' s)) = look (add m' p' h' (add m p h s))"
  using assms by (intro ext) (auto simp: look_add)

end

section \<open>Lemmas\<close>

lemma path_methods_add:
  "path_methods (add_route m p h r) p' =
     (if p' = p then AList.update m h (path_methods r p) else path_methods r p')"
  by (simp add: path_methods_def add_route_def map_of_AList_update split: option.splits)

interpretation rt: route_table route_lookup has_path add_route
proof
  fix m p h s p' m'
  show "route_lookup (add_route m p h s) p' m' =
          (if p' = p \<and> m' = m then Some h else route_lookup s p' m')"
    by (simp add: route_lookup_def path_methods_add map_of_AList_update)
  show "has_path (add_route m p h s) p' \<longleftrightarrow> p' = p \<or> has_path s p'"
    by (simp add: has_path_def add_route_def map_of_AList_update)
qed

lemma add_route_frame [simp]:
  "document_root (add_route m p h r) = document_root r"
  "static_handler (add_route m p h r) = static_handler r"
  by (simp_all add: add_route_def)

lemma register_frame [simp]:
  "document_root (register_routes rs r) = document_root r"
  "static_handler (register_routes rs r) = static_handler r"
  unfolding register_routes_def by (induction rs arbitrary: r) auto

lemma Router_handle_cases:
  "Router_handle ord env r req =
     (if \<not> has_path r (req_path req) then static_fallback env r req
      else case route_lookup r (req_path req) (req_method_string req) of
             Some h \<Rightarrow> h env req
           | None \<Rightarrow> Inr (method_not_allowed (allowed_methods ord (path_methods r (req_path req)))))"
  by (auto simp: Router_handle_def has_path_def route_lookup_def path_methods_def split: option.splits)

lemma static_fallback_add [simp]: "static_fallback env (add_route m p h r) req = static_fallback env r req"
  by (simp add: static_fallback_def)

subsection \<open>The list of allowed methods\<close>

lemma join_comma_snoc: "join_comma (ms @ [m]) = (if ms = [] then m else join_comma ms @ '', '' @ m)"
  by (induction ms rule: join_comma.induct) auto

lemma join_comma_Nil_iff: "list_all (\<lambda>m. m \<noteq> []) ms \<Longrightarrow> join_comma ms = [] \<longleftrightarrow> ms = []"
  by (induction ms rule: join_comma.induct) auto

lemma allowed_foldl:
  "list_all (\<lambda>m. m \<noteq> []) ms \<Longrightarrow>
     foldl (\<lambda>allowed m. (if allowed \<noteq> [] then allowed @ '', '' else allowed) @ m) [] ms = join_comma ms"
proof (induction ms rule: rev_induct)
  case (snoc m ms)
  then show ?case by (auto simp: join_comma_snoc join_comma_Nil_iff)
qed simp

lemma join_comma_safe: "list_all line_safe ms \<Longrightarrow> line_safe (join_comma ms)"
  by (induction ms rule: join_comma.induct) (auto simp: line_safe_Cons)

lemma allowed_methods_join:
  assumes "iteration_order ord" "list_all (\<lambda>m. m \<noteq> []) (map fst ms)"
  shows "allowed_methods ord ms = join_comma (ord (map fst ms))"
proof -
  have "list_all (\<lambda>m. m \<noteq> []) (ord (map fst ms))"
    using assms by (simp add: list_all_iff iteration_order_simps)
  then show ?thesis by (simp add: allowed_methods_def allowed_foldl)
qed

subsection \<open>Well-formed responses\<close>

lemma line_safe_int [simp]: "line_safe (int_to_string i)"
  by (simp add: int_to_string_def line_safe_Cons)

lemma line_safe_json: "line_safe ''application/json''" "line_safe ''text/html''"
  by (simp_all add: line_safe_Cons)

lemma work_handler_safe: "handler_safe work_handler"
proof -
  have "resp_wf (set_header ''X-Work-Actual'' (int_to_string a)
          (set_header ''X-Work-Delay'' (int_to_string d) (HttpResponse_ok b ''application/json'')))"
    for a d b
    by (intro set_header_wf factories_wf(1) line_safe_json) (simp_all add: header_safe_def line_safe_Cons)
  then show ?thesis
    by (auto simp: handler_safe_def work_handler_def throws_bind_Inr_iff Let_def)
qed

lemma page_handler_safe: "handler_safe (page_handler root page missing)"
  by (auto simp: handler_safe_def page_handler_def factories_wf line_safe_json split: option.splits)

lemma simple_handlers_safe:
  "handler_safe health_handler" "handler_safe hello_handler" "handler_safe metrics_handler"
  "handler_safe echo_handler" "handler_safe head_hello_handler" "handler_safe head_health_handler"
  by (auto simp: handler_safe_def health_handler_def hello_handler_def metrics_handler_def
      echo_handler_def head_hello_handler_def head_health_handler_def factories_wf line_safe_json
      line_safe_text_plain)

lemmas handlers_safe = work_handler_safe page_handler_safe simple_handlers_safe

lemma AList_update_neq_Nil [simp]: "AList.update k v m \<noteq> []"
  by (cases m) auto

lemma routes_wf_path:
  assumes "routes_wf r"
  shows "umap_ok (path_methods r p)"
    "list_all (\<lambda>(m, h). m \<noteq> [] \<and> line_safe m \<and> handler_safe h) (path_methods r p)"
    "has_path r p \<Longrightarrow> path_methods r p \<noteq> []"
  using assms
  by (auto simp: routes_wf_def path_methods_def has_path_def list_all_iff split: option.splits
      dest: map_of_SomeD)

lemma add_route_wf:
  assumes "routes_wf r" "m \<noteq> []" "line_safe m" "handler_safe h"
  shows "routes_wf (add_route m p h r)"
  using assms routes_wf_path [OF assms(1), of p]
  by (simp add: routes_wf_def add_route_def list_all_AList_update)

lemma register_routes_wf:
  "routes_wf r \<Longrightarrow> list_all (\<lambda>(m, p, h). m \<noteq> [] \<and> line_safe m \<and> handler_safe h) rs \<Longrightarrow>
     routes_wf (register_routes rs r)"
  unfolding register_routes_def
  by (induction rs arbitrary: r) (auto intro: add_route_wf)

lemma default_routes_wf: "routes_wf r \<Longrightarrow> routes_wf (setup_default_routes r)"
  unfolding setup_default_routes_def
  by (rule register_routes_wf) (simp_all add: default_routes_def handlers_safe line_safe_Cons)

lemma Router_make_wf: "routes_wf (Router_make fs root)"
  by (simp add: routes_wf_def Router_make_def)

lemma set_body_keeps_wf: "resp_wf r \<Longrightarrow> resp_wf (set_body b r)"
  by (rule set_body_wf) (simp_all add: resp_wf_def)

lemma static_fallback_wf: "static_fallback env r req = Inr resp \<Longrightarrow> resp_wf resp"
  by (auto simp: static_fallback_def throws_bind_Inr_iff factories_wf split: if_splits option.splits
      intro: serve_wf set_body_keeps_wf)

lemma routes_wf_handler:
  assumes "routes_wf r" "route_lookup r p m = Some h"
  shows "handler_safe h"
  using routes_wf_path(2) [OF assms(1), of p] assms(2)
  by (auto simp: route_lookup_def list_all_iff dest!: map_of_SomeD)

lemma allowed_methods_safe:
  assumes "iteration_order ord" "routes_wf r"
  shows "allowed_methods ord (path_methods r p) = join_comma (ord (path_allow r p))"
    "line_safe (allowed_methods ord (path_methods r p))"
    "has_path r p \<Longrightarrow> allowed_methods ord (path_methods r p) \<noteq> []"
proof -
  have ok: "list_all (\<lambda>m. m \<noteq> [] \<and> line_safe m) (path_allow r p)"
    using routes_wf_path(2) [OF assms(2), of p] by (auto simp: path_allow_def list_all_iff)
  then show eq: "allowed_methods ord (path_methods r p) = join_comma (ord (path_allow r p))"
    unfolding path_allow_def
    by (intro allowed_methods_join [OF assms(1)]) (auto simp: list_all_iff path_allow_def)
  have ok': "list_all (\<lambda>m. m \<noteq> []) (ord (path_allow r p))" "list_all line_safe (ord (path_allow r p))"
    using ok assms(1) by (auto simp: list_all_iff iteration_order_simps)
  from ok'(2) show "line_safe (allowed_methods ord (path_methods r p))"
    unfolding eq by (rule join_comma_safe)
  assume "has_path r p"
  then have "ord (path_allow r p) \<noteq> []"
    using routes_wf_path(3) [OF assms(2)] iteration_order_simps(2) [OF assms(1), of "path_allow r p"]
    by (auto simp: path_allow_def)
  then show "allowed_methods ord (path_methods r p) \<noteq> []"
    unfolding eq using join_comma_Nil_iff [OF ok'(1)] by simp
qed

lemma Router_handle_wf:
  assumes "iteration_order ord" "routes_wf r" "Router_handle ord env r req = Inr resp"
  shows "resp_wf resp"
proof (cases "has_path r (req_path req)")
  case False
  with assms(3) show ?thesis by (simp add: Router_handle_cases static_fallback_wf)
next
  case True
  show ?thesis
  proof (cases "route_lookup r (req_path req) (req_method_string req)")
    case None
    with True assms(3) have "resp = method_not_allowed (allowed_methods ord (path_methods r (req_path req)))"
      by (simp add: Router_handle_cases)
    with allowed_methods_safe(2) [OF assms(1,2)] show ?thesis by (simp add: method_not_allowed_wf)
  next
    case (Some h)
    with True assms(3) have "h env req = Inr resp" by (simp add: Router_handle_cases)
    with routes_wf_handler [OF assms(2) Some] show ?thesis by (simp add: handler_safe_def)
  qed
qed

subsection \<open>The default route table\<close>

lemma default_lookup:
  "route_lookup (setup_default_routes (Router_make fs root)) p m =
     map_of (map (\<lambda>(m, p, h). ((p, m), h)) (default_routes root)) (p, m)"
proof -
  have "route_lookup (Router_make fs root) p m = None"
    by (simp add: route_lookup_def path_methods_def Router_make_def)
  moreover have "distinct (map fst (map (\<lambda>(m, p, h). ((p, m), h)) (default_routes root)))"
    by (simp add: default_routes_def)
  ultimately show ?thesis
    unfolding setup_default_routes_def register_routes_def rt.look_fold
    by (simp add: map_of_rev_distinct Router_make_def split: option.splits)
qed

lemma default_has_path:
  "has_path (setup_default_routes (Router_make fs root)) p \<longleftrightarrow>
     p \<in> {''/dashboard'', ''/playground'', ''/lab'', ''/work'', ''/health'', ''/hello'',
          ''/metrics'', ''/echo''}"
  unfolding setup_default_routes_def register_routes_def rt.known_fold
  by (auto simp: default_routes_def has_path_def Router_make_def)

subsection \<open>The work handler\<close>

lemma work_clamp_bounds: "0 \<le> hi \<Longrightarrow> 0 \<le> work_clamp hi v \<and> work_clamp hi v \<le> hi"
  by (simp add: work_clamp_def Let_def)

lemma work_clamp_id: "0 \<le> v \<Longrightarrow> v \<le> hi \<Longrightarrow> work_clamp hi v = v"
  by (simp add: work_clamp_def Let_def)

lemma work_params_plain: "CHR ''?'' \<notin> set path \<Longrightarrow> work_params path = Inr (''100'', ''0'')"
  by (simp add: work_params_def str_find_char_None)

definition default_router :: "filesystem \<Rightarrow> string \<Rightarrow> Router" where
  "default_router fs root = setup_default_routes (Router_make fs root)"

definition sample_dops :: double_ops where
  "sample_dops = \<lparr>d_add = (+), d_div = (div), d_of_int = of_int, d_to_int = sint,
                  d_show = (\<lambda>d. int_to_string (sint d)), d_show_fixed = (\<lambda>n d. int_to_string (sint d))\<rparr>"

definition sample_env :: handler_env where
  "sample_env = \<lparr>he_fs = sample_fs, he_dops = sample_dops, he_now = 10 ^ 10,
                 he_metrics = Metrics_init 0, he_elapsed = 0\<rparr>"

definition sample_request :: "string \<Rightarrow> string \<Rightarrow> HttpRequest" where
  "sample_request m p =
     \<lparr>req_method = string_to_method m, req_method_string = m, req_path = p,
      req_version = ''HTTP/1.1'', req_headers = [], req_body = []\<rparr>"

section \<open>Properties\<close>

text \<open>
  C24: Registering a route changes dispatch exactly at its path and method: a request for that path
  and method runs the handler, a request for another path is answered as before, and on the same
  path another method runs its own handler if it had one and otherwise is answered 405, also
  where the static files answered before.
\<close>

theorem add_route_dispatch:
  "Router_handle ord env (add_route m p h r) req =
     (if req_path req \<noteq> p then Router_handle ord env r req
      else if req_method_string req = m then h env req
      else case route_lookup r p (req_method_string req) of
             Some h' \<Rightarrow> h' env req
           | None \<Rightarrow> Inr (method_not_allowed (allowed_methods ord (AList.update m h (path_methods r p)))))"
  by (auto simp: Router_handle_cases rt.look_add rt.known_add path_methods_add split: option.splits)

text \<open>
  C23: No response splitting: whatever the request, the file system, the metrics and the timing, a
  response of the default routes is well-formed, that is, no header name or value contains a line
  break and \<open>Content-Length\<close> is the length of the body; the same holds of every router obtained by
  adding routes with that property.
\<close>

theorem router_responses_wf:
  assumes "iteration_order ord"
    and "list_all (\<lambda>(m, p, h). m \<noteq> [] \<and> line_safe m \<and> handler_safe h) rs"
    and "Router_handle ord env (register_routes rs (setup_default_routes (Router_make fs root))) req
           = Inr resp"
  shows "resp_wf resp"
  using Router_handle_wf [OF assms(1) register_routes_wf [OF default_routes_wf [OF Router_make_wf] assms(2)]
      assms(3)] .

theorem router_responses_wf_witness:
  "resp_wf (method_not_allowed ''POST'')"
proof (rule router_responses_wf [of "\<lambda>ks. ks" "[]" sample_env sample_fs "''/srv''"
      "sample_request ''GET'' ''/echo''"])
  show "Router_handle (\<lambda>ks. ks) sample_env
          (register_routes [] (setup_default_routes (Router_make sample_fs ''/srv'')))
          (sample_request ''GET'' ''/echo'') = Inr (method_not_allowed ''POST'')"
    by code_simp
qed simp_all

text \<open>
  A request for a registered path with a method that is not registered there is answered 405
  with an \<open>Allow\<close> header that lists exactly the registered methods, separated by a comma and a
  space, in the iteration order of the map.
\<close>

lemma method_not_allowed_lists_methods:
  assumes "iteration_order ord" "routes_wf r" "has_path r (req_path req)"
    and "route_lookup r (req_path req) (req_method_string req) = None"
  shows "\<exists>resp ms. Router_handle ord env r req = Inr resp \<and> resp_status resp = METHOD_NOT_ALLOWED \<and>
           mset ms = mset (path_allow r (req_path req)) \<and> req_method_string req \<notin> set ms \<and>
           resp_header resp ''Allow'' = Some (join_comma ms)"
proof -
  let ?ms = "ord (path_allow r (req_path req))"
  have "req_method_string req \<notin> set (path_allow r (req_path req))"
    using assms(4) by (simp add: route_lookup_def path_allow_def map_of_eq_None_iff)
  then have "mset ?ms = mset (path_allow r (req_path req))" "req_method_string req \<notin> set ?ms"
    using assms(1) by (simp_all add: iteration_order_def iteration_order_simps)
  moreover have "resp_header (method_not_allowed (join_comma ?ms)) ''Allow'' = Some (join_comma ?ms)"
    "resp_status (method_not_allowed (join_comma ?ms)) = METHOD_NOT_ALLOWED"
    using allowed_methods_safe(1,3) [OF assms(1,2)] assms(3)
    by (simp_all add: method_not_allowed_def Let_def resp_header_def set_header_def update_conv'
        resp_defs)
  ultimately show ?thesis
    using assms(3,4) allowed_methods_safe(1) [OF assms(1,2)] by (auto simp: Router_handle_cases)
qed

text \<open>
  The default routes answer exactly their eight paths; every other path, in particular every
  path that carries a query string, is answered by the static file handler for GET and HEAD and by
  404 for any other method.
\<close>

lemma default_router_fallback:
  assumes "req_path req \<notin> {''/dashboard'', ''/playground'', ''/lab'', ''/work'', ''/health'',
             ''/hello'', ''/metrics'', ''/echo''}"
  shows "Router_handle ord env (default_router fs root) req =
           (if req_method req = GET \<or> req_method req = HEAD
            then throws_bind (serve (he_fs env) (StaticFileHandler_make fs root) (req_path req)) (\<lambda>f.
                   case f of
                     None \<Rightarrow> Inr (not_found ''Not Found'')
                   | Some resp \<Rightarrow> Inr (if req_method req = HEAD then set_body [] resp else resp))
            else Inr (not_found ''Not Found''))"
proof -
  have "static_handler (default_router fs root) = StaticFileHandler_make fs root"
    by (simp add: default_router_def setup_default_routes_def Router_make_def)
  with assms show ?thesis
    by (auto simp: Router_handle_cases default_router_def default_has_path static_fallback_def
        throws_bind_def split: option.splits sum.splits)
qed

text \<open>
  C37: The work endpoint never uses its query parameters. The only request that reaches
  \<open>work_handler\<close> has the path \<open>/work\<close> itself, since routes are looked up by the whole request target,
  so every such response reports the default delay of 100 ms and a body of 0 KB; a request for
  \<open>/work?delay=...\<close> is looked up as a file.
\<close>

theorem work_ignores_query:
  "(req_path req = ''/work'' \<and> req_method_string req = ''GET'' \<longrightarrow>
      (\<exists>resp. Router_handle ord env (default_router fs root) req = Inr resp \<and>
         resp_status resp = OK \<and> resp_header resp ''X-Work-Delay'' = Some ''100'' \<and>
         resp_body resp = work_json 100 (d_show_fixed (he_dops env) 1 (he_elapsed env)) 0)) \<and>
   (\<forall>query. req_path req = ''/work?'' @ query \<longrightarrow>
      Router_handle ord env (default_router fs root) req =
        static_fallback env (default_router fs root) req)"
proof -
  have lk: "route_lookup (setup_default_routes (Router_make fs root)) ''/work'' ''GET'' = Some work_handler"
    unfolding default_lookup by (simp add: default_routes_def)
  have wp: "work_params ''/work'' = Inr (''100'', ''0'')" by (rule work_params_plain) simp
  have ds: "work_delay_ms ''100'' = 100" "work_body_kb ''0'' = 0" "int_to_string 100 = ''100''"
    by code_simp+
  show ?thesis
    by (auto simp: Router_handle_cases lk default_router_def default_has_path
        work_handler_def wp ds Let_def resp_header_def resp_defs HttpResponse_ok_def update_conv')
qed

theorem work_ignores_query_witness:
  "\<exists>resp. Router_handle (\<lambda>ks. ks) sample_env (default_router sample_fs ''/srv'')
       (sample_request ''GET'' ''/work'') = Inr resp \<and>
     resp_status resp = OK \<and> resp_header resp ''X-Work-Delay'' = Some ''100''"
  using work_ignores_query [of "sample_request ''GET'' ''/work''" "\<lambda>ks. ks" sample_env sample_fs "''/srv''"]
  by (auto simp: sample_request_def)

text \<open>
  Whatever text the parameters of the work endpoint hold, the thread sleeps between 0 and
  30000 ms and reports between 0 and 10240 KB; a decimal number within those bounds is taken as it is.
\<close>

lemma work_parameters_bounded:
  "0 \<le> work_delay_ms s \<and> work_delay_ms s \<le> 30000 \<and> 0 \<le> work_body_kb s \<and> work_body_kb s \<le> 10240 \<and>
   (\<forall>n. n \<le> 30000 \<longrightarrow> work_delay_ms (nat_to_string n) = int n)"
proof -
  have "stoi (nat_to_string n) = Inr (int n)" if "n \<le> 30000" for n
    using that by (simp add: stoi_nat)
  then show ?thesis
    by (simp add: work_delay_ms_def work_body_kb_def work_clamp_bounds stoi_or_def work_clamp_id)
qed

text \<open>
  The value of \<open>body=\<close> is cut one character too late: the handler skips six characters after a
  key of five, so of a value \<open>v\<close> at the end of the query it reads all but the first character, and
  for an empty value the call of \<open>substr\<close> throws \<open>out_of_range\<close>.
\<close>

lemma work_body_off_by_one:
  assumes "CHR ''&'' \<notin> set v" "length v \<le> npos"
  shows "work_param (''body='' @ v) ''body='' ''0'' = (if v = [] then Inl Out_of_range else Inr (tl v))"
proof -
  have f: "str_find ''body='' (''body='' @ v) = Some 0" by (simp only: str_find_zero_iff prefixI)
  have a: "str_find ''&'' (''body='' @ v) = None"
    by (rule str_find_char_None) (use assms in simp)
  have "work_param (''body='' @ v) ''body='' ''0'' = substr (''body='' @ v) 6 npos"
    unfolding work_param_def f option.case str_find_from_0 a by simp
  then show ?thesis using assms(2) by (cases v) (simp_all add: substr_def)
qed

end
