(* ===== verification/MetricsReport.thy ===== *)
theory MetricsReport
  imports HeaderFields Router
begin

text \<open>
  Reading the report of \<open>Metrics::to_json\<close> back. The reader is the specification: it cuts the text at
  line feeds and takes from each line of the form \<open>"key": value,\<close> its key and its value. It recovers all
  fields of the report and, with \<open>stoull\<close>, the values of all counters, at their full width.
\<close>

section \<open>Specification: a reader for the report\<close>

abbreviation QUOTE :: char where "QUOTE \<equiv> CHR 0x22"

definition json_field :: "string \<Rightarrow> (string \<times> string) list" where
  "json_field l =
     (if prefix (''  '' @ [QUOTE]) l
      then let key = takeWhile (\<lambda>c. c \<noteq> QUOTE) (drop 3 l)
           in [(key, takeWhile (\<lambda>c. c \<noteq> CHR '','') (drop (length key + 6) l))]
      else [])"

definition json_fields :: "string \<Rightarrow> (string \<times> string) list" where
  "json_fields s = concat (map json_field (split_lines s))"

definition json_u64 :: "string \<Rightarrow> string \<Rightarrow> nat option" where
  "json_u64 s name =
     (case map_of (json_fields s) name of
        None \<Rightarrow> None
      | Some v \<Rightarrow> (case stoull v of Inl _ \<Rightarrow> None | Inr n \<Rightarrow> Some n))"

text \<open>The layout of the report, over an arbitrary list of fields.\<close>

fun fields_text :: "(string \<times> string) list \<Rightarrow> string" where
  "fields_text [] = []"
| "fields_text [(k, v)] = json_line k v @ [LF]"
| "fields_text ((k, v) # fs) = json_line k v @ '','' @ [LF] @ fields_text fs"

definition json_safe :: "string \<Rightarrow> bool" where
  "json_safe s = (LF \<notin> set s \<and> CHR '','' \<notin> set s)"

definition report_ok :: "(string \<times> string) list \<Rightarrow> bool" where
  "report_ok fs = list_all (\<lambda>(k, v). json_safe k \<and> QUOTE \<notin> set k \<and> json_safe v) fs"

section \<open>Lemmas\<close>

lemma json_fields_line: "LF \<notin> set l \<Longrightarrow> json_fields (l @ LF # r) = json_field l @ json_fields r"
  by (simp add: json_fields_def split_lines_line)

lemma json_field_line:
  assumes "QUOTE \<notin> set k" "json_safe v" "tail = [] \<or> tail = '',''"
  shows "json_field (json_line k v @ tail) = [(k, v)]"
proof -
  have k: "takeWhile (\<lambda>c. c \<noteq> QUOTE) (k @ QUOTE # r) = k" for r
    using assms(1) by (auto simp: takeWhile_append)
  have "\<forall>c \<in> set v. c \<noteq> CHR '',''" using assms(2) by (auto simp: json_safe_def)
  then have "takeWhile (\<lambda>c. c \<noteq> CHR '','') (v @ tail) = v @ takeWhile (\<lambda>c. c \<noteq> CHR '','') tail"
    by (simp add: takeWhile_append2)
  then have v: "takeWhile (\<lambda>c. c \<noteq> CHR '','') (v @ tail) = v" using assms(3) by auto
  have "drop (length k + 6) (json_line k v @ tail) = v @ tail" by (simp add: json_line_def numeral_eq_Suc)
  then show ?thesis by (simp add: json_field_def json_line_def k v Let_def)
qed

lemma json_line_safe: "LF \<notin> set k \<Longrightarrow> LF \<notin> set v \<Longrightarrow> LF \<notin> set (json_line k v)"
  by (simp add: json_line_def)

lemma json_fields_text: "report_ok fs \<Longrightarrow> json_fields (fields_text fs @ ''}'') = fs"
proof (induction fs rule: fields_text.induct)
  case 1
  show ?case by code_simp
next
  case (2 k v)
  then have "LF \<notin> set (json_line k v)" by (simp add: report_ok_def json_safe_def json_line_safe)
  moreover have "json_field (json_line k v) = [(k, v)]"
    using 2 json_field_line [of k v "[]"] by (simp add: report_ok_def)
  moreover have "json_fields ''}'' = []" by code_simp
  ultimately show ?case by (simp add: json_fields_line)
next
  case (3 k v f fs)
  then have "LF \<notin> set (json_line k v @ '','')" by (simp add: report_ok_def json_safe_def json_line_safe)
  from json_fields_line [OF this] json_field_line [of k v "'',''"] 3 show ?case
    by (simp add: report_ok_def)
qed

lemma json_safe_nat [simp]: "json_safe (nat_to_string n)"
proof -
  have "\<not> is_digit LF" "\<not> is_digit (CHR '','')" by code_simp+
  with nat_to_string_digits [of n] show ?thesis unfolding json_safe_def by blast
qed

lemma json_safe_int [simp]: "json_safe (int_to_string i)"
  using json_safe_nat by (auto simp: json_safe_def int_to_string_def)

definition report :: "double_ops \<Rightarrow> int \<Rightarrow> Metrics \<Rightarrow> (string \<times> string) list" where
  "report dops now m =
     (let up = duration_cast_seconds (now - start_time m) in
      [(''total_requests'', u64_str (total_requests m)), (''successful_requests'', u64_str (successful_requests m)),
       (''client_errors'', u64_str (client_errors m)), (''server_errors'', u64_str (server_errors m)),
       (''active_connections'', int_to_string (sint (active_connections m))),
       (''peak_connections'', u64_str (peak_connections m)), (''total_bytes_sent'', u64_str (total_bytes_sent m)),
       (''average_latency_ms'', d_show dops
          (if latency_count m > 0
           then d_div dops (total_latency_ms m) (d_of_int dops (uint (latency_count m))) else 0)),
       (''requests_per_second'', d_show_fixed dops 2
          (if up > 0 then d_div dops (d_of_int dops (uint (total_requests m))) (d_of_int dops up) else 0)),
       (''uptime_seconds'', int_to_string up), (''worker_threads'', u64_str (m_thread_count m)),
       (''active_workers'', u64_str (m_active_workers m)), (''idle_workers'', u64_str (idle_workers_json m)),
       (''queue_size'', u64_str (m_queue_size m)), (''queue_capacity'', u64_str (m_queue_capacity m))])"

lemma to_json_report: "to_json dops now m = ''{'' @ [LF] @ fields_text (report dops now m) @ ''}''"
  by (simp add: to_json_def report_def Let_def)

lemma json_fields_report:
  assumes "\<And>x. json_safe (d_show dops x)" "\<And>n x. json_safe (d_show_fixed dops n x)"
  shows "json_fields (to_json dops now m) = report dops now m"
proof -
  have "report_ok (report dops now m)"
    by (simp add: report_ok_def report_def Let_def assms u64_str_def) (simp add: json_safe_def)
  moreover have "json_fields (''{'' @ LF # r) = json_fields r" for r
    using json_fields_line [of "''{''" r] by (simp add: json_field_def)
  ultimately show ?thesis by (simp add: to_json_report json_fields_text)
qed

lemma stoull_u64 [simp]: "stoull (u64_str w) = Inr (unat w)"
  using stoull_nat [of "unat w"] unsigned_less [of w] by (simp add: u64_str_def)

lemma idle_workers_monus: "unat (idle_workers_json m) = unat (m_thread_count m) - unat (m_active_workers m)"
  by (simp add: idle_workers_json_def unat_sub word_le_nat_alt word_less_nat_alt)

section \<open>Properties\<close>

text \<open>
  C32: The report is faithful: if floating point numbers are printed without line feeds and commas, a reader of
  the JSON report recovers every counter and gauge exactly, at its full width, the number of active
  connections with its sign, and as idle workers the threads that are not active, or none when more
  are reported active than exist; the uptime is the whole seconds since the start.
\<close>

theorem metrics_report_roundtrip:
  assumes "\<And>x. json_safe (d_show dops x)" "\<And>n x. json_safe (d_show_fixed dops n x)"
  shows "map (json_u64 (to_json dops now m))
           [''total_requests'', ''successful_requests'', ''client_errors'', ''server_errors'', ''peak_connections'',
            ''total_bytes_sent'', ''worker_threads'', ''active_workers'', ''queue_size'', ''queue_capacity''] =
         map (\<lambda>f. Some (unat (f m)))
           [total_requests, successful_requests, client_errors, server_errors, peak_connections,
            total_bytes_sent, m_thread_count, m_active_workers, m_queue_size, m_queue_capacity] \<and>
         map_of (json_fields (to_json dops now m)) ''active_connections'' =
           Some (int_to_string (sint (active_connections m))) \<and>
         map_of (json_fields (to_json dops now m)) ''uptime_seconds'' = 
           Some (int_to_string (sgn (now - start_time m) * (\<bar>now - start_time m\<bar> div 10 ^ 9))) \<and>
         json_u64 (to_json dops now m) ''idle_workers'' =
           Some (unat (m_thread_count m) - unat (m_active_workers m))"
  by (simp add: json_u64_def json_fields_report [OF assms] report_def Let_def idle_workers_monus duration_cast_seconds_def)

theorem metrics_report_roundtrip_witness:
  "\<exists>dops. json_u64 (to_json dops 5 ((Metrics_init 0)\<lparr>total_requests := - 1\<rparr>)) ''total_requests'' =
      Some (2 ^ 64 - 1)"
proof -
  have "json_safe (d_show sample_dops x)" "json_safe (d_show_fixed sample_dops n x)" for x n
    by (simp_all add: sample_dops_def)
  from metrics_report_roundtrip [of sample_dops 5 "(Metrics_init 0)\<lparr>total_requests := - 1\<rparr>", OF this]
  have "json_u64 (to_json sample_dops 5 ((Metrics_init 0)\<lparr>total_requests := - 1\<rparr>)) ''total_requests'' =
      Some (unat (- 1 :: u64))" by simp
  moreover have "unat (- 1 :: u64) = 2 ^ 64 - 1" by code_simp
  ultimately show ?thesis by metis
qed

end
