(* ===== verification/Logger.thy ===== *)
theory Logger
  imports Prelude
begin

text \<open>
  Model of \<open>include/server/logger.hpp\<close>. The logger's state is its level, its file stream (the path it
  has open, and its fail bit), and the outside world it writes to: standard output and the contents of
  files. The broken-down local time and the thread id of a call are arguments, since they come from the
  clock and the scheduler; \<open>timestamp\<close> prints the time as \<open>strftime\<close> does with the format of the source.
  Whether a path can be opened is an argument of \<open>enable_file_output\<close>.
\<close>

section \<open>Data and operations\<close>

datatype LogLevel = LOG_DEBUG | LOG_INFO | LOG_WARN | LOG_ERROR

fun level_int :: "LogLevel \<Rightarrow> nat" where
  "level_int LOG_DEBUG = 0"
| "level_int LOG_INFO = 1"
| "level_int LOG_WARN = 2"
| "level_int LOG_ERROR = 3"

instantiation LogLevel :: linorder
begin

definition less_eq_LogLevel :: "LogLevel \<Rightarrow> LogLevel \<Rightarrow> bool" where
  "less_eq_LogLevel a b = (level_int a \<le> level_int b)"

definition less_LogLevel :: "LogLevel \<Rightarrow> LogLevel \<Rightarrow> bool" where
  "less_LogLevel a b = (level_int a < level_int b)"

instance
proof
  fix a b :: LogLevel
  show "a \<le> b \<Longrightarrow> b \<le> a \<Longrightarrow> a = b"
    by (cases a; cases b) (simp_all add: less_eq_LogLevel_def)
qed (auto simp: less_eq_LogLevel_def less_LogLevel_def)

end

record Logger =
  log_level :: LogLevel
  log_file :: "string option"
  log_file_fail :: bool
  log_stdout :: string
  log_disk :: "string \<Rightarrow> string"

definition Logger_init :: "(string \<Rightarrow> string) \<Rightarrow> Logger" where
  "Logger_init disk =
     \<lparr>log_level = LOG_INFO, log_file = None, log_file_fail = False, log_stdout = [], log_disk = disk\<rparr>"

definition set_level :: "LogLevel \<Rightarrow> Logger \<Rightarrow> Logger" where
  "set_level level L = L\<lparr>log_level := level\<rparr>"

fun level_string :: "LogLevel \<Rightarrow> string" where
  "level_string LOG_DEBUG = ''DEBUG''"
| "level_string LOG_INFO = ''INFO''"
| "level_string LOG_WARN = ''WARN''"
| "level_string LOG_ERROR = ''ERROR''"

text \<open>\<open>struct tm\<close> as \<open>localtime_r\<close> fills it; \<open>%Y\<close> is the year, the other conversions have two digits.\<close>

record tm =
  tm_sec :: nat
  tm_min :: nat
  tm_hour :: nat
  tm_mday :: nat
  tm_mon :: nat
  tm_year :: int

definition two_digits :: "nat \<Rightarrow> string" where
  "two_digits n = (if n < 10 then ''0'' @ nat_to_string n else nat_to_string n)"

definition timestamp :: "tm \<Rightarrow> string" where
  "timestamp tm_buf =
     int_to_string (tm_year tm_buf + 1900) @ ''-'' @ two_digits (tm_mon tm_buf + 1) @ ''-'' @
     two_digits (tm_mday tm_buf) @ '' '' @ two_digits (tm_hour tm_buf) @ '':'' @
     two_digits (tm_min tm_buf) @ '':'' @ two_digits (tm_sec tm_buf)"

definition log_line :: "tm \<Rightarrow> string \<Rightarrow> LogLevel \<Rightarrow> string \<Rightarrow> string" where
  "log_line now thread_id level message =
     timestamp now @ '' ['' @ level_string level @ ''] '' @ ''[Thread '' @ thread_id @ ''] '' @
     message @ [LF]"

definition log_to_file :: "string \<Rightarrow> Logger \<Rightarrow> Logger" where
  "log_to_file formatted L =
     (case log_file L of
        None \<Rightarrow> L
      | Some path \<Rightarrow>
          if log_file_fail L then L
          else L\<lparr>log_disk := (log_disk L)(path := log_disk L path @ formatted)\<rparr>)"

definition Logger_log :: "tm \<Rightarrow> string \<Rightarrow> LogLevel \<Rightarrow> string \<Rightarrow> Logger \<Rightarrow> Logger" where
  "Logger_log now thread_id level message L =
     (if level < log_level L then L
      else let formatted = log_line now thread_id level message
           in log_to_file formatted (L\<lparr>log_stdout := log_stdout L @ formatted\<rparr>))"

definition log_debug :: "tm \<Rightarrow> string \<Rightarrow> string \<Rightarrow> Logger \<Rightarrow> Logger" where
  "log_debug now thread_id msg L = Logger_log now thread_id LOG_DEBUG msg L"

definition log_info :: "tm \<Rightarrow> string \<Rightarrow> string \<Rightarrow> Logger \<Rightarrow> Logger" where
  "log_info now thread_id msg L = Logger_log now thread_id LOG_INFO msg L"

definition log_warn :: "tm \<Rightarrow> string \<Rightarrow> string \<Rightarrow> Logger \<Rightarrow> Logger" where
  "log_warn now thread_id msg L = Logger_log now thread_id LOG_WARN msg L"

definition log_error :: "tm \<Rightarrow> string \<Rightarrow> string \<Rightarrow> Logger \<Rightarrow> Logger" where
  "log_error now thread_id msg L = Logger_log now thread_id LOG_ERROR msg L"

text \<open>\<open>std::ofstream::open\<close> on a stream that is already open fails and leaves the file open; a
  failure sets the fail bit, which makes later insertions do nothing; a success clears it.\<close>

definition enable_file_output :: "(string \<Rightarrow> bool) \<Rightarrow> string \<Rightarrow> Logger \<Rightarrow> Logger" where
  "enable_file_output can_open path L =
     (if log_file L = None \<and> can_open path
      then L\<lparr>log_file := Some path, log_file_fail := False\<rparr>
      else L\<lparr>log_file_fail := True\<rparr>)"

section \<open>Specification\<close>

text \<open>A call is a time, a thread id, a level and a message; the mutex makes calls atomic, so a
  concurrent execution is a sequence of calls.\<close>

type_synonym log_call = "tm \<times> string \<times> LogLevel \<times> string"

definition do_call :: "log_call \<Rightarrow> Logger \<Rightarrow> Logger" where
  "do_call c L = (case c of (ts, tid, level, msg) \<Rightarrow> Logger_log ts tid level msg L)"

definition run_calls :: "log_call list \<Rightarrow> Logger \<Rightarrow> Logger" where
  "run_calls cs L = fold do_call cs L"

definition visible :: "LogLevel \<Rightarrow> log_call list \<Rightarrow> string" where
  "visible threshold cs =
     concat (map (\<lambda>(ts, tid, level, msg). log_line ts tid level msg)
       (filter (\<lambda>(ts, tid, level, msg). threshold \<le> level) cs))"

definition file_open :: "Logger \<Rightarrow> string \<Rightarrow> bool" where
  "file_open L path = (log_file L = Some path \<and> \<not> log_file_fail L)"

section \<open>Lemmas\<close>

lemmas logger_defs = Logger_log_def log_to_file_def do_call_def

lemma visible_simps [simp]:
  "visible th [] = []"
  "visible th ((ts, tid, level, msg) # cs) =
     (if level < th then [] else log_line ts tid level msg) @ visible th cs"
  by (auto simp: visible_def)

lemma do_call_frame [simp]:
  "log_level (do_call c L) = log_level L" "log_file (do_call c L) = log_file L"
  "log_file_fail (do_call c L) = log_file_fail L"
  by (auto simp: logger_defs Let_def split: prod.splits option.splits)

lemma do_call_output:
  "log_stdout (do_call (ts, tid, level, msg) L) =
     log_stdout L @ visible (log_level L) [(ts, tid, level, msg)]"
  "log_disk (do_call (ts, tid, level, msg) L) path =
     log_disk L path @ (if file_open L path then visible (log_level L) [(ts, tid, level, msg)] else [])"
  by (auto simp: logger_defs Let_def file_open_def split: option.splits)

text \<open>
  The log is complete, filtered and in order: after any sequence of calls, what was appended
  to standard output is exactly one line for each message at or above the level, in order, and the
  same text was appended to the log file if one is open and to no other file.
\<close>

lemma run_calls_output:
  "log_stdout (run_calls cs L) = log_stdout L @ visible (log_level L) cs \<and>
   (\<forall>path. log_disk (run_calls cs L) path =
      log_disk L path @ (if file_open L path then visible (log_level L) cs else []))"
proof (induction cs arbitrary: L)
  case (Cons c cs)
  obtain ts tid level msg where c: "c = (ts, tid, level, msg)" by (cases c)
  have fo: "file_open (do_call c L) path = file_open L path" for path by (simp add: file_open_def)
  show ?case
    using Cons [of "do_call c L"] fo by (auto simp: run_calls_def c do_call_output)
qed (simp add: run_calls_def)

subsection \<open>Time stamps\<close>

lemma line_safe_two_digits [simp]: "line_safe (two_digits n)"
  using line_safe_nat [of n] by (simp add: two_digits_def line_safe_def)

lemma timestamp_safe [simp]: "line_safe (timestamp b)"
proof -
  have "line_safe (int_to_string i)" for i using line_safe_nat by (auto simp: int_to_string_def line_safe_def)
  moreover have "line_safe (two_digits n)" for n by simp
  ultimately show ?thesis by (simp add: timestamp_def line_safe_def)
qed

text \<open>The ranges of the fields after \<open>localtime_r\<close>; \<open>tm_year\<close> is an \<open>int\<close>.\<close>

definition tm_ok :: "tm \<Rightarrow> bool" where
  "tm_ok b =
     (tm_sec b \<le> 60 \<and> tm_min b \<le> 59 \<and> tm_hour b \<le> 23 \<and> 1 \<le> tm_mday b \<and> tm_mday b \<le> 31 \<and> tm_mon b \<le> 11 \<and>
      - (2 ^ 31) \<le> tm_year b \<and> tm_year b < 2 ^ 31)"

lemma nat_to_string_length: "0 < k \<Longrightarrow> n < 10 ^ k \<Longrightarrow> length (nat_to_string n) \<le> k"
proof (induction k arbitrary: n)
  case (Suc k)
  show ?case
  proof (cases "n < 10")
    case True
    then show ?thesis by (subst nat_to_string.simps) simp
  next
    case False
    have "n div 10 < 10 ^ k" using Suc.prems(2) by (simp add: less_mult_imp_div_less)
    moreover have "0 < k" using False Suc.prems(2) by (cases k) simp_all
    ultimately show ?thesis using Suc.IH [of "n div 10"] False by (subst nat_to_string.simps) simp
  qed
qed simp

lemma nat_to_string_length_ge: "10 ^ k \<le> n \<Longrightarrow> k < length (nat_to_string n)"
proof (induction k arbitrary: n)
  case 0
  show ?case using nat_to_string_neq_Nil [of n] by (cases "nat_to_string n") simp_all
next
  case (Suc k)
  then have "10 ^ k \<le> n div 10" "\<not> n < 10"
    by (simp_all add: less_eq_div_iff_mult_less_eq ac_simps) (metis Suc.prems leD le_less_trans mult.commute
      one_le_numeral one_le_power mult_le_mono2 nat_mult_1_right power_Suc)
  with Suc.IH [of "n div 10"] show ?case by (subst nat_to_string.simps) simp
qed

lemma two_digits_length: "n < 100 \<Longrightarrow> length (two_digits n) = 2"
proof -
  assume "n < 100"
  moreover have "length (nat_to_string n) = 1" if "n < 10" using that by (subst nat_to_string.simps) simp
  moreover have "length (nat_to_string n) = 2" if "10 \<le> n" "n < 100"
    using nat_to_string_length [of 2 n] nat_to_string_length_ge [of 1 n] that by simp
  ultimately show ?thesis by (auto simp: two_digits_def)
qed

subsection \<open>A second log file, and the buffer of the time stamp\<close>

text \<open>
  Enabling file output a second time silences the log file: the second \<open>open\<close> fails, the
  stream keeps its first file but has its fail bit set, and no later message reaches any file.
\<close>

lemma second_file_output_silences:
  assumes "can_open path"
  shows "log_disk (run_calls cs (enable_file_output can_open path' (enable_file_output can_open path
           (Logger_init disk)))) = disk"
proof -
  have "log_disk (run_calls cs L) = log_disk L" if "log_file_fail L" for L
    using that
  proof (induction cs arbitrary: L)
    case (Cons c cs)
    have "log_disk (do_call c L) = log_disk L"
      using Cons.prems by (auto simp: logger_defs Let_def split: prod.splits option.splits)
    with Cons show ?case by (simp add: run_calls_def)
  qed (simp add: run_calls_def)
  with assms show ?thesis by (simp add: enable_file_output_def Logger_init_def)
qed

text \<open>
  The time stamp always fits its buffer of 32 bytes, terminator included, whatever year the clock
  gives, so \<open>strftime\<close> never fails and leaves the buffer undefined; it holds no line break, and it
  has exactly 19 characters from the year 1000 to the year 9999.
\<close>

lemma timestamp_fits:
  assumes "tm_ok b"
  shows "length (timestamp b) < 32 \<and> line_safe (timestamp b) \<and>
         (if 1000 \<le> tm_year b + 1900 \<and> tm_year b + 1900 \<le> 9999 then length (timestamp b) = 19
          else length (timestamp b) \<le> 26)"
proof -
  let ?y = "tm_year b + 1900"
  have y: "length (int_to_string ?y) \<le> 11"
  proof -
    have "nat ?y < 10 ^ 10" "nat (- ?y) < 10 ^ 10" using assms by (simp_all add: tm_ok_def nat_less_iff zless_nat_eq_int_zless) linarith+
    from nat_to_string_length [OF _ this(1)] nat_to_string_length [OF _ this(2)] show ?thesis
      by (auto simp: int_to_string_def)
  qed
  have y4: "length (int_to_string ?y) = 4" if "1000 \<le> ?y" "?y \<le> 9999"
  proof -
    have "nat ?y < 10 ^ 4" "10 ^ 3 \<le> nat ?y" using that by simp_all
    from nat_to_string_length [OF _ this(1)] nat_to_string_length_ge [OF this(2)] that show ?thesis
      by (simp add: int_to_string_def)
  qed
  have t: "length (timestamp b) = length (int_to_string ?y) + 15"
    using assms by (simp add: timestamp_def two_digits_length tm_ok_def)
  with y y4 show ?thesis by auto
qed

end
