(* ===== verification/SocketCompat.thy ===== *)
theory SocketCompat
  imports Prelude
begin

text \<open>
  Model of \<open>include/server/socket_compat.hpp\<close>, and of the error codes that \<open>src/tcp_server.cpp\<close> tests.
  The sources are compiled for POSIX or for Windows (\<open>_WIN32\<close>); the platform is a parameter of every
  definition whose code differs. \<open>last_socket_error()\<close> is the error code in the result of a failed system
  call. The numbers are those of Linux and of the Windows socket library.
\<close>

datatype platform = Posix | Windows

fun invalid_socket :: "platform \<Rightarrow> int" where
  "invalid_socket Posix = -1"
| "invalid_socket Windows = 2 ^ 64 - 1"

definition EINTR :: int where
  "EINTR = 4"

definition EAGAIN :: int where
  "EAGAIN = 11"

definition WSAEINTR :: int where
  "WSAEINTR = 10004"

definition WSAEWOULDBLOCK :: int where
  "WSAEWOULDBLOCK = 10035"

definition WSAETIMEDOUT :: int where
  "WSAETIMEDOUT = 10060"

text \<open>The codes after which \<open>send_all\<close> and \<open>accept_loop\<close>, and after which \<open>recv_request\<close> repeat the call.\<close>

fun interrupted :: "platform \<Rightarrow> int \<Rightarrow> bool" where
  "interrupted Posix err = (err = EINTR)"
| "interrupted Windows err = (err = WSAEINTR)"

fun recv_retry :: "platform \<Rightarrow> int \<Rightarrow> bool" where
  "recv_retry Posix err = (err = EINTR \<or> err = EAGAIN)"
| "recv_retry Windows err = (err = WSAEINTR \<or> err = WSAEWOULDBLOCK)"

text \<open>The code with which \<open>recv\<close> reports, on each platform, that \<open>SO_RCVTIMEO\<close> has expired.\<close>

fun timeout_error :: "platform \<Rightarrow> int" where
  "timeout_error Posix = EAGAIN"
| "timeout_error Windows = WSAETIMEDOUT"

lemma interrupted_retry: "interrupted plat err \<Longrightarrow> recv_retry plat err"
  by (cases plat) simp_all

lemma timeout_retried: "recv_retry plat (timeout_error plat) \<longleftrightarrow> plat = Posix"
  by (cases plat) (simp_all add: WSAEINTR_def WSAEWOULDBLOCK_def WSAETIMEDOUT_def)

end
