(* ===== verification/Config.thy ===== *)
theory Config
  imports SocketCompat
begin

text \<open>
  Model of \<open>include/server/config.hpp\<close>: the configuration and its parsing from the environment and the
  command line. \<open>getenv\<close> and \<open>hardware_concurrency\<close> are arguments. The casts to \<open>uint16_t\<close> and
  \<open>unsigned int\<close> keep the low bits, so the fields are words; \<open>std::stoul\<close> reads an
  \<open>unsigned long\<close>, of 64 bits on POSIX and of 32 bits on Windows. Parsing either throws (a bad number on the command line is not caught), exits after
  printing the usage text, or returns a configuration.

  \<open>opt\<close> and \<open>apply_opt\<close> are the specification of the command line: a list of settings applied in order.
\<close>

section \<open>Data and operations\<close>

record Config =
  cfg_port :: u16
  cfg_thread_count :: u32
  cfg_queue_capacity :: nat
  cfg_document_root :: string
  cfg_max_header_size :: nat
  cfg_max_body_size :: nat
  cfg_backlog :: int

definition Config_default :: "u32 \<Rightarrow> Config" where
  "Config_default hardware_concurrency =
     \<lparr>cfg_port = 8080, cfg_thread_count = hardware_concurrency, cfg_queue_capacity = 50,
      cfg_document_root = ''public'', cfg_max_header_size = 64 * 1024,
      cfg_max_body_size = 1 * 1024 * 1024, cfg_backlog = 128\<rparr>"

datatype parse_end = Parsed Config | Exited int string

definition print_usage :: "string \<Rightarrow> string" where
  "print_usage program =
     ''Usage: '' @ program @ '' [options]'' @ [LF] @
     ''  --port PORT      Listen port (default: 8080)'' @ [LF] @
     ''  --threads N      Worker thread count (default: hardware concurrency)'' @ [LF] @
     ''  --capacity N     Queue capacity for backpressure (default: 50)'' @ [LF] @
     ''  --root PATH      Document root for static files (default: public)'' @ [LF] @
     ''  --help, -h       Show this message'' @ [LF]"

fun ulong_bits :: "platform \<Rightarrow> nat" where
  "ulong_bits Posix = 64"
| "ulong_bits Windows = 32"

definition stoul :: "platform \<Rightarrow> string \<Rightarrow> nat throws" where
  "stoul plat s =
     (case strto_field s of
        None \<Rightarrow> Inl Invalid_argument
      | Some (neg, m) \<Rightarrow>
          if m > 2 ^ ulong_bits plat - 1 then Inl Out_of_range
          else Inr (if neg then (2 ^ ulong_bits plat - m) mod 2 ^ ulong_bits plat else m))"

definition parse_env :: "platform \<Rightarrow> (string \<Rightarrow> string option) \<Rightarrow> Config \<Rightarrow> Config" where
  "parse_env plat getenv cfg =
     (let cfg1 = (case getenv ''PORT'' of
                    None \<Rightarrow> cfg
                  | Some s \<Rightarrow> (case stoi s of Inl _ \<Rightarrow> cfg | Inr v \<Rightarrow> cfg\<lparr>cfg_port := word_of_int v\<rparr>))
      in case getenv ''QUEUE_CAPACITY'' of
           None \<Rightarrow> cfg1
         | Some s \<Rightarrow> (case stoul plat s of Inl _ \<Rightarrow> cfg1 | Inr v \<Rightarrow> cfg1\<lparr>cfg_queue_capacity := v\<rparr>))"

fun parse_args :: "platform \<Rightarrow> string \<Rightarrow> string list \<Rightarrow> Config \<Rightarrow> parse_end throws" where
  "parse_args plat program [] cfg = Inr (Parsed cfg)"
| "parse_args plat program (arg # rest) cfg =
     (if arg = ''--port'' \<and> rest \<noteq> [] then
        (case stoi (hd rest) of
           Inl e \<Rightarrow> Inl e
         | Inr v \<Rightarrow> parse_args plat program (tl rest) (cfg\<lparr>cfg_port := word_of_int v\<rparr>))
      else if arg = ''--threads'' \<and> rest \<noteq> [] then
        (case stoi (hd rest) of
           Inl e \<Rightarrow> Inl e
         | Inr v \<Rightarrow> parse_args plat program (tl rest) (cfg\<lparr>cfg_thread_count := word_of_int v\<rparr>))
      else if arg = ''--capacity'' \<and> rest \<noteq> [] then
        (case stoul plat (hd rest) of
           Inl e \<Rightarrow> Inl e
         | Inr v \<Rightarrow> parse_args plat program (tl rest) (cfg\<lparr>cfg_queue_capacity := v\<rparr>))
      else if arg = ''--root'' \<and> rest \<noteq> [] then
        parse_args plat program (tl rest) (cfg\<lparr>cfg_document_root := hd rest\<rparr>)
      else if arg = ''--help'' \<or> arg = ''-h'' then Inr (Exited 0 (print_usage program))
      else parse_args plat program rest cfg)"

definition fix_thread_count :: "Config \<Rightarrow> Config" where
  "fix_thread_count cfg =
     (if cfg_thread_count cfg = 0 then cfg\<lparr>cfg_thread_count := 2\<rparr> else cfg)"

definition Config_parse ::
    "platform \<Rightarrow> u32 \<Rightarrow> (string \<Rightarrow> string option) \<Rightarrow> string \<Rightarrow> string list \<Rightarrow> parse_end throws" where
  "Config_parse plat hardware_concurrency getenv program args =
     throws_bind (parse_args plat program args (parse_env plat getenv (Config_default hardware_concurrency)))
       (\<lambda>r. case r of
          Exited code out \<Rightarrow> Inr (Exited code out)
        | Parsed cfg \<Rightarrow> Inr (Parsed (fix_thread_count cfg)))"

section \<open>Specification\<close>

datatype opt = Opt_port nat | Opt_threads nat | Opt_capacity nat | Opt_root string

fun render_opt :: "opt \<Rightarrow> string list" where
  "render_opt (Opt_port n) = [''--port'', nat_to_string n]"
| "render_opt (Opt_threads n) = [''--threads'', nat_to_string n]"
| "render_opt (Opt_capacity n) = [''--capacity'', nat_to_string n]"
| "render_opt (Opt_root p) = [''--root'', p]"

fun opt_ok :: "platform \<Rightarrow> opt \<Rightarrow> bool" where
  "opt_ok plat (Opt_port n) = (n < 2 ^ 31)"
| "opt_ok plat (Opt_threads n) = (n < 2 ^ 31)"
| "opt_ok plat (Opt_capacity n) = (n < 2 ^ ulong_bits plat)"
| "opt_ok plat (Opt_root p) = True"

fun apply_opt :: "opt \<Rightarrow> Config \<Rightarrow> Config" where
  "apply_opt (Opt_port n) cfg = cfg\<lparr>cfg_port := of_nat n\<rparr>"
| "apply_opt (Opt_threads n) cfg = cfg\<lparr>cfg_thread_count := of_nat n\<rparr>"
| "apply_opt (Opt_capacity n) cfg = cfg\<lparr>cfg_queue_capacity := n\<rparr>"
| "apply_opt (Opt_root p) cfg = cfg\<lparr>cfg_document_root := p\<rparr>"

definition env_opts :: "nat option \<Rightarrow> nat option \<Rightarrow> opt list" where
  "env_opts port cap =
     (case port of None \<Rightarrow> [] | Some n \<Rightarrow> [Opt_port n]) @ (case cap of None \<Rightarrow> [] | Some n \<Rightarrow> [Opt_capacity n])"

section \<open>Lemmas\<close>

lemma stoul_nat: "n < 2 ^ ulong_bits plat \<Longrightarrow> stoul plat (nat_to_string n) = Inr n"
  using strto_field_digits [OF nat_to_string_neq_Nil nat_to_string_digits, of "[]" n]
  by (simp add: stoul_def)

lemma parse_env_opts:
  assumes "getenv ''PORT'' = map_option nat_to_string port"
    and "getenv ''QUEUE_CAPACITY'' = map_option nat_to_string cap"
    and "list_all (opt_ok plat) (env_opts port cap)"
  shows "parse_env plat getenv cfg = fold apply_opt (env_opts port cap) cfg"
  using assms by (cases port; cases cap) (simp_all add: parse_env_def env_opts_def stoi_nat stoul_nat)

lemma parse_args_opt:
  "opt_ok plat x \<Longrightarrow> parse_args plat program (render_opt x @ rest) cfg = parse_args plat program rest (apply_opt x cfg)"
  by (cases x) (simp_all add: stoi_nat stoul_nat)

lemma parse_args_opts:
  "list_all (opt_ok plat) xs \<Longrightarrow>
     parse_args plat program (concat (map render_opt xs) @ rest) cfg =
     parse_args plat program rest (fold apply_opt xs cfg)"
proof (induction xs arbitrary: cfg)
  case (Cons x xs)
  then show ?case by (simp add: parse_args_opt)
qed simp

lemma parse_args_bad:
  assumes "stoi s = Inl e" "flag = ''--port'' \<or> flag = ''--threads''"
  shows "parse_args plat program (flag # s # rest) cfg = Inl e"
  using assms(2) by (rule disjE) (simp_all add: assms(1))

lemma parse_env_bad_port:
  assumes "getenv ''PORT'' = Some s" "stoi s = Inl e"
  shows "cfg_port (parse_env plat getenv cfg) = cfg_port cfg"
  by (simp add: parse_env_def assms split: option.split sum.split)

definition cfg_limits :: "Config \<Rightarrow> nat \<times> nat \<times> int" where
  "cfg_limits c = (cfg_max_header_size c, cfg_max_body_size c, cfg_backlog c)"

lemma cfg_limits_frame [simp]:
  "cfg_limits (c\<lparr>cfg_port := p\<rparr>) = cfg_limits c"
  "cfg_limits (c\<lparr>cfg_thread_count := n\<rparr>) = cfg_limits c"
  "cfg_limits (c\<lparr>cfg_queue_capacity := q\<rparr>) = cfg_limits c"
  "cfg_limits (c\<lparr>cfg_document_root := d\<rparr>) = cfg_limits c"
  by (simp_all add: cfg_limits_def)

lemma parse_env_limits: "cfg_limits (parse_env plat getenv cfg) = cfg_limits cfg"
  by (simp add: parse_env_def split: option.split sum.split)

lemma parse_args_limits:
  "parse_args plat program args c = Inr (Parsed c') \<Longrightarrow> cfg_limits c' = cfg_limits c"
proof (induction plat program args c rule: parse_args.induct)
  case (2 plat program arg rest cfg)
  note r = 2(6) [unfolded parse_args.simps(2)]
  show ?case
  proof (cases "rest = []")
    case True
    with r 2(5) show ?thesis by (simp split: if_split_asm)
  next
    case False
    from r 2(1-5) False show ?thesis
      by (simp only: simp_thms if_True split: if_split_asm sum.split_asm) simp_all
  qed
qed simp

lemma parse_args_exit_code:
  "parse_args plat program args c = Inr (Exited code out) \<Longrightarrow> code = 0"
proof (induction plat program args c rule: parse_args.induct)
  case (2 plat program arg rest cfg)
  note r = 2(6) [unfolded parse_args.simps(2)]
  show ?case
  proof (cases "rest = []")
    case True
    with r 2(5) show ?thesis by (simp split: if_split_asm)
  next
    case False
    from r 2(1-5) False show ?thesis
      by (simp only: simp_thms if_True split: if_split_asm sum.split_asm) simp_all
  qed
qed simp

lemma parse_exit_code:
  assumes "Config_parse plat hc getenv program args = Inr (Exited code out)"
  shows "code = 0"
proof -
  from assms obtain r where "parse_args plat program args (parse_env plat getenv (Config_default hc)) = Inr r"
    "(case r of Exited code out \<Rightarrow> Inr (Exited code out) | Parsed cfg \<Rightarrow> Inr (Parsed (fix_thread_count cfg)))
       = (Inr (Exited code out) :: parse_end throws)"
    unfolding Config_parse_def throws_bind_Inr_iff by blast
  then show ?thesis using parse_args_exit_code by (cases r) simp_all
qed

lemma parsed_case:
  "(case r of Exited code out \<Rightarrow> Inr (Exited code out) | Parsed cfg \<Rightarrow> Inr (Parsed (f cfg))) =
     (Inr (Parsed cfg) :: parse_end throws) \<longleftrightarrow> (\<exists>c. r = Parsed c \<and> cfg = f c)"
  by (cases r) auto

lemma fix_thread_count_pos: "cfg_thread_count (fix_thread_count cfg) \<noteq> 0"
  by (simp add: fix_thread_count_def)

section \<open>Properties\<close>

text \<open>
  C38: The command line is read as it is written: for any sequence of settings, with port and thread
  numbers below \<open>2 ^ 31\<close> and capacities that fit an \<open>unsigned long\<close> of the platform (below \<open>2 ^ 64\<close> on
  POSIX, \<open>2 ^ 32\<close> on Windows), parsing gives the environment's configuration with the settings applied
  in order, so the command line overrides the environment and the last setting of a field wins; port
  numbers are taken modulo \<open>2 ^ 16\<close>; and a thread count of 0 becomes 2. The environment's configuration
  is the defaults with the numbers in \<open>PORT\<close> and \<open>QUEUE_CAPACITY\<close> applied, where they are set.
\<close>

theorem config_command_line:
  assumes "list_all (opt_ok plat) xs"
  shows "Config_parse plat hc getenv program (concat (map render_opt xs)) =
           Inr (Parsed (fix_thread_count
             (fold apply_opt xs (parse_env plat getenv (Config_default hc))))) \<and>
         (\<forall>port cap. getenv ''PORT'' = map_option nat_to_string port \<longrightarrow>
            getenv ''QUEUE_CAPACITY'' = map_option nat_to_string cap \<longrightarrow>
            list_all (opt_ok plat) (env_opts port cap) \<longrightarrow>
            parse_env plat getenv (Config_default hc) = fold apply_opt (env_opts port cap) (Config_default hc))"
  using parse_args_opts [OF assms, of program "[]"] parse_env_opts by (simp add: Config_parse_def)

theorem config_command_line_witness:
  "Config_parse Windows 8 (\<lambda>v. if v = ''PORT'' then Some ''9000'' else None) ''server''
       [''--capacity'', ''7'', ''--threads'', ''0''] =
     Inr (Parsed ((Config_default 8)\<lparr>cfg_port := 9000, cfg_queue_capacity := 7, cfg_thread_count := 2\<rparr>))"
proof -
  let ?env = "\<lambda>v. if v = ''PORT'' then Some ''9000'' else None"
  have n: "nat_to_string 9000 = ''9000''" "nat_to_string 7 = ''7''" "nat_to_string 0 = ''0''"
    by code_simp+
  then have "?env ''PORT'' = map_option nat_to_string (Some 9000)"
    "?env ''QUEUE_CAPACITY'' = map_option nat_to_string None"
    "list_all (opt_ok Windows) (env_opts (Some 9000) None)" by (simp_all add: env_opts_def)
  then have "parse_env Windows ?env (Config_default 8) =
      fold apply_opt (env_opts (Some 9000) None) (Config_default 8)"
    using config_command_line [of Windows "[]" 8 ?env "''server''"] by simp
  then show ?thesis
    using config_command_line [of Windows "[Opt_capacity 7, Opt_threads 0]" 8 ?env "''server''"] n
    by (simp add: env_opts_def fix_thread_count_def Config_default_def)
qed

text \<open>
  The configuration the server starts with always has at least one worker thread and the fixed
  limits of 64 KB for the header, 1 MB for the body and a backlog of 128, whatever the environment
  and the arguments.
\<close>

lemma config_limits:
  assumes "Config_parse plat hc getenv program args = Inr (Parsed cfg)"
  shows "1 \<le> unat (cfg_thread_count cfg) \<and> cfg_max_header_size cfg = 65536 \<and>
         cfg_max_body_size cfg = 1048576 \<and> cfg_backlog cfg = 128"
proof -
  have "cfg_limits (parse_env plat getenv (Config_default hc)) = (65536, 1048576, 128)"
    by (simp add: parse_env_limits) (simp add: cfg_limits_def Config_default_def)
  moreover obtain c where "parse_args plat program args (parse_env plat getenv (Config_default hc)) = Inr (Parsed c)"
    "cfg = fix_thread_count c"
    using assms unfolding Config_parse_def throws_bind_Inr_iff by (metis parsed_case)
  moreover have "cfg_limits (fix_thread_count c) = cfg_limits c" by (simp add: fix_thread_count_def)
  ultimately have "cfg_limits cfg = (65536, 1048576, 128)" "cfg_thread_count cfg \<noteq> 0"
    using fix_thread_count_pos parse_args_limits by auto
  then show ?thesis by (simp add: cfg_limits_def Suc_le_eq unat_gt_0)
qed

text \<open>
  Values of the environment never make parsing fail: an invalid or out-of-range \<open>PORT\<close> or
  \<open>QUEUE_CAPACITY\<close> leaves the default. On the command line an invalid number is not caught: parsing
  throws, whatever precedes it among valid settings, before the server is created.
\<close>

lemma config_bad_numbers:
  assumes "list_all (opt_ok plat) xs" "stoi s = Inl e" "flag = ''--port'' \<or> flag = ''--threads''"
  shows "Config_parse plat hc getenv program (concat (map render_opt xs) @ flag # s # rest) = Inl e \<and>
         (getenv ''PORT'' = Some s \<longrightarrow> cfg_port (parse_env plat getenv (Config_default hc)) = 8080)"
proof -
  have "parse_args plat program (concat (map render_opt xs) @ flag # s # rest) cfg = Inl e" for cfg
    by (simp only: parse_args_opts [OF assms(1)] parse_args_bad [OF assms(2,3)])
  moreover have "cfg_port (Config_default hc) = 8080" by (simp add: Config_default_def)
  ultimately show ?thesis
    using parse_env_bad_port [OF _ assms(2), of getenv plat "Config_default hc"]
    by (intro conjI impI) (simp_all only: Config_parse_def throws_bind_simps)
qed

end
