(* ===== verification/SocketIO.thy ===== *)
theory SocketIO
  imports HttpParser Config SocketCompat
begin

text \<open>
  Model of the socket loops of \<open>src/tcp_server.cpp\<close>: \<open>send_all\<close> and \<open>recv_request\<close>, on
  either platform. The kernel is a script: the list of results that the successive
  calls of \<open>send\<close> or \<open>recv\<close> on the connection give. A loop that has used up its script is still waiting,
  which is the value \<open>None\<close>; so a theorem that a loop returns says that its result is \<open>Some\<close>.

  A result of \<open>send\<close> is the pair of the return value and \<open>errno\<close>; a result of \<open>recv\<close> is either the
  bytes received (none at the end of the stream) or the \<open>errno\<close> of a failure.
\<close>

section \<open>Data and operations\<close>

type_synonym send_result = "int \<times> int"

datatype recv_result = Received string | Recv_error int

fun send_all :: "platform \<Rightarrow> send_result list \<Rightarrow> string \<Rightarrow> nat \<Rightarrow> (bool \<times> string) option" where
  "send_all plat [] data total_sent = (if total_sent < length data then None else Some (True, []))"
| "send_all plat ((sent, err) # script) data total_sent =
     (if total_sent < length data then
        (if sent \<le> 0 then
           (if interrupted plat err then send_all plat script data total_sent else Some (False, []))
         else
           (case send_all plat script data (total_sent + nat sent) of
              None \<Rightarrow> None
            | Some (ok, wire) \<Rightarrow> Some (ok, take (nat sent) (drop total_sent data) @ wire)))
      else Some (True, []))"

text \<open>The bytes that the kernel has taken so far, also while a call of \<open>send\<close> still waits.\<close>

fun send_progress :: "platform \<Rightarrow> send_result list \<Rightarrow> string \<Rightarrow> nat \<Rightarrow> string" where
  "send_progress plat [] data total_sent = []"
| "send_progress plat ((sent, err) # script) data total_sent =
     (if total_sent < length data then
        (if sent \<le> 0 then
           (if interrupted plat err then send_progress plat script data total_sent else [])
         else take (nat sent) (drop total_sent data) @ send_progress plat script data (total_sent + nat sent))
      else [])"

definition declared_length :: "string \<Rightarrow> nat option throws" where
  "declared_length request =
     (case str_find ''content-length:'' (lower_str request) of
        None \<Rightarrow> Inr None
      | Some cl_pos \<Rightarrow>
          (case str_find_from '':'' request cl_pos of
             None \<Rightarrow> Inr None
           | Some colon_pos \<Rightarrow>
               (case str_find_from crlf request colon_pos of
                  None \<Rightarrow> Inr None
                | Some eol_pos \<Rightarrow>
                    throws_bind (substr request (colon_pos + 1) (size_sub (size_sub eol_pos colon_pos) 1))
                      (\<lambda>cl_raw. throws_bind (left_trim cl_raw) (\<lambda>cl_value.
                         Inr (case stoull cl_value of Inl _ \<Rightarrow> None | Inr n \<Rightarrow> Some n))))))"

fun recv_body :: "nat \<Rightarrow> nat \<Rightarrow> nat \<Rightarrow> recv_result list \<Rightarrow> string \<Rightarrow> string option" where
  "recv_body header_size content_length max_body_size [] request =
     (let body_so_far = length request - header_size in
      if body_so_far < content_length \<and> body_so_far < max_body_size then None else Some request)"
| "recv_body header_size content_length max_body_size (r # script) request =
     (let body_so_far = length request - header_size in
      if body_so_far < content_length \<and> body_so_far < max_body_size then
        (case r of
           Recv_error err \<Rightarrow> Some request
         | Received d \<Rightarrow>
             if d = [] then Some request
             else recv_body header_size content_length max_body_size script (request @ d))
      else Some request)"

fun recv_request :: "platform \<Rightarrow> Config \<Rightarrow> recv_result list \<Rightarrow> string \<Rightarrow> string throws option" where
  "recv_request plat cfg [] request = None"
| "recv_request plat cfg (Recv_error err # script) request =
     (if recv_retry plat err then recv_request plat cfg script request else Some (Inr request))"
| "recv_request plat cfg (Received d # script) request =
     (if d = [] then Some (Inr request)
      else
        let request = request @ d in
        case str_find crlfcrlf request of
          Some header_end \<Rightarrow>
            (case declared_length request of
               Inl e \<Rightarrow> Some (Inl e)
             | Inr None \<Rightarrow> Some (Inr request)
             | Inr (Some content_length) \<Rightarrow>
                 map_option Inr
                   (recv_body (header_end + 4) content_length (cfg_max_body_size cfg) script request))
        | None \<Rightarrow>
            if length request > cfg_max_header_size cfg then Some (Inr request)
            else recv_request plat cfg script request)"

section \<open>Specification\<close>

definition recv_buffer :: nat where
  "recv_buffer = 4095"

definition recv_ok :: "recv_result \<Rightarrow> bool" where
  "recv_ok r = (case r of Received d \<Rightarrow> length d \<le> recv_buffer | Recv_error _ \<Rightarrow> True)"

definition sent_bytes :: "send_result list \<Rightarrow> nat" where
  "sent_bytes script = sum_list (map (\<lambda>(sent, err). nat sent) script)"

section \<open>Lemmas\<close>

subsection \<open>Sending\<close>

lemma send_all_wire:
  "send_all plat script data n = Some (ok, wire) \<Longrightarrow>
     prefix wire (drop n data) \<and> (ok \<longleftrightarrow> wire = drop n data)"
proof (induction plat script data n arbitrary: wire rule: send_all.induct)
  case (2 plat sent err script data n)
  show ?case
  proof (cases "n < length data \<and> sent > 0")
    case True
    with "2.prems" obtain w where
      w: "send_all plat script data (n + nat sent) = Some (ok, w)" "wire = take (nat sent) (drop n data) @ w"
      by (auto split: option.splits)
    from True "2.IH"(2) [OF _ _ w(1)]
    have "prefix w (drop (nat sent) (drop n data)) \<and> (ok \<longleftrightarrow> w = drop (nat sent) (drop n data))"
      by (simp add: add.commute)
    moreover have "drop n data = take (nat sent) (drop n data) @ drop (nat sent) (drop n data)"
      by (rule append_take_drop_id [symmetric])
    ultimately show ?thesis unfolding w(2) by (metis append_same_eq same_append_eq same_prefix_prefix)
  next
    case False
    with 2 show ?thesis by (auto split: if_splits)
  qed
qed (auto split: if_splits)

lemma send_progress_all:
  "send_all plat script data n = Some (ok, wire) \<Longrightarrow> send_progress plat script data n = wire"
  by (induction plat script data n arbitrary: wire rule: send_all.induct)
     (auto split: if_splits option.splits)

lemma send_progress_prefix: "prefix (send_progress plat script data n) (drop n data)"
proof (induction plat script data n rule: send_progress.induct)
  case (2 plat sent err script data n)
  have d: "drop n data = take (nat sent) (drop n data) @ drop (n + nat sent) data"
    by (metis append_take_drop_id drop_drop add.commute)
  have "prefix (take (nat sent) (drop n data) @ xs) (drop n data)"
    if "prefix xs (drop (n + nat sent) data)" for xs
    using that by (subst d) simp
  with 2 show ?case by simp
qed simp

lemma send_all_finishes:
  assumes "list_all (\<lambda>(sent, err). 0 < sent \<or> interrupted plat err) script"
    and "length data \<le> n + sent_bytes script"
  shows "send_all plat script data n = Some (True, drop n data)"
proof -
  have "\<exists>wire. send_all plat script data n = Some (True, wire)"
    using assms
  proof (induction plat script data n rule: send_all.induct)
    case (2 plat sent err script data n)
    show ?case
    proof (cases "n < length data")
      case True
      show ?thesis
      proof (cases "sent \<le> 0")
        case False
        have "length data \<le> n + nat sent + sent_bytes script" "list_all (\<lambda>(sent, err). 0 < sent \<or> interrupted plat err) script"
          using "2.prems" by (simp_all add: sent_bytes_def)
        with "2.IH"(2) [OF True False] True False show ?thesis by fastforce
      next
        case True': True
        have "interrupted plat err" "length data \<le> n + sent_bytes script" "list_all (\<lambda>(sent, err). 0 < sent \<or> interrupted plat err) script"
          using "2.prems" True' by (simp_all add: sent_bytes_def)
        with "2.IH"(1) [OF True True'] True True' show ?thesis by simp
      qed
    qed simp
  qed (simp add: sent_bytes_def)
  then show ?thesis using send_all_wire by blast
qed

subsection \<open>Receiving: bounds\<close>

lemma declared_length_total: "\<exists>n. declared_length request = Inr n"
proof -
  have "\<exists>n. throws_bind (substr request (c + 1) k) (\<lambda>cl_raw. throws_bind (left_trim cl_raw) (\<lambda>cl_value.
          Inr (case stoull cl_value of Inl _ \<Rightarrow> None | Inr n \<Rightarrow> Some n))) = Inr n"
    if "str_find_from '':'' request cl = Some c" for c cl k
  proof -
    have "c + 1 \<le> length request" using str_find_from_Some [OF that] by simp
    moreover obtain v where "left_trim (take k (drop (c + 1) request)) = Inr v"
      using left_trim_total by blast
    ultimately show ?thesis by simp
  qed
  then show ?thesis by (simp add: declared_length_def split: option.split)
qed

lemma recv_body_bound:
  assumes "list_all recv_ok script" "recv_body hs k mb script request = Some r"
  shows "length r \<le> max (length request) (hs + mb + recv_buffer)"
  using assms
proof (induction script arbitrary: request)
  case (Cons x script)
  let ?b = "length request - hs"
  show ?case
  proof (cases "?b < k \<and> ?b < mb")
    case True
    show ?thesis
    proof (cases x)
      case (Received d)
      show ?thesis
      proof (cases "d = []")
        case False
        with Cons.prems True Received
        have "recv_body hs k mb script (request @ d) = Some r" "length d \<le> recv_buffer"
          by (simp_all add: recv_ok_def Let_def)
        with Cons.IH [of "request @ d"] Cons.prems True show ?thesis by fastforce
      qed (use Cons.prems True Received in \<open>simp add: Let_def\<close>)
    qed (use Cons.prems True in \<open>simp add: Let_def\<close>)
  qed (use Cons.prems in \<open>auto simp: Let_def\<close>)
qed (auto simp: Let_def split: if_splits)

lemma recv_request_bound:
  assumes "list_all recv_ok script" "recv_request plat cfg script request = Some r"
    and "length request \<le> cfg_max_header_size cfg"
  shows "\<exists>raw. r = Inr raw \<and>
           length raw \<le> cfg_max_header_size cfg + cfg_max_body_size cfg + 2 * recv_buffer"
  using assms
proof (induction plat cfg script request rule: recv_request.induct)
  case (2 plat cfg err script request)
  then show ?case by (auto split: if_splits)
next
  case (3 plat cfg d script request)
  let ?q = "request @ d"
  have d: "length ?q \<le> cfg_max_header_size cfg + recv_buffer"
    using "3.prems" by (simp add: recv_ok_def)
  show ?case
  proof (cases "d = [] \<or> str_find crlfcrlf ?q = None")
    case True
    with 3 d show ?thesis by (auto simp: Let_def split: if_splits)
  next
    case False
    then obtain h where h: "str_find crlfcrlf ?q = Some h" "d \<noteq> []" by auto
    obtain n where n: "declared_length ?q = Inr n" using declared_length_total by blast
    have hl: "h + 4 \<le> length ?q" using str_find_Some [OF h(1)] by simp
    show ?thesis
    proof (cases n)
      case None
      with h n "3.prems" d show ?thesis by (auto simp: Let_def)
    next
      case (Some k)
      with h n "3.prems" obtain raw where
        raw: "recv_body (h + 4) k (cfg_max_body_size cfg) script ?q = Some raw" "r = Inr raw"
        by (auto simp: Let_def)
      have ok: "list_all recv_ok script" using "3.prems"(1) by simp
      from recv_body_bound [OF ok raw(1)] hl d raw(2) show ?thesis by auto
    qed
  qed
qed simp

subsection \<open>Receiving: segmentation\<close>

lemma declared_length_header:
  assumes req: "request = P @ ''Content-Length: '' @ nat_to_string k @ crlf @ Q"
    and P: "str_find ''content-length:'' (lower_str P) = None" "P \<noteq> []" "last P = LF"
    and small: "k < 2 ^ 64" "length request < 2 ^ 64"
  shows "declared_length request = Inr (Some k)"
proof -
  let ?n = "nat_to_string k"
  have n: "hd ?n \<notin> set blanks" "line_safe ('': '' @ ?n)"
    using nat_to_string_digits [of k] digit_not_space [of "hd ?n"]
    by (auto simp: blanks_def line_safe_Cons)
  have cl: "str_find ''content-length:'' (lower_str request) = Some (length P)"
    unfolding req by (rule content_length_found [OF P])
  have colon: "str_find_from '':'' request (length P) = Some (length P + 14)"
    by (simp add: req str_find_from_def)
  have d14: "drop (length P + 14) request = ('': '' @ ?n) @ crlf @ Q" by (simp add: req)
  have eol: "str_find_from crlf request (length P + 14) = Some (length ?n + length P + 16)"
    using d14 str_find_line [OF n(2), of Q] by (simp add: str_find_from_def req)
  have "length ?n + length P + 16 < 2 ^ 64" using small(2) by (simp add: req)
  then have cnt: "size_sub (size_sub (length ?n + length P + 16) (length P + 14)) 1 = length ?n + 1"
    by (simp add: size_sub_le)
  have sub: "substr request (length P + 14 + 1) (length ?n + 1) = Inr ('' '' @ ?n)"
    by (simp add: substr_def req)
  have lt: "left_trim ('' '' @ ?n) = Inr ?n" using left_trim_blank [OF _ n(1)] by simp
  show ?thesis
    unfolding declared_length_def
    by (simp only: cl colon eol option.case cnt sub lt throws_bind_simps stoull_nat [OF small(1)] sum.case)
qed

lemma recv_body_chunks:
  assumes "request @ concat chunks = text" "list_all (\<lambda>c. c \<noteq> []) chunks"
    and "length text = hs + k" "k \<le> mb" "hs \<le> length request"
  shows "recv_body hs k mb (map Received chunks @ rest) request = Some text"
  using assms
proof (induction chunks arbitrary: request)
  case Nil
  then show ?case by (cases rest) (auto simp: Let_def)
next
  case (Cons c chunks)
  have "length request < length text" using Cons.prems by (cases c) auto
  then have "length request - hs < k" "length request - hs < mb" using Cons.prems by linarith+
  with Cons show ?case by (simp add: Let_def)
qed

lemma recv_request_chunks:
  assumes tx: "request @ concat chunks = text" "list_all (\<lambda>c. c \<noteq> []) chunks"
    and head: "str_find crlfcrlf text = Some h" "length request < h + 4" "h + 4 \<le> cfg_max_header_size cfg"
    and decl: "\<And>Q. declared_length (take (h + 4) text @ Q) = Inr (Some k) \<or>
                    length text < length (take (h + 4) text @ Q)"
    and len: "length text = h + 4 + k" "k \<le> cfg_max_body_size cfg"
  shows "recv_request plat cfg (map Received chunks @ rest) request = Some (Inr text)"
  using tx head(2)
proof (induction chunks arbitrary: request)
  case Nil
  with str_find_Some [OF head(1)] show ?case by simp
next
  case (Cons c chunks)
  let ?q = "request @ c"
  have t: "?q @ concat chunks = text" using Cons.prems by simp
  have c: "c \<noteq> []" using Cons.prems by simp
  show ?case
  proof (cases "h + 4 \<le> length ?q")
    case True
    then have "take (h + 4) text = take (h + 4) ?q" unfolding t [symmetric] by simp
    then have q: "?q = take (h + 4) text @ drop (h + 4) ?q" by (metis append_take_drop_id)
    have "length ?q \<le> length text" using t by auto
    with decl [of "drop (h + 4) ?q"] q have d: "declared_length ?q = Inr (Some k)"
      by (metis leD)
    have f: "str_find crlfcrlf ?q = Some h"
      using str_find_prefix [of crlfcrlf ?q "concat chunks" h] True head(1) t by simp
    have "recv_body (h + 4) k (cfg_max_body_size cfg) (map Received chunks @ rest) ?q = Some text"
      using recv_body_chunks [OF t _ len(1,2) True] Cons.prems(2) by simp
    with f d c show ?thesis by (simp add: Let_def)
  next
    case False
    have f: "str_find crlfcrlf ?q = None"
    proof (cases "str_find crlfcrlf ?q")
      case (Some i)
      from str_find_append [OF this, of "concat chunks"] t head(1) have "i = h" by simp
      with str_find_Some [OF Some] False show ?thesis by simp
    qed
    with Cons.IH [OF t] Cons.prems(2) False c head(3) show ?thesis by (simp add: Let_def)
  qed
qed

lemma recv_request_text:
  assumes ok: "word_ok m" "word_ok p" "word_ok v" "list_all header_ok (hs1 @ hs2)"
    and hs: "hs = hs1 @ (''Content-Length'', nat_to_string (length body)) # hs2"
    and first: "str_find ''content-length:'' (lower_str (head_before m p v hs1)) = None"
    and fits: "length (request_head m p v hs) + 4 \<le> cfg_max_header_size cfg"
      "length body \<le> cfg_max_body_size cfg"
    and small: "length (request_text m p v hs body) < 2 ^ 64"
    and chunks: "concat chunks = request_text m p v hs body" "list_all (\<lambda>c. c \<noteq> []) chunks"
  shows "recv_request plat cfg (map Received chunks @ rest) [] = Some (Inr (request_text m p v hs body))"
proof (rule recv_request_chunks [where h = "length (request_head m p v hs)" and k = "length body"])
  let ?text = "request_text m p v hs body" and ?h = "length (request_head m p v hs)"
  have "list_all header_ok hs" using ok(4) hs header_ok_content_length by simp
  then show "str_find crlfcrlf ?text = Some ?h"
    unfolding request_text_def request_head_def
    by (intro str_find_join_lines request_lines_ok ok) simp_all
  show "length ?text = ?h + 4 + length body" by (simp add: request_text_def)
  fix Q
  show "declared_length (take (?h + 4) ?text @ Q) = Inr (Some (length body)) \<or>
        length ?text < length (take (?h + 4) ?text @ Q)"
  proof (cases "length (take (?h + 4) ?text @ Q) \<le> length ?text")
    case True
    let ?rest = "(concat (map (\<lambda>l. l @ crlf) (map header_line hs2)) @ crlf) @ Q"
    have t: "take (?h + 4) ?text @ Q =
        head_before m p v hs1 @ ''Content-Length: '' @ nat_to_string (length body) @ crlf @ ?rest"
      using request_head_declared [OF hs, of m p v body] by simp
    have "length body < 2 ^ 64" using small by (simp add: request_text_def)
    then show ?thesis
      using declared_length_header [OF t first head_before_last] True small by simp
  qed simp
qed (use chunks fits in simp_all)

lemma recv_request_waits:
  "recv_retry plat err \<Longrightarrow>
     recv_request plat cfg (replicate n (Recv_error err) @ script) request = recv_request plat cfg script request"
  by (induction n) simp_all

section \<open>Properties\<close>

text \<open>
  C29: \<open>send_all\<close> never sends anything but the data in order: whatever the kernel answers (partial
  sends, interrupts, errors), what went out is an initial part of the data, and the function returns
  true exactly when that is all of it; and it does return true, with all data sent, once the kernel
  has accepted enough bytes with no failure other than interrupts.
\<close>

theorem send_all_correct:
  "(\<forall>ok wire. send_all plat script data 0 = Some (ok, wire) \<longrightarrow> prefix wire data \<and> (ok \<longleftrightarrow> wire = data)) \<and>
   (list_all (\<lambda>(sent, err). 0 < sent \<or> interrupted plat err) script \<and> length data \<le> sent_bytes script \<longrightarrow>
      send_all plat script data 0 = Some (True, data))"
  using send_all_wire [of plat script data 0] send_all_finishes [of plat script data 0] by simp

theorem send_all_correct_witness:
  "send_all Posix [(2, 0), (-1, EINTR), (3, 0)] ''hello'' 0 = Some (True, ''hello'') \<and>
   prefix ''he'' ''hello'' \<and> (False \<longleftrightarrow> ''he'' = ''hello'')"
proof -
  have "send_all Windows [(2, 0), (-1, EINTR)] ''hello'' 0 = Some (False, ''he'')" by code_simp
  then show ?thesis
    using send_all_correct [of Windows "[(2, 0), (-1, EINTR)]" "''hello''"]
      send_all_correct [of Posix "[(2, 0), (-1, EINTR), (3, 0)]" "''hello''"]
    by (simp add: sent_bytes_def)
qed

text \<open>
  C28: The request buffer is bounded and reading never throws: whatever a client sends, in segments of
  at most the 4095 bytes that one \<open>recv\<close> reads, a returned request is at most \<open>max_header_size\<close> plus
  \<open>max_body_size\<close> plus two segments long.
\<close>

theorem recv_request_bounded:
  assumes "list_all recv_ok script" "recv_request plat cfg script [] = Some r"
  shows "\<exists>raw. r = Inr raw \<and> length raw \<le> cfg_max_header_size cfg + cfg_max_body_size cfg + 2 * 4095"
  using recv_request_bound [OF assms] by (simp add: recv_buffer_def)

theorem recv_request_bounded_witness:
  "\<exists>raw. Inr ''abc'' = (Inr raw :: string throws) \<and> length raw \<le> 65536 + 1048576 + 2 * 4095"
proof -
  have "\<exists>raw. Inr ''abc'' = (Inr raw :: string throws) \<and>
          length raw \<le> cfg_max_header_size (Config_default 4) + cfg_max_body_size (Config_default 4) + 2 * 4095"
    by (rule recv_request_bounded [of "[Received ''abc'', Received []]"]; code_simp)
  then show ?thesis by (simp add: Config_default_def)
qed

text \<open>
  C13: Segmentation does not matter: a request in the wire format that declares its body, within the
  limits, is read completely and exactly, however TCP splits it into segments, and nothing after the
  last segment of it is waited for.
\<close>

theorem recv_request_segmentation:
  assumes "word_ok m" "word_ok p" "word_ok v" "list_all header_ok (hs1 @ hs2)"
    and "hs = hs1 @ (''Content-Length'', nat_to_string (length body)) # hs2"
    and "str_find ''content-length:'' (lower_str (head_before m p v hs1)) = None"
    and "length (request_head m p v hs) + 4 \<le> cfg_max_header_size cfg"
    and "length body \<le> cfg_max_body_size cfg"
    and "length (request_text m p v hs body) < 2 ^ 64"
    and "concat chunks = request_text m p v hs body" "list_all (\<lambda>c. c \<noteq> []) chunks"
  shows "recv_request plat cfg (map Received chunks @ rest) [] = Some (Inr (request_text m p v hs body))"
  by (rule recv_request_text [OF assms])

definition sample_text :: string where
  "sample_text =
     request_text ''POST'' ''/echo'' ''HTTP/1.1'' [(''Content-Length'', nat_to_string (length ''hello''))] ''hello''"

theorem recv_request_segmentation_witness:
  "recv_request Posix (Config_default 4) (map Received [take 7 sample_text, take 36 (drop 7 sample_text), drop 43 sample_text] @ [])
     [] = Some (Inr sample_text)"
  unfolding sample_text_def
  by (rule recv_request_segmentation [where ?hs1.0 = "[]" and ?hs2.0 = "[]"]; code_simp)

text \<open>
  The receive timeout ends a silent connection on Windows only. While the header section is
  incomplete, on POSIX each timeout of \<open>SO_RCVTIMEO\<close> (\<open>EAGAIN\<close>) only repeats the call, so after any
  number of timeouts the worker still waits; on Windows the first timeout (\<open>WSAETIMEDOUT\<close>) returns what
  has been received.
\<close>

lemma recv_timeout_platforms:
  "recv_request Posix cfg (replicate n (Recv_error (timeout_error Posix))) request = None \<and>
   recv_request Posix cfg (replicate n (Recv_error (timeout_error Posix)) @ script) request =
     recv_request Posix cfg script request \<and>
   recv_request Windows cfg (Recv_error (timeout_error Windows) # script) request = Some (Inr request)"
proof -
  have "recv_retry Posix (timeout_error Posix)" "\<not> recv_retry Windows (timeout_error Windows)"
    using timeout_retried by blast+
  then show ?thesis
    using recv_request_waits [of Posix "timeout_error Posix" cfg n "[]" request]
      recv_request_waits [of Posix "timeout_error Posix" cfg n script request]
    by (simp del: recv_retry.simps timeout_error.simps)
qed

end
