(* ===== verification/TcpServer.thy ===== *)
theory TcpServer
  imports SocketIO Router ThreadPool Logger
begin

text \<open>
  Model of \<open>src/tcp_server.cpp\<close> and \<open>include/server/tcp_server.hpp\<close>: the life of a connection
  (\<open>handle_client\<close>), the accept loop with its backpressure, and the life of the listening socket
  (\<open>start\<close>, \<open>stop\<close>, the destructor).

  The operations run in several threads that share the metrics, the logger and the sockets. Each is
  therefore modelled by the sequence of its effects, its actions, in program order, with its outcome:
  a value, an exception, or none while a system call still blocks (\<open>'a run\<close>). What several threads
  do together is an interleaving of their action sequences. The answers of the kernel, the value that
  a thread reads from the pool and the clock are arguments (\<open>conn_env\<close>, \<open>accept_round\<close>, \<open>start_env\<close>);
  the pool itself is the one of the theory \<open>ThreadPool\<close>, its tasks being the pairs of a descriptor and
  an address. \<open>stop\<close> is called by the signal or console handler of \<open>src/main.cpp\<close>. The functions of this
  theory let a run of the handler fall as a whole between two accesses of the accepting thread, before
  a test of \<open>running_\<close> or during \<open>accept\<close>; in \<open>ServerSystem\<close> the single accesses of the handler, on a
  thread of its own, interleave with those of all other threads.
\<close>

section \<open>Effects\<close>

datatype action =
    A_metric metric_event
  | A_log LogLevel string
  | A_bind int u16
  | A_listen int int
  | A_rcvtimeo int nat
  | A_recv int
  | A_accept_call int
  | A_wsacleanup
  | A_wire int string
  | A_close int
  | A_accept int
  | A_submit int string

type_synonym 'a run = "action list \<times> 'a throws option"

definition run_return :: "'a \<Rightarrow> 'a run" where
  "run_return x = ([], Some (Inr x))"

definition run_do :: "action list \<Rightarrow> unit run" where
  "run_do acts = (acts, Some (Inr ()))"

definition run_lift :: "'a throws option \<Rightarrow> 'a run" where
  "run_lift r = ([], r)"

definition run_bind :: "'a run \<Rightarrow> ('a \<Rightarrow> 'b run) \<Rightarrow> 'b run" where
  "run_bind m f =
     (case m of
        (acts, None) \<Rightarrow> (acts, None)
      | (acts, Some (Inl e)) \<Rightarrow> (acts, Some (Inl e))
      | (acts, Some (Inr x)) \<Rightarrow> (case f x of (acts', r) \<Rightarrow> (acts @ acts', r)))"

definition run_catch :: "'a run \<Rightarrow> (exn \<Rightarrow> 'a run) \<Rightarrow> 'a run" where
  "run_catch m h =
     (case m of
        (acts, Some (Inl e)) \<Rightarrow> (case h e of (acts', r) \<Rightarrow> (acts @ acts', r))
      | _ \<Rightarrow> m)"

section \<open>The server object\<close>

type_synonym task = "int \<times> string"

record TcpServer =
  ts_config :: Config
  ts_listen_fd :: int
  ts_running :: bool
  ts_pool :: "task ThreadPool option"
  ts_router :: Router
  ts_platform :: platform

definition TcpServer_make :: "platform \<Rightarrow> filesystem \<Rightarrow> Config \<Rightarrow> action list \<times> TcpServer" where
  "TcpServer_make plat fs cfg =
     ([A_log LOG_INFO ''Default routes registered''],
      \<lparr>ts_config = cfg, ts_listen_fd = invalid_socket plat, ts_running = False, ts_pool = None,
       ts_router = setup_default_routes (Router_make fs (cfg_document_root cfg)), ts_platform = plat\<rparr>)"

definition ts_queue_size :: "TcpServer \<Rightarrow> nat" where
  "ts_queue_size s = (case ts_pool s of Some p \<Rightarrow> pool_queue_size p | None \<Rightarrow> 0)"

definition ts_queue_capacity :: "TcpServer \<Rightarrow> nat" where
  "ts_queue_capacity s = (case ts_pool s of Some p \<Rightarrow> pool_queue_capacity p | None \<Rightarrow> 0)"

definition ts_thread_count :: "TcpServer \<Rightarrow> nat" where
  "ts_thread_count s = (case ts_pool s of Some p \<Rightarrow> thread_count p | None \<Rightarrow> 0)"

definition ts_active_workers :: "TcpServer \<Rightarrow> nat" where
  "ts_active_workers s = (case ts_pool s of Some p \<Rightarrow> active_workers p | None \<Rightarrow> 0)"

definition ts_is_queue_full :: "TcpServer \<Rightarrow> bool" where
  "ts_is_queue_full s = (case ts_pool s of Some p \<Rightarrow> is_queue_full p | None \<Rightarrow> False)"

section \<open>A connection\<close>

record conn_env =
  ce_recv :: "recv_result list"
  ce_send :: "send_result list"
  ce_latency :: double
  ce_handler :: handler_env
  ce_what :: "exn \<Rightarrow> string"
  ce_ord :: "string list \<Rightarrow> string list"

definition send_response :: "platform \<Rightarrow> send_result list \<Rightarrow> int \<Rightarrow> string \<Rightarrow> unit run" where
  "send_response plat script fd serialized =
     (case send_all plat script serialized 0 of
        None \<Rightarrow> ([A_wire fd (send_progress plat script serialized 0)], None)
      | Some (ok, wire) \<Rightarrow> ([A_wire fd wire], Some (Inr ())))"

definition status_event :: "nat \<Rightarrow> metric_event" where
  "status_event code =
     (if 400 \<le> code \<and> code < 500 then Ev_client_error
      else if 500 \<le> code then Ev_server_error else Ev_success)"

definition make_response :: "TcpServer \<Rightarrow> conn_env \<Rightarrow> ParseResult \<Rightarrow> HttpResponse run" where
  "make_response srv env pr =
     (case pr_error pr of
        INCOMPLETE \<Rightarrow> ([A_metric Ev_client_error], Some (Inr (bad_request ''Incomplete request'')))
      | MALFORMED \<Rightarrow> ([A_metric Ev_client_error], Some (Inr (bad_request ''Malformed request'')))
      | HEADER_TOO_LARGE \<Rightarrow> ([A_metric Ev_client_error], Some (Inr payload_too_large))
      | BODY_TOO_LARGE \<Rightarrow> ([A_metric Ev_client_error], Some (Inr payload_too_large))
      | NONE \<Rightarrow>
          run_bind (run_lift (Some (build_request pr))) (\<lambda>http_req.
          run_bind (run_lift (Some (Router_handle (ce_ord env) (ce_handler env) (ts_router srv) http_req)))
            (\<lambda>response.
              ([A_metric (status_event (status_int (status_code response)))], Some (Inr response)))))"

definition request_log :: "conn_env \<Rightarrow> ParseResult \<Rightarrow> HttpResponse \<Rightarrow> string \<Rightarrow> string" where
  "request_log env pr response client_addr =
     pr_method pr @ '' '' @ pr_path pr @ '' -> '' @ nat_to_string (status_int (status_code response)) @
     '' ('' @ d_show_fixed (he_dops (ce_handler env)) 1 (ce_latency env) @ '' ms)'' @
     '' ['' @ client_addr @ '']''"

definition answer_request :: "TcpServer \<Rightarrow> conn_env \<Rightarrow> int \<Rightarrow> string \<Rightarrow> string \<Rightarrow> unit run" where
  "answer_request srv env client_fd client_addr raw_request =
     run_bind (run_lift (Some (HttpParser_parse raw_request
         (cfg_max_header_size (ts_config srv)) (cfg_max_body_size (ts_config srv))))) (\<lambda>parse_result.
     run_bind (make_response srv env parse_result) (\<lambda>response.
       let serialized = serialize (ce_ord env) response in
       run_bind (send_response (ts_platform srv) (ce_send env) client_fd serialized) (\<lambda>_.
       run_do [A_metric (Ev_bytes (of_nat (length serialized))), A_metric (Ev_latency (ce_latency env)),
               A_log LOG_INFO (request_log env parse_result response client_addr)])))"

definition error_response :: "TcpServer \<Rightarrow> conn_env \<Rightarrow> int \<Rightarrow> string \<Rightarrow> exn \<Rightarrow> unit run" where
  "error_response srv env client_fd client_addr e =
     run_bind (run_do [A_log LOG_ERROR (''Error handling client '' @ client_addr @ '': '' @ ce_what env e),
                       A_metric Ev_server_error]) (\<lambda>_.
       send_response (ts_platform srv) (ce_send env) client_fd
         (serialize (ce_ord env) (internal_error ''Internal Server Error'')))"

definition close_connection :: "int \<Rightarrow> unit run" where
  "close_connection client_fd = run_do [A_close client_fd, A_metric Ev_closed]"

definition handle_client :: "TcpServer \<Rightarrow> conn_env \<Rightarrow> int \<Rightarrow> string \<Rightarrow> unit run" where
  "handle_client srv env client_fd client_addr =
     run_bind (run_do [A_metric Ev_request, A_metric (Ev_queue_size (of_nat (ts_queue_size srv))),
                       A_rcvtimeo client_fd 10000, A_recv client_fd]) (\<lambda>_.
     run_bind
       (run_catch
         (run_bind (run_lift (recv_request (ts_platform srv) (ts_config srv) (ce_recv env) [])) (\<lambda>raw_request.
            if raw_request = [] then run_bind (close_connection client_fd) (\<lambda>_. run_return True)
            else run_bind (answer_request srv env client_fd client_addr raw_request)
                   (\<lambda>_. run_return False)))
         (\<lambda>e. run_bind (error_response srv env client_fd client_addr e) (\<lambda>_. run_return False)))
       (\<lambda>returned. if returned then run_return () else close_connection client_fd))"

section \<open>The accept loop\<close>

datatype accept_result = Accepted int string nat | Accept_failed int

record accept_round =
  ar_signal_before :: "int option"
  ar_signal_during :: "int option"
  ar_result :: accept_result
  ar_pool :: "task ThreadPool"
  ar_submit_throws :: "exn option"
  ar_send :: "send_result list"

definition stop :: "TcpServer \<Rightarrow> action list \<times> TcpServer" where
  "stop srv =
     (if ts_running srv then
        (if ts_listen_fd srv \<noteq> invalid_socket (ts_platform srv)
         then ([A_close (ts_listen_fd srv)], srv\<lparr>ts_running := False, ts_listen_fd := invalid_socket (ts_platform srv)\<rparr>)
         else ([], srv\<lparr>ts_running := False\<rparr>))
      else ([], srv))"

definition SIGINT :: int where
  "SIGINT = 2"

definition SIGTERM :: int where
  "SIGTERM = 15"

definition signal_handler :: "int \<Rightarrow> TcpServer \<Rightarrow> action list \<times> TcpServer" where
  "signal_handler signal srv =
     (if signal = SIGINT \<or> signal = SIGTERM
      then (A_log LOG_INFO ''Received shutdown signal, stopping server...'' # fst (stop srv),
            snd (stop srv))
      else ([], srv))"

definition CTRL_C_EVENT :: int where
  "CTRL_C_EVENT = 0"

definition CTRL_BREAK_EVENT :: int where
  "CTRL_BREAK_EVENT = 1"

definition console_handler :: "int \<Rightarrow> TcpServer \<Rightarrow> bool \<times> action list \<times> TcpServer" where
  "console_handler signal srv =
     (if signal = CTRL_C_EVENT \<or> signal = CTRL_BREAK_EVENT
      then (True, A_log LOG_INFO ''Received shutdown signal, stopping server...'' # fst (stop srv),
            snd (stop srv))
      else (False, [], srv))"

text \<open>
  A signal or console event, if any, whose handler runs as a whole between two accesses of the accept
  loop to \<open>running_\<close> and \<open>listen_fd_\<close>, be it on the accepting thread or, as always on Windows, on another.
  Runs that overlap those accesses are the subject of \<open>ServerSystem\<close>.
\<close>

definition deliver_signal :: "int option \<Rightarrow> TcpServer \<Rightarrow> action list \<times> TcpServer" where
  "deliver_signal sg srv =
     (case sg of
        None \<Rightarrow> ([], srv)
      | Some signal \<Rightarrow>
          (case ts_platform srv of
             Posix \<Rightarrow> signal_handler signal srv
           | Windows \<Rightarrow> snd (console_handler signal srv)))"

definition reject_client ::
    "platform \<Rightarrow> (string list \<Rightarrow> string list) \<Rightarrow> send_result list \<Rightarrow> int \<Rightarrow> action \<Rightarrow> unit run" where
  "reject_client plat ord script client_fd log_entry =
     (let ser = serialize ord service_unavailable in
      run_bind (run_do [log_entry]) (\<lambda>_.
      run_bind (send_response plat script client_fd ser) (\<lambda>_.
      run_bind (run_do [A_metric (Ev_bytes (of_nat (length ser))), A_metric Ev_server_error]) (\<lambda>_.
      close_connection client_fd))))"

definition submit_client ::
    "platform \<Rightarrow> (string list \<Rightarrow> string list) \<Rightarrow> (exn \<Rightarrow> string) \<Rightarrow> accept_round \<Rightarrow> int \<Rightarrow> string \<Rightarrow> unit run" where
  "submit_client plat ord what rd client_fd client_info =
     (case ar_submit_throws rd of
        Some e \<Rightarrow>
          reject_client plat ord (ar_send rd) client_fd
            (A_log LOG_ERROR (''Failed to submit client task: '' @ what e))
      | None \<Rightarrow>
          (case pool_submit (client_fd, client_info) (ar_pool rd) of (submitted, _, _) \<Rightarrow>
             if submitted then run_do [A_submit client_fd client_info]
             else reject_client plat ord (ar_send rd) client_fd
                    (A_log LOG_WARN (''Queue full, sending 503 to '' @ client_info))))"

definition handle_accept ::
    "(string list \<Rightarrow> string list) \<Rightarrow> (exn \<Rightarrow> string) \<Rightarrow> TcpServer \<Rightarrow> accept_round \<Rightarrow> bool run" where
  "handle_accept ord what srv rd =
     (case ar_result rd of
        Accept_failed err \<Rightarrow>
          if \<not> ts_running srv then run_return False
          else if interrupted (ts_platform srv) err then run_return True
          else ([A_log LOG_ERROR (''accept() failed: error '' @ int_to_string err)], Some (Inr True))
      | Accepted client_fd client_ip client_port \<Rightarrow>
          (let client_info = client_ip @ '':'' @ nat_to_string client_port in
           run_bind (run_do [A_accept client_fd, A_metric Ev_opened,
                             A_metric (Ev_active_workers (of_nat (active_workers (ar_pool rd))))]) (\<lambda>_.
           run_bind (submit_client (ts_platform srv) ord what rd client_fd client_info) (\<lambda>_. run_return True))))"

fun accept_loop ::
    "(string list \<Rightarrow> string list) \<Rightarrow> (exn \<Rightarrow> string) \<Rightarrow> accept_round list \<Rightarrow> TcpServer \<Rightarrow>
     unit run \<times> TcpServer" where
  "accept_loop ord what [] srv = (if ts_running srv then ([], None) else run_return (), srv)"
| "accept_loop ord what (rd # rds) srv =
     (case deliver_signal (ar_signal_before rd) srv of (acts1, srv1) \<Rightarrow>
        if \<not> ts_running srv1 then ((acts1, Some (Inr ())), srv1)
        else case deliver_signal (ar_signal_during rd) srv1 of (acts2, srv2) \<Rightarrow>
          case handle_accept ord what srv2 rd of (acts3, r) \<Rightarrow>
            (let acts = acts1 @ [A_accept_call (ts_listen_fd srv1)] @ acts2 @ acts3 in
             case r of
               None \<Rightarrow> ((acts, None), srv2)
             | Some (Inl e) \<Rightarrow> ((acts, Some (Inl e)), srv2)
             | Some (Inr False) \<Rightarrow> ((acts, Some (Inr ())), srv2)
             | Some (Inr True) \<Rightarrow>
                 (case accept_loop ord what rds srv2 of ((acts4, r'), srv3) \<Rightarrow>
                    ((acts @ acts4, r'), srv3))))"

section \<open>The listening socket\<close>

text \<open>
  \<open>se_pool_fails\<close> is an exception in the construction of the pool, if any, with the number of workers
  that run by then: while there is none the exception leaves \<open>start\<close>; otherwise the destructor of a
  joinable thread terminates the process.
\<close>

datatype start_end = Start_completed | Start_thrown exn | Start_terminated

fun start_result :: "unit throws option \<Rightarrow> start_end option" where
  "start_result None = None"
| "start_result (Some (Inl e)) = Some (Start_thrown e)"
| "start_result (Some (Inr x)) = Some Start_completed"

record start_env =
  se_socket :: int
  se_errno :: int
  se_setsockopt :: int
  se_bind :: int
  se_listen :: int
  se_pool_fails :: "(nat \<times> exn) option"
  se_rounds :: "accept_round list"
  se_what :: "exn \<Rightarrow> string"
  se_ord :: "string list \<Rightarrow> string list"

definition open_listener :: "start_env \<Rightarrow> TcpServer \<Rightarrow> unit run \<times> TcpServer" where
  "open_listener se srv =
     (let fd = se_socket se;
          port = cfg_port (ts_config srv);
          opened = srv\<lparr>ts_listen_fd := fd\<rparr>;
          closed = srv\<lparr>ts_listen_fd := invalid_socket (ts_platform srv)\<rparr>
      in if fd = invalid_socket (ts_platform srv) then
           (([], Some (Inl (Runtime_error (''socket() failed: '' @ int_to_string (se_errno se))))), opened)
         else if se_setsockopt se < 0 then
           (([A_close fd], Some (Inl (Runtime_error ''setsockopt(SO_REUSEADDR) failed''))), closed)
         else if se_bind se < 0 then
           (([A_bind fd port, A_close fd],
             Some (Inl (Runtime_error (''bind() failed on port '' @ nat_to_string (unat port))))), closed)
         else if se_listen se < 0 then
           (([A_bind fd port, A_listen fd (cfg_backlog (ts_config srv)), A_close fd],
             Some (Inl (Runtime_error ''listen() failed''))), closed)
         else
           (([A_bind fd port, A_listen fd (cfg_backlog (ts_config srv))], Some (Inr ())),
            opened\<lparr>ts_running := True\<rparr>))"

definition start_pool :: "start_env \<Rightarrow> TcpServer \<Rightarrow> (action list \<times> start_end) \<times> TcpServer" where
  "start_pool se srv =
     (let cfg = ts_config srv;
          pool = ThreadPool_make (unat (cfg_thread_count cfg)) (cfg_queue_capacity cfg);
          listening = A_log LOG_INFO (''Listening on port '' @ nat_to_string (unat (cfg_port cfg)) @
             '' with '' @ nat_to_string (unat (cfg_thread_count cfg)) @ '' threads'')
      in case se_pool_fails se of
           Some (created, e) \<Rightarrow>
             (([listening], if created = 0 then Start_thrown e else Start_terminated), srv)
         | None \<Rightarrow>
             (([listening, A_metric (Ev_thread_count (of_nat (thread_count pool))),
                A_metric (Ev_queue_capacity (of_nat (pool_queue_capacity pool)))], Start_completed),
              srv\<lparr>ts_pool := Some pool\<rparr>))"

definition finish_start :: "TcpServer \<Rightarrow> action list \<times> TcpServer" where
  "finish_start srv =
     (let fd = ts_listen_fd srv;
          srv' = srv\<lparr>ts_pool := None\<rparr>
      in if fd \<noteq> invalid_socket (ts_platform srv) then
           ([A_log LOG_INFO ''Shutting down thread pool...'', A_close fd,
             A_log LOG_INFO ''Server stopped.''], srv'\<lparr>ts_listen_fd := invalid_socket (ts_platform srv)\<rparr>)
         else
           ([A_log LOG_INFO ''Shutting down thread pool...'', A_log LOG_INFO ''Server stopped.''], srv'))"

definition TcpServer_start ::
    "start_env \<Rightarrow> TcpServer \<Rightarrow> (action list \<times> start_end option) \<times> TcpServer" where
  "TcpServer_start se srv =
     (case open_listener se srv of ((acts0, r0), srv0) \<Rightarrow>
        if r0 \<noteq> Some (Inr ()) then ((acts0, start_result r0), srv0)
        else case start_pool se srv0 of ((acts1, r1), srv1) \<Rightarrow>
          if r1 \<noteq> Start_completed then ((acts0 @ acts1, Some r1), srv1)
          else case accept_loop (se_ord se) (se_what se) (se_rounds se) srv1 of ((acts2, r2), srv2) \<Rightarrow>
            if r2 \<noteq> Some (Inr ()) then ((acts0 @ acts1 @ acts2, start_result r2), srv2)
            else case finish_start srv2 of (acts3, srv3) \<Rightarrow>
              ((acts0 @ acts1 @ acts2 @ acts3, Some Start_completed), srv3))"

definition TcpServer_destroy :: "TcpServer \<Rightarrow> action list \<times> TcpServer" where
  "TcpServer_destroy srv = stop srv"

section \<open>Specification: what a trace shows\<close>

fun closes :: "action list \<Rightarrow> int list" where
  "closes [] = []"
| "closes (A_close fd # acts) = fd # closes acts"
| "closes (_ # acts) = closes acts"

fun accepts :: "action list \<Rightarrow> int list" where
  "accepts [] = []"
| "accepts (A_accept fd # acts) = fd # accepts acts"
| "accepts (_ # acts) = accepts acts"

fun events :: "action list \<Rightarrow> metric_event list" where
  "events [] = []"
| "events (A_metric e # acts) = e # events acts"
| "events (_ # acts) = events acts"

fun submits :: "action list \<Rightarrow> task list" where
  "submits [] = []"
| "submits (A_submit fd info # acts) = (fd, info) # submits acts"
| "submits (_ # acts) = submits acts"

fun wires :: "action list \<Rightarrow> (int \<times> string) list" where
  "wires [] = []"
| "wires (A_wire fd s # acts) = (fd, s) # wires acts"
| "wires (_ # acts) = wires acts"

fun is_outcome :: "metric_event \<Rightarrow> bool" where
  "is_outcome Ev_success = True"
| "is_outcome Ev_client_error = True"
| "is_outcome Ev_server_error = True"
| "is_outcome _ = False"

definition outcomes :: "metric_event list \<Rightarrow> nat" where
  "outcomes es = length (filter is_outcome es)"

section \<open>Lemmas\<close>

subsection \<open>Runs and traces\<close>

lemma run_bind_simps [simp]:
  "run_bind (acts, None) f = (acts, None)"
  "run_bind (acts, Some (Inl e)) f = (acts, Some (Inl e))"
  "run_bind (acts, Some (Inr x)) f = (acts @ fst (f x), snd (f x))"
  "run_bind (run_do acts) g = (acts @ fst (g ()), snd (g ()))"
  "run_bind (run_return y) f' = f' y"
  "run_bind (run_lift (Some (Inr z))) h = h z"
  "run_bind (run_lift None) h = ([], None)"
  "run_bind (run_lift (Some (Inl e))) h = ([], Some (Inl e))"
  by (simp_all add: run_bind_def run_do_def run_return_def run_lift_def split: prod.splits)

lemma run_catch_simps [simp]:
  "run_catch (acts, None) h = (acts, None)"
  "run_catch (acts, Some (Inr x)) h = (acts, Some (Inr x))"
  "run_catch (acts, Some (Inl e)) h = (acts @ fst (h e), snd (h e))"
  by (simp_all add: run_catch_def split: prod.splits)

lemma run_prims [simp]:
  "fst (run_do acts) = acts" "snd (run_do acts) = Some (Inr ())"
  "fst (run_return x) = []" "snd (run_return x) = Some (Inr x)"
  by (simp_all add: run_do_def run_return_def)

lemma closes_append [simp]: "closes (a @ b) = closes a @ closes b"
  by (induction a rule: closes.induct) simp_all

lemma accepts_append [simp]: "accepts (a @ b) = accepts a @ accepts b"
  by (induction a rule: accepts.induct) simp_all

lemma events_append [simp]: "events (a @ b) = events a @ events b"
  by (induction a rule: events.induct) simp_all

lemma submits_append [simp]: "submits (a @ b) = submits a @ submits b"
  by (induction a rule: submits.induct) simp_all

lemma wires_append [simp]: "wires (a @ b) = wires a @ wires b"
  by (induction a rule: wires.induct) simp_all

lemma status_event_outcome: "is_outcome (status_event c)" "status_event c \<noteq> Ev_closed"
  "status_event c \<noteq> Ev_opened" "status_event c \<noteq> Ev_request"
  by (simp_all add: status_event_def)

subsection \<open>A connection\<close>

lemma recv_request_no_throw: "recv_request plat cfg script request = Some r \<Longrightarrow> \<exists>raw. r = Inr raw"
proof (induction plat cfg script request rule: recv_request.induct)
  case (3 plat cfg d script request)
  obtain n where n: "declared_length (request @ d) = Inr n" using declared_length_total by blast
  show ?case
  proof (cases "str_find crlfcrlf (request @ d)")
    case None
    with 3 show ?thesis by (auto simp: Let_def split: if_splits)
  next
    case (Some h)
    with "3.prems" n show ?thesis by (cases n) (auto simp: Let_def split: if_splits)
  qed
qed (auto split: if_splits)

lemma send_response_cases:
  obtains wire where "send_response plat script fd s = ([A_wire fd wire], None)" "prefix wire s"
  | wire where "send_response plat script fd s = ([A_wire fd wire], Some (Inr ()))" "prefix wire s"
  using send_all_wire [of plat script s 0] send_progress_prefix [of plat script s 0]
  by (cases "send_all plat script s 0") (auto simp: send_response_def)

lemma make_response_cases:
  obtains e resp where "make_response srv env pr = ([A_metric e], Some (Inr resp))" "is_outcome e"
  | ex where "make_response srv env pr = ([], Some (Inl ex))"
proof -
  obtain req where b: "build_request pr = Inr req" using build_request_total by blast
  show ?thesis
  proof (cases "Router_handle (ce_ord env) (ce_handler env) (ts_router srv) req")
    case (Inl ex)
    with b that show ?thesis
      by (cases "pr_error pr") (simp_all add: make_response_def)
  next
    case (Inr resp)
    with b that status_event_outcome(1) show ?thesis
      by (cases "pr_error pr") (simp_all add: make_response_def)
  qed
qed

definition answered :: "int \<Rightarrow> action list \<Rightarrow> bool" where
  "answered fd acts =
     ((\<exists>e wire n l msg. is_outcome e \<and>
         acts = [A_metric e, A_wire fd wire, A_metric (Ev_bytes n), A_metric (Ev_latency l),
                 A_log LOG_INFO msg]) \<or>
      (\<exists>wire msg. acts = [A_log LOG_ERROR msg, A_metric Ev_server_error, A_wire fd wire]))"

lemma answer_request_cases:
  obtains acts where "answer_request srv env fd addr raw = (acts, None)"
  | ex where "answer_request srv env fd addr raw = ([], Some (Inl ex))"
  | acts where "answer_request srv env fd addr raw = (acts, Some (Inr ()))" "answered fd acts"
proof -
  obtain pr where p: "HttpParser_parse raw (cfg_max_header_size (ts_config srv))
      (cfg_max_body_size (ts_config srv)) = Inr pr" using parse_total by blast
  show ?thesis
  proof (cases rule: make_response_cases [of srv env pr])
    case (1 e resp)
    show ?thesis
      by (cases rule: send_response_cases [of "ts_platform srv" "ce_send env" fd "serialize (ce_ord env) resp"])
         (auto simp: answer_request_def p 1 Let_def answered_def intro: that)
  next
    case (2 ex)
    then show ?thesis by (auto simp: answer_request_def p intro: that)
  qed
qed

lemma error_response_cases:
  obtains acts where "error_response srv env fd addr ex = (acts, None)"
  | acts where "error_response srv env fd addr ex = (acts, Some (Inr ()))" "answered fd acts"
  by (cases rule: send_response_cases [of "ts_platform srv" "ce_send env" fd "serialize (ce_ord env) (internal_error ''Internal Server Error'')"])
     (auto simp: error_response_def answered_def intro: that)

lemma handle_client_cases:
  assumes "handle_client srv env fd addr = (acts, Some r)"
  shows "r = Inr () \<and>
         (\<exists>mid. acts = [A_metric Ev_request, A_metric (Ev_queue_size (of_nat (ts_queue_size srv))),
                        A_rcvtimeo fd 10000, A_recv fd] @ mid @ [A_close fd, A_metric Ev_closed] \<and>
            (if recv_request (ts_platform srv) (ts_config srv) (ce_recv env) [] = Some (Inr []) then mid = []
             else answered fd mid))"
proof (cases "recv_request (ts_platform srv) (ts_config srv) (ce_recv env) []")
  case None
  with assms show ?thesis by (simp add: handle_client_def)
next
  case (Some q)
  obtain raw where raw: "q = Inr raw" using recv_request_no_throw [OF Some] by blast
  show ?thesis
  proof (cases "raw = []")
    case True
    with assms Some raw show ?thesis by (auto simp: handle_client_def close_connection_def)
  next
    case False
    show ?thesis
    proof (cases rule: answer_request_cases [of srv env fd addr raw])
      case (1 a)
      with assms Some raw False show ?thesis by (simp add: handle_client_def)
    next
      case (2 ex)
      show ?thesis
        by (cases rule: error_response_cases [of srv env fd addr ex])
           (use assms Some raw False 2 in \<open>auto simp: handle_client_def close_connection_def\<close>)
    next
      case (3 a)
      with assms Some raw False show ?thesis
        by (auto simp: handle_client_def close_connection_def)
    qed
  qed
qed

lemma answered_effects:
  assumes "answered fd acts"
  shows "closes acts = []" "submits acts = []" "accepts acts = []" "outcomes (events acts) = 1"
    "Ev_closed \<notin> set (events acts)" "Ev_opened \<notin> set (events acts)" "Ev_request \<notin> set (events acts)"
    "fst ` set (wires acts) = {fd}"
  using assms by (auto simp: answered_def outcomes_def)

lemma handle_client_effects:
  assumes "handle_client srv env fd addr = (acts, Some r)"
  shows "closes acts = [fd]" "submits acts = []" "accepts acts = []"
    "count_list (events acts) Ev_request = 1" "count_list (events acts) Ev_opened = 0"
    "count_list (events acts) Ev_closed = 1" "fst ` set (wires acts) \<subseteq> {fd}"
    "outcomes (events acts) =
       (if recv_request (ts_platform srv) (ts_config srv) (ce_recv env) [] = Some (Inr []) then 0 else 1)"
proof -
  from handle_client_cases [OF assms] obtain mid where
    a: "acts = [A_metric Ev_request, A_metric (Ev_queue_size (of_nat (ts_queue_size srv))),
               A_rcvtimeo fd 10000, A_recv fd] @ mid @ [A_close fd, A_metric Ev_closed]"
    and m: "if recv_request (ts_platform srv) (ts_config srv) (ce_recv env) [] = Some (Inr []) then mid = []
            else answered fd mid" by blast
  have "mid = [] \<or> answered fd mid" using m by (auto split: if_splits)
  then have c: "closes mid = []" "submits mid = []" "accepts mid = []" "count_list (events mid) Ev_request = 0"
    "count_list (events mid) Ev_opened = 0" "count_list (events mid) Ev_closed = 0"
    "fst ` set (wires mid) \<subseteq> {fd}"
    using answered_effects [of fd mid] by (auto simp: count_list_0_iff)
  from c show "closes acts = [fd]" "submits acts = []" "accepts acts = []"
    "count_list (events acts) Ev_request = 1" "count_list (events acts) Ev_opened = 0"
    "count_list (events acts) Ev_closed = 1" "fst ` set (wires acts) \<subseteq> {fd}"
    by (simp_all add: a)
  show "outcomes (events acts) =
       (if recv_request (ts_platform srv) (ts_config srv) (ce_recv env) [] = Some (Inr []) then 0 else 1)"
    using m answered_effects(4) [of fd mid] by (auto simp: a outcomes_def split: if_splits)
qed

subsection \<open>What a client receives\<close>

definition wires_wf :: "conn_env \<Rightarrow> int \<Rightarrow> action list \<Rightarrow> bool" where
  "wires_wf env fd acts =
     (wires acts = [] \<or>
      (\<exists>resp s. resp_wf resp \<and> prefix s (serialize (ce_ord env) resp) \<and> wires acts = [(fd, s)]))"

lemma send_response_wf:
  assumes "resp_wf resp"
  shows "wires_wf env fd (fst (send_response plat script fd (serialize (ce_ord env) resp)))"
  by (cases rule: send_response_cases [of plat script fd "serialize (ce_ord env) resp"])
     (use assms in \<open>auto simp: wires_wf_def\<close>)

lemma wires_wf_skip:
  "wires a = [] \<Longrightarrow> wires b = [] \<Longrightarrow> wires_wf env fd (a @ m @ b) = wires_wf env fd m"
  by (simp add: wires_wf_def)

lemma make_response_wf:
  assumes "iteration_order (ce_ord env)" "routes_wf (ts_router srv)"
  shows "wires (fst (make_response srv env pr)) = [] \<and>
         (\<forall>resp. snd (make_response srv env pr) = Some (Inr resp) \<longrightarrow> resp_wf resp)"
proof -
  obtain req where b: "build_request pr = Inr req" using build_request_total by blast
  show ?thesis
    by (cases "pr_error pr"; cases "Router_handle (ce_ord env) (ce_handler env) (ts_router srv) req")
       (auto simp: make_response_def b factories_wf dest: Router_handle_wf [OF assms])
qed

lemma answer_request_wf:
  assumes "iteration_order (ce_ord env)" "routes_wf (ts_router srv)"
  shows "wires_wf env fd (fst (answer_request srv env fd addr raw)) \<and>
         (\<forall>e. snd (answer_request srv env fd addr raw) = Some (Inl e) \<longrightarrow>
            wires (fst (answer_request srv env fd addr raw)) = [])"
proof -
  obtain pr where p: "HttpParser_parse raw (cfg_max_header_size (ts_config srv))
      (cfg_max_body_size (ts_config srv)) = Inr pr" using parse_total by blast
  note w = make_response_wf [OF assms, of pr]
  show ?thesis
  proof (cases rule: make_response_cases [of srv env pr])
    case (1 e resp)
    with w have "resp_wf resp" by simp
    note s = send_response_wf [OF this, of env fd "ts_platform srv" "ce_send env"]
    show ?thesis
      by (cases rule: send_response_cases [of "ts_platform srv" "ce_send env" fd "serialize (ce_ord env) resp"])
         (use s in \<open>auto simp: answer_request_def p 1 Let_def wires_wf_def\<close>)
  next
    case (2 ex)
    then show ?thesis by (simp add: answer_request_def p wires_wf_def)
  qed
qed

lemma handle_client_wf:
  assumes "iteration_order (ce_ord env)" "routes_wf (ts_router srv)"
  shows "wires_wf env fd (fst (handle_client srv env fd addr))"
proof (cases "recv_request (ts_platform srv) (ts_config srv) (ce_recv env) []")
  case None
  then show ?thesis by (simp add: handle_client_def wires_wf_def)
next
  case (Some q)
  obtain raw where raw: "q = Inr raw" using recv_request_no_throw [OF Some] by blast
  note w = answer_request_wf [OF assms, of fd addr raw]
  note s = send_response_wf [OF factories_wf(6), of env fd "ts_platform srv" "ce_send env" "''Internal Server Error''"]
  show ?thesis
  proof (cases "raw = []")
    case True
    with Some raw show ?thesis by (simp add: handle_client_def close_connection_def wires_wf_def)
  next
    case False
    show ?thesis
    proof (cases rule: answer_request_cases [of srv env fd addr raw])
      case (2 ex)
      show ?thesis
        by (cases rule: send_response_cases [of "ts_platform srv" "ce_send env" fd "serialize (ce_ord env) (internal_error ''Internal Server Error'')"])
           (use Some raw False 2 s in
             \<open>simp_all add: handle_client_def error_response_def close_connection_def wires_wf_def\<close>)
    qed (use Some raw False w in \<open>simp_all add: handle_client_def close_connection_def wires_wf_def\<close>)
  qed
qed

subsection \<open>The accept loop\<close>

definition balanced :: "int multiset \<Rightarrow> action list \<Rightarrow> bool" where
  "balanced extra acts =
     (mset (closes acts) + mset (map fst (submits acts)) = mset (accepts acts) + extra \<and>
      mset (map fst (submits acts)) \<subseteq># mset (accepts acts) \<and>
      count_list (events acts) Ev_opened = length (accepts acts) \<and>
      count_list (events acts) Ev_closed + length (submits acts) = length (accepts acts) \<and>
      count_list (events acts) Ev_request = 0 \<and>
      outcomes (events acts) = count_list (events acts) Ev_closed)"

lemma outcomes_append [simp]: "outcomes (a @ b) = outcomes a + outcomes b"
  by (simp add: outcomes_def)

lemma balanced_Nil: "balanced {#} []"
  by (simp add: balanced_def outcomes_def)

lemma balanced_append: "balanced x a \<Longrightarrow> balanced y b \<Longrightarrow> balanced (x + y) (a @ b)"
  by (auto simp: balanced_def ac_simps intro: subset_mset.add_mono)

lemma reject_client_cases:
  obtains acts where "reject_client plat ord script fd lg = (acts, None)"
  | wire where "prefix wire (serialize ord service_unavailable)"
      "reject_client plat ord script fd lg =
         ([lg, A_wire fd wire, A_metric (Ev_bytes (of_nat (length (serialize ord service_unavailable)))),
           A_metric Ev_server_error, A_close fd, A_metric Ev_closed], Some (Inr ()))"
  by (cases rule: send_response_cases [of plat script fd "serialize ord service_unavailable"])
     (auto simp: reject_client_def close_connection_def Let_def intro: that)

lemma submit_client_cases:
  obtains acts where "submit_client plat ord what rd fd info = (acts, None)"
  | "submit_client plat ord what rd fd info = ([A_submit fd info], Some (Inr ()))"
  | lv msg wire where "prefix wire (serialize ord service_unavailable)"
      "submit_client plat ord what rd fd info =
         ([A_log lv msg, A_wire fd wire,
           A_metric (Ev_bytes (of_nat (length (serialize ord service_unavailable)))),
           A_metric Ev_server_error, A_close fd, A_metric Ev_closed], Some (Inr ()))"
proof (cases "ar_submit_throws rd")
  case (Some e)
  show ?thesis
    by (cases rule: reject_client_cases [of plat ord "ar_send rd" fd
          "A_log LOG_ERROR (''Failed to submit client task: '' @ what e)"])
       (auto simp: submit_client_def Some intro: that)
next
  case None
  obtain b n p where p: "pool_submit (fd, info) (ar_pool rd) = (b, n, p)"
    by (cases "pool_submit (fd, info) (ar_pool rd)")
  show ?thesis
    by (cases rule: reject_client_cases [of plat ord "ar_send rd" fd
          "A_log LOG_WARN (''Queue full, sending 503 to '' @ info)"])
       (cases b; auto simp: submit_client_def None p run_do_def intro: that)+
qed

lemma handle_accept_balanced:
  assumes "handle_accept ord what srv rd = (acts, Some r)"
  shows "balanced {#} acts \<and> (\<exists>cont. r = Inr cont \<and> (\<not> cont \<longrightarrow> \<not> ts_running srv))"
proof (cases "ar_result rd")
  case (Accept_failed err)
  with assms show ?thesis
    by (auto simp: handle_accept_def run_return_def balanced_def outcomes_def split: if_splits)
next
  case (Accepted fd ip port)
  let ?info = "ip @ '':'' @ nat_to_string port"
  show ?thesis
    by (cases rule: submit_client_cases [of "ts_platform srv" ord what rd fd ?info])
       (use assms Accepted in \<open>auto simp: handle_accept_def balanced_def outcomes_def\<close>)
qed

definition listener_ok :: "int \<Rightarrow> TcpServer \<Rightarrow> bool" where
  "listener_ok L srv =
     (L \<noteq> invalid_socket (ts_platform srv) \<and>
      ts_listen_fd srv = (if ts_running srv then L else invalid_socket (ts_platform srv)))"

definition closed_by :: "int \<Rightarrow> TcpServer \<Rightarrow> TcpServer \<Rightarrow> int multiset" where
  "closed_by L srv srv' = (if ts_running srv \<and> \<not> ts_running srv' then {#L#} else {#})"

lemma deliver_signal_listener:
  assumes "deliver_signal sg srv = (acts, srv')" "listener_ok L srv"
  shows "listener_ok L srv'" "balanced (closed_by L srv srv') acts" "ts_running srv' \<longrightarrow> ts_running srv"
  using assms
  by (auto simp: deliver_signal_def signal_handler_def console_handler_def stop_def listener_ok_def closed_by_def balanced_def outcomes_def
      split: if_splits option.splits platform.splits)

lemma closed_by_trans:
  "(ts_running s2 \<longrightarrow> ts_running s1) \<Longrightarrow> (ts_running s3 \<longrightarrow> ts_running s2) \<Longrightarrow>
     closed_by L s1 s2 + closed_by L s2 s3 = closed_by L s1 s3"
  by (cases "ts_running s1"; cases "ts_running s2"; cases "ts_running s3") (simp_all add: closed_by_def)

lemma accept_loop_balanced:
  assumes "accept_loop ord what rds srv = ((acts, Some r), srv')" "listener_ok L srv"
  shows "r = Inr () \<and> \<not> ts_running srv' \<and> listener_ok L srv' \<and> balanced (closed_by L srv srv') acts"
  using assms(1,2)
proof (induction rds arbitrary: srv acts)
  case Nil
  then show ?case
    by (auto simp: run_return_def closed_by_def balanced_Nil split: if_splits)
next
  case (Cons rd rds)
  obtain a1 s1 where 1: "deliver_signal (ar_signal_before rd) srv = (a1, s1)"
    by (cases "deliver_signal (ar_signal_before rd) srv")
  note l1 = deliver_signal_listener [OF 1 Cons.prems(2)]
  show ?case
  proof (cases "ts_running s1")
    case False
    with Cons.prems(1) 1 l1 show ?thesis by auto
  next
    case True
    obtain a2 s2 where 2: "deliver_signal (ar_signal_during rd) s1 = (a2, s2)"
      by (cases "deliver_signal (ar_signal_during rd) s1")
    note l2 = deliver_signal_listener [OF 2 l1(1)]
    obtain a3 q where 3: "handle_accept ord what s2 rd = (a3, q)"
      by (cases "handle_accept ord what s2 rd")
    obtain qv where q: "q = Some qv" using Cons.prems(1) 1 2 3 True by (cases q) auto
    from handle_accept_balanced [OF 3 [unfolded q]] obtain cont where
      b3: "balanced {#} a3" and cont: "qv = Inr cont" "\<not> cont \<longrightarrow> \<not> ts_running s2" by blast
    have "balanced {#} [A_accept_call (ts_listen_fd s1)]" by (simp add: balanced_def outcomes_def)
    then have b: "balanced (closed_by L srv s2) (a1 @ [A_accept_call (ts_listen_fd s1)] @ a2 @ a3)"
      using balanced_append [OF l1(2) balanced_append [OF _ balanced_append [OF l2(2) b3]]]
        closed_by_trans [OF l1(3) l2(3), of L] by fastforce
    show ?thesis
    proof (cases cont)
      case False
      with Cons.prems(1) 1 2 3 True q cont b l2 show ?thesis by auto
    next
      case c: True
      obtain a4 r4 s3 where 4: "accept_loop ord what rds s2 = ((a4, r4), s3)"
        by (metis surj_pair)
      have e: "accept_loop ord what (rd # rds) srv = ((a1 @ [A_accept_call (ts_listen_fd s1)] @ a2 @ a3 @ a4, r4), s3)"
        by (simp add: 1 2 3 4 True q cont(1) c)
      then have r4: "r4 = Some r" "s3 = srv'" "acts = a1 @ [A_accept_call (ts_listen_fd s1)] @ a2 @ a3 @ a4" using Cons.prems(1) by auto
      from Cons.IH [OF 4 [unfolded r4(1,2)] l2(1)] have i: "r = Inr ()" "\<not> ts_running srv'"
        "listener_ok L srv'" "balanced (closed_by L s2 srv') a4" by auto
      have "closed_by L srv s2 + closed_by L s2 srv' = closed_by L srv srv'"
        by (rule closed_by_trans) (use l1(3) l2(3) i(2) in blast)+
      with balanced_append [OF b i(4)] i r4(3) show ?thesis by simp
    qed
  qed
qed

subsection \<open>The listening socket\<close>

lemma start_balanced:
  assumes start: "TcpServer_start se srv = ((acts, Some r), srv')" "r \<noteq> Start_terminated"
    and fd: "se_socket se \<noteq> invalid_socket (ts_platform srv)" and fresh: "\<not> ts_running srv"
  shows "listener_ok (se_socket se) srv' \<and>
         balanced (if ts_running srv' then {#} else {#se_socket se#}) acts"
proof -
  let ?L = "se_socket se"
  obtain a0 r0 s0 where 0: "open_listener se srv = ((a0, r0), s0)" by (metis surj_pair)
  show ?thesis
  proof (cases "r0 = Some (Inr ())")
    case False
    with 0 start have "acts = a0" "srv' = s0" by (auto simp: TcpServer_start_def)
    with 0 False fd fresh show ?thesis
      by (auto simp: open_listener_def Let_def balanced_def outcomes_def listener_ok_def split: if_splits)
  next
    case True
    with 0 fd have s0: "ts_running s0" "listener_ok ?L s0" "balanced {#} a0"
      by (auto simp: open_listener_def Let_def balanced_def outcomes_def listener_ok_def split: if_splits)
    obtain a1 r1 s1 where 1: "start_pool se s0 = ((a1, r1), s1)" by (metis surj_pair)
    then have s1: "ts_running s1" "listener_ok ?L s1" "balanced {#} a1"
      using s0 by (auto simp: start_pool_def Let_def listener_ok_def balanced_def outcomes_def split: option.splits)
    show ?thesis
    proof (cases "r1 = Start_completed")
      case False
      with 0 1 True start have "acts = a0 @ a1" "srv' = s1" by (auto simp: TcpServer_start_def)
      with s1 balanced_append [OF s0(3) s1(3)] show ?thesis by simp
    next
      case r1: True
      obtain a2 r2 s2 where 2: "accept_loop (se_ord se) (se_what se) (se_rounds se) s1 = ((a2, r2), s2)"
        by (metis surj_pair)
      obtain q where q: "r2 = Some q" using start 0 1 2 True r1 by (cases r2) (auto simp: TcpServer_start_def)
      from accept_loop_balanced [OF 2 [unfolded q] s1(2)] have
        l: "q = Inr ()" "\<not> ts_running s2" "listener_ok ?L s2" "balanced (closed_by ?L s1 s2) a2" by auto
      have fin: "finish_start s2 = ([A_log LOG_INFO ''Shutting down thread pool...'',
          A_log LOG_INFO ''Server stopped.''], s2\<lparr>ts_pool := None\<rparr>)"
        using l(2,3) by (simp add: finish_start_def Let_def listener_ok_def)
      have acts: "acts = a0 @ a1 @ a2 @ fst (finish_start s2)" "srv' = s2\<lparr>ts_pool := None\<rparr>"
        using start by (auto simp: TcpServer_start_def 0 1 2 True r1 q l(1) fin)
      have "closed_by ?L s1 s2 = {#?L#}" using s1(1) l(2) by (simp add: closed_by_def)
      with l(4) have b2: "balanced {#?L#} a2" by simp
      have "balanced {#} (fst (finish_start s2))" by (simp add: fin balanced_def outcomes_def)
      from balanced_append [OF s0(3) balanced_append [OF s1(3) balanced_append [OF b2 this]]]
      have "balanced {#?L#} acts" by (simp add: acts(1))
      with l(2,3) show ?thesis by (simp add: acts(2) listener_ok_def)
    qed
  qed
qed

text \<open>A signal that arrives before \<open>running_\<close> is set is lost: the handler changes nothing, and \<open>start\<close> goes on.\<close>

lemma signal_before_running_lost: "\<not> ts_running srv \<Longrightarrow> snd (deliver_signal sg srv) = srv"
  by (simp add: deliver_signal_def signal_handler_def console_handler_def stop_def split: option.split platform.split)

section \<open>Properties\<close>

definition sample_server :: TcpServer where
  "sample_server = snd (TcpServer_make Posix sample_fs ((Config_default 4)\<lparr>cfg_document_root := ''/srv''\<rparr>))"

definition sample_conn :: "recv_result list \<Rightarrow> conn_env" where
  "sample_conn rs =
     \<lparr>ce_recv = rs, ce_send = [(100, 0), (-1, EINTR), (1000, 0)], ce_latency = 3,
      ce_handler = sample_env, ce_what = (\<lambda>_. ''error''), ce_ord = (\<lambda>ks. ks)\<rparr>"

text \<open>
  C15: A connection is always cleaned up: whatever the client sends, the kernel answers and the
  handlers throw, when \<open>handle_client\<close> ends, it ends normally, its last two actions close the
  client's descriptor and count the connection as closed, it has closed that descriptor exactly once
  and no other, has sent to no other, and has counted one request and exactly one outcome
  (success, client error or server error), or none if the client sent nothing.
\<close>

theorem handle_client_cleans_up:
  assumes "handle_client srv env fd addr = (acts, Some r)"
  shows "r = Inr () \<and> (\<exists>pre. acts = pre @ [A_close fd, A_metric Ev_closed]) \<and> closes acts = [fd] \<and>
         fst ` set (wires acts) \<subseteq> {fd} \<and>
         count_list (events acts) Ev_request = 1 \<and> count_list (events acts) Ev_closed = 1 \<and>
         outcomes (events acts) =
           (if recv_request (ts_platform srv) (ts_config srv) (ce_recv env) [] = Some (Inr []) then 0 else 1)"
  using handle_client_cases [OF assms] handle_client_effects [OF assms] by auto

theorem handle_client_cleans_up_witness:
  "\<exists>acts. handle_client sample_server (sample_conn [Received ''GET /'', Received []]) 9 ''c'' =
     (acts, Some (Inr ())) \<and> closes acts = [9] \<and> outcomes (events acts) = 1"
proof -
  let ?env = "sample_conn [Received ''GET /'', Received []]"
  obtain acts r where h: "handle_client sample_server ?env 9 ''c'' = (acts, r)" by (metis surj_pair)
  have "snd (handle_client sample_server ?env 9 ''c'') = Some (Inr ())"
    and q: "recv_request (ts_platform sample_server) (ts_config sample_server) (ce_recv ?env) [] \<noteq> Some (Inr [])" by code_simp+
  then have r: "r = Some (Inr ())" unfolding h by (simp only: snd_conv)
  show ?thesis
    using handle_client_cleans_up [OF h [unfolded r]] h r q by (simp only: if_False) blast
qed

text \<open>
  C5: End to end: a client that sends a request in the wire format with a declared body, within
  the limits and in any segmentation, receives, if the kernel accepts the bytes, exactly the
  serialisation of the response that the router gives for that request, and the metrics count one
  request, its outcome by status, the bytes and the latency, and the closing.
\<close>

theorem handle_client_end_to_end:
  assumes "word_ok m" "word_ok p" "word_ok v" "prefix ''HTTP/'' v" "list_all header_ok (hs1 @ hs2)"
    and "hs = hs1 @ (''Content-Length'', nat_to_string (length body)) # hs2" "umap_ok hs"
    and "str_find ''content-length:'' (lower_str (head_before m p v hs1)) = None"
    and "length (request_head m p v hs) + 4 \<le> cfg_max_header_size (ts_config srv)"
    and "length body \<le> cfg_max_body_size (ts_config srv)"
    and "length (request_text m p v hs body) < 2 ^ 64"
    and "concat chunks = request_text m p v hs body" "list_all (\<lambda>c. c \<noteq> []) chunks"
    and "ce_recv env = map Received chunks @ rest"
    and "Router_handle (ce_ord env) (ce_handler env) (ts_router srv)
           \<lparr>req_method = string_to_method m, req_method_string = m, req_path = p,
            req_version = v, req_headers = hs, req_body = body\<rparr> = Inr resp"
    and "list_all (\<lambda>(sent, err). 0 < sent \<or> interrupted (ts_platform srv) err) (ce_send env)"
    and "length (serialize (ce_ord env) resp) \<le> sent_bytes (ce_send env)"
  shows "\<exists>acts. handle_client srv env fd addr = (acts, Some (Inr ())) \<and>
           wires acts = [(fd, serialize (ce_ord env) resp)] \<and>
           events acts = [Ev_request, Ev_queue_size (of_nat (ts_queue_size srv)),
             status_event (status_int (resp_status resp)),
             Ev_bytes (of_nat (length (serialize (ce_ord env) resp))), Ev_latency (ce_latency env), Ev_closed]"
proof -
  let ?text = "request_text m p v hs body"
  let ?pr = "(request_result m p v hs)\<lparr>pr_body := body, pr_error := NONE\<rparr>"
  have recv: "recv_request (ts_platform srv) (ts_config srv) (ce_recv env) [] = Some (Inr ?text)"
    unfolding assms(14) by (rule recv_request_text [OF assms(1-3,5,6,8-13)])
  have "length body < 2 ^ 64" using assms(11) by (simp add: request_text_def)
  then have parse: "HttpParser_parse ?text (cfg_max_header_size (ts_config srv))
      (cfg_max_body_size (ts_config srv)) = Inr ?pr"
    using parse_declared [OF assms(1-3,5,6,4,9,8) _ assms(11)] assms(10) by simp
  have "list_all header_ok hs" using assms(5,6) header_ok_content_length by simp
  note build = build_request_result [OF this assms(7)]
  have send: "send_response (ts_platform srv) (ce_send env) fd (serialize (ce_ord env) resp) =
      ([A_wire fd (serialize (ce_ord env) resp)], Some (Inr ()))"
    using send_all_finishes [OF assms(16), of "serialize (ce_ord env) resp" 0] assms(17)
    by (simp add: send_response_def)
  have "make_response srv env ?pr =
      ([A_metric (status_event (status_int (resp_status resp)))], Some (Inr resp))"
    using build assms(15) by (simp add: make_response_def status_code_def)
  then have ans: "answer_request srv env fd addr ?text =
      ([A_metric (status_event (status_int (resp_status resp))), A_wire fd (serialize (ce_ord env) resp),
        A_metric (Ev_bytes (of_nat (length (serialize (ce_ord env) resp)))),
        A_metric (Ev_latency (ce_latency env)), A_log LOG_INFO (request_log env ?pr resp addr)],
       Some (Inr ()))"
    by (simp add: answer_request_def parse Let_def send)
  have "?text \<noteq> []" by (simp add: request_text_def)
  then show ?thesis
    by (simp add: handle_client_def recv ans close_connection_def)
qed

theorem handle_client_end_to_end_witness:
  "\<exists>acts. handle_client sample_server (sample_conn (map Received [take 9 sample_text, drop 9 sample_text] @ [])) 9 ''c'' =
       (acts, Some (Inr ())) \<and>
     wires acts = [(9, serialize (\<lambda>ks. ks) (HttpResponse_ok ''hello'' ''text/plain''))] \<and>
     events acts = [Ev_request, Ev_queue_size 0, Ev_success, Ev_bytes 88, Ev_latency 3, Ev_closed]"
proof -
  let ?env = "sample_conn (map Received [take 9 sample_text, drop 9 sample_text] @ [])"
  let ?resp = "HttpResponse_ok ''hello'' ''text/plain''"
  have "\<exists>acts. handle_client sample_server ?env 9 ''c'' = (acts, Some (Inr ())) \<and>
           wires acts = [(9, serialize (ce_ord ?env) ?resp)] \<and>
           events acts = [Ev_request, Ev_queue_size (of_nat (ts_queue_size sample_server)),
             status_event (status_int (resp_status ?resp)),
             Ev_bytes (of_nat (length (serialize (ce_ord ?env) ?resp))), Ev_latency (ce_latency ?env), Ev_closed]"
    unfolding sample_text_def
    by (rule handle_client_end_to_end [where m = "''POST''" and p = "''/echo''" and v = "''HTTP/1.1''"
          and ?hs1.0 = "[]" and ?hs2.0 = "[]" and body = "''hello''" and rest = "[]"
          and chunks = "[take 9 sample_text, drop 9 sample_text]", unfolded sample_text_def,
          OF _ _ _ _ _ refl]; code_simp)
  moreover have "ts_queue_size sample_server = 0" "status_event (status_int (resp_status ?resp)) = Ev_success"
    "length (serialize (\<lambda>ks. ks) ?resp) = 88" by code_simp+
  ultimately show ?thesis by (simp add: sample_conn_def)
qed

text \<open>
  C20: Backpressure: an accepted connection is handed to the pool exactly when the pool runs and
  its queue has room; otherwise it is answered at once, by the accepting thread, with 503 and
  \<open>Retry-After\<close>, closed, and counted as a server error, and the loop goes on.
\<close>

theorem accept_backpressure:
  assumes "ar_result rd = Accepted fd ip port" "ar_submit_throws rd = None"
    and "list_all (\<lambda>(sent, err). 0 < sent \<or> interrupted (ts_platform srv) err) (ar_send rd)"
    and "length (serialize ord service_unavailable) \<le> sent_bytes (ar_send rd)"
  shows "\<exists>acts. handle_accept ord what srv rd = (acts, Some (Inr True)) \<and> accepts acts = [fd] \<and>
           (if tp_stopped (ar_pool rd) \<or> is_queue_full (ar_pool rd)
            then submits acts = [] \<and> closes acts = [fd] \<and>
                 wires acts = [(fd, serialize ord service_unavailable)] \<and>
                 resp_header service_unavailable ''Retry-After'' = Some ''5'' \<and>
                 filter is_outcome (events acts) = [Ev_server_error]
            else submits acts = [(fd, ip @ '':'' @ nat_to_string port)] \<and> closes acts = [] \<and> wires acts = [])"
proof -
  have ra: "resp_header service_unavailable ''Retry-After'' = Some ''5''" by code_simp
  have send: "send_response (ts_platform srv) (ar_send rd) fd (serialize ord service_unavailable) =
      ([A_wire fd (serialize ord service_unavailable)], Some (Inr ()))"
    using send_all_finishes [OF assms(3), of "serialize ord service_unavailable" 0] assms(4)
    by (simp add: send_response_def)
  show ?thesis
    using assms(1,2) ra
    by (auto simp: handle_accept_def submit_client_def pool_submit_def push_def is_queue_full_def
        is_full_def reject_client_def send close_connection_def Let_def)
qed

definition sample_round :: "task ThreadPool \<Rightarrow> accept_round" where
  "sample_round pool =
     \<lparr>ar_signal_before = None, ar_signal_during = None, ar_result = Accepted 9 ''127.0.0.1'' 4000,
      ar_pool = pool, ar_submit_throws = None, ar_send = [(1000, 0)]\<rparr>"

theorem accept_backpressure_witness:
  "\<exists>acts. handle_accept (\<lambda>ks. ks) (\<lambda>_. []) sample_server (sample_round (ThreadPool_make 2 0)) =
       (acts, Some (Inr True)) \<and>
     closes acts = [9] \<and> wires acts = [(9, serialize (\<lambda>ks. ks) service_unavailable)]"
proof -
  have "length (serialize (\<lambda>ks. ks) service_unavailable) \<le> 1000"
    "is_queue_full (ThreadPool_make 2 0 :: task ThreadPool)" by code_simp+
  with accept_backpressure [of "sample_round (ThreadPool_make 2 0)" 9 "''127.0.0.1''" 4000 sample_server
      "\<lambda>ks. ks" "\<lambda>_. []"]
  show ?thesis by (auto simp: sample_round_def sent_bytes_def)
qed

text \<open>
  C21: On POSIX the listening socket is closed exactly once: whichever system call of \<open>start\<close> or the
  creation of the pool fails (short of terminating the process), and whenever a run of the signal handler
  falls between two accesses of the accepting thread, once \<open>start\<close> has returned or thrown and the server
  is destroyed, the socket that \<open>start\<close> opened has been closed exactly once, provided the kernel has not
  reused its descriptor for a client meanwhile; and the server is stopped.
\<close>

theorem listen_socket_closed_once:
  assumes "TcpServer_start se srv = ((acts, Some r), srv')" "r \<noteq> Start_terminated"
    and "ts_platform srv = Posix" "se_socket se \<noteq> invalid_socket Posix"
    and "\<not> ts_running srv" "se_socket se \<notin> set (accepts acts)"
    and "TcpServer_destroy srv' = (acts', srv'')"
  shows "count_list (closes (acts @ acts')) (se_socket se) = 1 \<and>
         ts_listen_fd srv'' = invalid_socket (ts_platform srv'') \<and> \<not> ts_running srv''"
proof -
  let ?L = "se_socket se" and ?x = "if ts_running srv' then {#} else {#se_socket se#}"
  have b: "listener_ok ?L srv'" "balanced ?x acts" using start_balanced [OF assms(1,2)] assms(3-5) by simp_all
  have d: "closes acts' = (if ts_running srv' then [?L] else [])" "\<not> ts_running srv''"
    "ts_listen_fd srv'' = invalid_socket (ts_platform srv'')"
    using assms(7) b(1)
    by (cases "ts_running srv'"; auto simp: TcpServer_destroy_def stop_def listener_ok_def)+
  have m: "mset (closes acts) + mset (map fst (submits acts)) = mset (accepts acts) + ?x"
    using b(2) by (simp only: balanced_def)
  have "mset (map fst (submits acts)) \<subseteq># mset (accepts acts)" using b(2) by (simp add: balanced_def)
  then have "set (map fst (submits acts)) \<subseteq> set (accepts acts)"
    using set_mset_mono [of "mset (map fst (submits acts))" "mset (accepts acts)"] by simp
  with assms(6) have "count (mset (map fst (submits acts))) ?L = 0" "count (mset (accepts acts)) ?L = 0"
    by (auto simp: count_eq_zero_iff)
  with arg_cong [OF m, of "\<lambda>M. count M ?L"]
  have "count (mset (closes acts)) ?L = count ?x ?L" by simp
  then have "count_list (closes acts) ?L = (if ts_running srv' then 0 else 1)" by (simp add: count_mset)
  then show ?thesis using d by simp
qed

definition sample_start :: start_env where
  "sample_start =
     \<lparr>se_socket = 3, se_errno = 0, se_setsockopt = 0, se_bind = 0, se_listen = 0, se_pool_fails = None,
      se_rounds = [sample_round (ThreadPool_make 4 50),
                   (sample_round (ThreadPool_make 4 50))
                     \<lparr>ar_result := Accept_failed EINTR, ar_signal_during := Some SIGTERM\<rparr>],
      se_what = (\<lambda>_. []), se_ord = (\<lambda>ks. ks)\<rparr>"

theorem listen_socket_closed_once_witness:
  "\<exists>acts srv'. TcpServer_start sample_start sample_server = ((acts, Some Start_completed), srv') \<and>
     accepts acts = [9] \<and>
     count_list (closes (acts @ fst (TcpServer_destroy srv'))) (se_socket sample_start) = 1"
proof -
  obtain acts r srv' where h: "TcpServer_start sample_start sample_server = ((acts, r), srv')"
    by (metis surj_pair)
  have "snd (fst (TcpServer_start sample_start sample_server)) = Some Start_completed"
    "accepts (fst (fst (TcpServer_start sample_start sample_server))) = [9]" by code_simp+
  then have r: "r = Some Start_completed" "accepts acts = [9]" by (simp_all only: h fst_conv snd_conv)
  have s: "ts_platform sample_server = Posix" "se_socket sample_start \<noteq> invalid_socket Posix"
    "\<not> ts_running sample_server" "se_socket sample_start \<notin> set [9]" by code_simp+
  obtain a' s' where d: "TcpServer_destroy srv' = (a', s')" by (metis surj_pair)
  have "se_socket sample_start \<notin> set (accepts acts)" unfolding r(2) by (rule s(4))
  from listen_socket_closed_once [OF h [unfolded r(1)] _ s(1-3) this d]
  have "count_list (closes (acts @ fst (TcpServer_destroy srv'))) (se_socket sample_start) = 1"
    unfolding d fst_conv by simp
  with h [unfolded r(1)] r(2) show ?thesis by blast
qed

end
