(* ===== verification/StopRace.thy ===== *)
theory StopRace
  imports SocketCompat
begin

text \<open>
  The two threads that may close the listening socket, one shared access per step: \<open>TcpServer::stop\<close>, run
  by the signal or console handler, and the end of \<open>TcpServer::start\<close> on the main thread.

  On POSIX a signal handler runs on the main thread or on a worker, and \<open>start\<close> joins the workers
  before it looks at the socket; so it does not pass the join while the handler is under way. On Windows
  the system runs a console handler on a thread of its own, which nobody joins. A second run of the handler
  finds \<open>running_\<close> cleared and does nothing, so one run is enough. \<open>ServerSystem\<close> interleaves these turns with
  the rest of the server.
\<close>

section \<open>The steps\<close>

datatype handler_pc = H_idle | H_exchanged | H_checked | H_closed | H_done

datatype main_pc = N_loop | N_left | N_joined | N_checked | N_closed | N_done

record stop_state =
  st_listen_fd :: int
  st_running :: bool
  st_closed :: "int list"
  st_handler :: handler_pc
  st_main :: main_pc

definition stop_init :: "int \<Rightarrow> stop_state" where
  "stop_init L =
     \<lparr>st_listen_fd = L, st_running = True, st_closed = [], st_handler = H_idle, st_main = N_loop\<rparr>"

definition handler_turn :: "platform \<Rightarrow> stop_state \<Rightarrow> stop_state option" where
  "handler_turn plat s =
     (case st_handler s of
        H_idle \<Rightarrow>
          if st_running s then Some (s\<lparr>st_running := False, st_handler := H_exchanged\<rparr>)
          else Some (s\<lparr>st_handler := H_done\<rparr>)
      | H_exchanged \<Rightarrow>
          if st_listen_fd s \<noteq> invalid_socket plat then Some (s\<lparr>st_handler := H_checked\<rparr>)
          else Some (s\<lparr>st_handler := H_done\<rparr>)
      | H_checked \<Rightarrow> Some (s\<lparr>st_closed := st_closed s @ [st_listen_fd s], st_handler := H_closed\<rparr>)
      | H_closed \<Rightarrow> Some (s\<lparr>st_listen_fd := invalid_socket plat, st_handler := H_done\<rparr>)
      | H_done \<Rightarrow> None)"

fun under_way :: "handler_pc \<Rightarrow> bool" where
  "under_way H_idle = False"
| "under_way H_done = False"
| "under_way _ = True"

definition main_turn :: "platform \<Rightarrow> stop_state \<Rightarrow> stop_state option" where
  "main_turn plat s =
     (case st_main s of
        N_loop \<Rightarrow> if st_running s then None else Some (s\<lparr>st_main := N_left\<rparr>)
      | N_left \<Rightarrow>
          (case plat of
             Posix \<Rightarrow> if under_way (st_handler s) then None else Some (s\<lparr>st_main := N_joined\<rparr>)
           | Windows \<Rightarrow> Some (s\<lparr>st_main := N_joined\<rparr>))
      | N_joined \<Rightarrow>
          if st_listen_fd s \<noteq> invalid_socket plat then Some (s\<lparr>st_main := N_checked\<rparr>)
          else Some (s\<lparr>st_main := N_done\<rparr>)
      | N_checked \<Rightarrow> Some (s\<lparr>st_closed := st_closed s @ [st_listen_fd s], st_main := N_closed\<rparr>)
      | N_closed \<Rightarrow> Some (s\<lparr>st_listen_fd := invalid_socket plat, st_main := N_done\<rparr>)
      | N_done \<Rightarrow> None)"

inductive stop_reach :: "platform \<Rightarrow> int \<Rightarrow> stop_state \<Rightarrow> bool" for plat L where
  start: "stop_reach plat L (stop_init L)"
| handler: "stop_reach plat L s \<Longrightarrow> handler_turn plat s = Some s' \<Longrightarrow> stop_reach plat L s'"
| main: "stop_reach plat L s \<Longrightarrow> main_turn plat s = Some s' \<Longrightarrow> stop_reach plat L s'"

text \<open>A schedule says for each step whether the handler moves.\<close>

fun stop_run :: "platform \<Rightarrow> bool list \<Rightarrow> stop_state \<Rightarrow> stop_state option" where
  "stop_run plat [] s = Some s"
| "stop_run plat (h # hs) s =
     (case (if h then handler_turn plat s else main_turn plat s) of
        None \<Rightarrow> None
      | Some s' \<Rightarrow> stop_run plat hs s')"

section \<open>Lemmas\<close>

text \<open>The accesses that each thread has still to do, at most.\<close>

fun handler_rank :: "handler_pc \<Rightarrow> nat" where
  "handler_rank H_idle = 4"
| "handler_rank H_exchanged = 3"
| "handler_rank H_checked = 2"
| "handler_rank H_closed = 1"
| "handler_rank H_done = 0"

fun main_rank :: "main_pc \<Rightarrow> nat" where
  "main_rank N_loop = 5"
| "main_rank N_left = 4"
| "main_rank N_joined = 3"
| "main_rank N_checked = 2"
| "main_rank N_closed = 1"
| "main_rank N_done = 0"

definition stop_inv :: "int \<Rightarrow> stop_state \<Rightarrow> bool" where
  "stop_inv L s =
     (case st_handler s of
        H_idle \<Rightarrow> st_running s \<and> st_listen_fd s = L \<and> st_closed s = [] \<and> st_main s = N_loop
      | H_exchanged \<Rightarrow> \<not> st_running s \<and> st_listen_fd s = L \<and> st_closed s = [] \<and> st_main s \<in> {N_loop, N_left}
      | H_checked \<Rightarrow> \<not> st_running s \<and> st_listen_fd s = L \<and> st_closed s = [] \<and> st_main s \<in> {N_loop, N_left}
      | H_closed \<Rightarrow> \<not> st_running s \<and> st_listen_fd s = L \<and> st_closed s = [L] \<and> st_main s \<in> {N_loop, N_left}
      | H_done \<Rightarrow> \<not> st_running s \<and> st_listen_fd s = invalid_socket Posix \<and> st_closed s = [L] \<and>
                  st_main s \<notin> {N_checked, N_closed})"

lemma handler_turn_inv:
  assumes "handler_turn Posix s = Some s'" "stop_inv L s" "L \<noteq> invalid_socket Posix"
  shows "stop_inv L s'"
  using assms
  by (cases "st_handler s") (auto simp: handler_turn_def stop_inv_def split: if_splits)

lemma main_turn_inv:
  assumes "main_turn Posix s = Some s'" "stop_inv L s"
  shows "stop_inv L s'"
  using assms
  by (cases "st_handler s"; cases "st_main s") (auto simp: main_turn_def stop_inv_def split: if_splits)

lemma handler_turn_frame:
  assumes "handler_turn plat s = Some s'"
  shows "st_main s' = st_main s" "st_running s' \<Longrightarrow> st_running s" "handler_rank (st_handler s') < handler_rank (st_handler s)"
  using assms by (cases "st_handler s"; auto simp: handler_turn_def split: if_splits)+

lemma main_turn_frame:
  assumes "main_turn plat s = Some s'"
  shows "st_running s' = st_running s" "st_handler s' = st_handler s" "st_main s' \<noteq> N_loop"
    "st_main s = N_loop \<Longrightarrow> \<not> st_running s \<and> st_main s' = N_left"
    "main_rank (st_main s') < main_rank (st_main s)"
  using assms by (cases "st_main s"; auto simp: main_turn_def split: if_splits platform.splits)+

lemma stop_reach_inv:
  "stop_reach Posix L s \<Longrightarrow> L \<noteq> invalid_socket Posix \<Longrightarrow> stop_inv L s"
proof (induction rule: stop_reach.induct)
  case start
  show ?case by (simp add: stop_inv_def stop_init_def)
qed (blast intro: handler_turn_inv main_turn_inv)+

lemma stop_run_reach:
  "stop_reach plat L s \<Longrightarrow> stop_run plat hs s = Some s' \<Longrightarrow> stop_reach plat L s'"
proof (induction hs arbitrary: s)
  case (Cons h hs)
  then show ?case
    by (auto split: if_splits option.splits intro: stop_reach.handler stop_reach.main)
qed simp

lemma stop_run_ex:
  assumes "case stop_run plat hs (stop_init L) of None \<Rightarrow> False | Some s \<Rightarrow> P s"
  shows "\<exists>s. stop_reach plat L s \<and> P s"
proof (cases "stop_run plat hs (stop_init L)")
  case (Some s)
  with assms stop_run_reach [OF stop_reach.start Some] show ?thesis by auto
qed (use assms in simp)

section \<open>Properties\<close>

text \<open>
  C22: Closing the listening socket under concurrency. On POSIX, however the steps of the signal
  handler and of \<open>start\<close> interleave, the socket has never been closed twice and nothing else has been
  closed, and when \<open>start\<close> is done it has been closed. On Windows there is an interleaving in which both
  threads close it, so that the second call may hit a descriptor that has been reused meanwhile.
\<close>

theorem stop_closes_once:
  "(\<forall>s. stop_reach Posix L s \<and> L \<noteq> invalid_socket Posix \<longrightarrow>
      (st_closed s = [] \<or> st_closed s = [L]) \<and>
      (st_main s = N_done \<longrightarrow> st_closed s = [L] \<and> st_listen_fd s = invalid_socket Posix)) \<and>
   (\<exists>s. stop_reach Windows 3 s \<and> st_closed s = [3, 3])"
proof (intro conjI allI impI)
  fix s assume "stop_reach Posix L s \<and> L \<noteq> invalid_socket Posix"
  then have i: "stop_inv L s" using stop_reach_inv by blast
  then show "st_closed s = [] \<or> st_closed s = [L]"
    by (cases "st_handler s") (auto simp: stop_inv_def)
  assume "st_main s = N_done"
  with i show "st_closed s = [L]" "st_listen_fd s = invalid_socket Posix"
    by (cases "st_handler s"; simp add: stop_inv_def)+
next
  let ?sched = "[True, True, False, False, False, False, True]"
  have "(case stop_run Windows ?sched (stop_init 3) of None \<Rightarrow> False | Some s \<Rightarrow> st_closed s = [3, 3])"
    by code_simp
  then show "\<exists>s. stop_reach Windows 3 s \<and> st_closed s = [3, 3]" by (rule stop_run_ex)
qed

theorem stop_closes_once_witness:
  "\<exists>s. stop_reach Posix 3 s \<and> st_main s = N_done \<and> st_closed s = [3] \<and> st_listen_fd s = -1"
proof -
  let ?sched = "[True, True, False, True, True, False, False]"
  have "(case stop_run Posix ?sched (stop_init 3) of None \<Rightarrow> False | Some s \<Rightarrow> st_main s = N_done)"
    by code_simp
  from stop_run_ex [OF this] obtain s where "stop_reach Posix 3 s" "st_main s = N_done" by blast
  with stop_closes_once [of 3] show ?thesis by auto
qed

end
