(* ===== verification/ServerLog.thy ===== *)
theory ServerLog
  imports TcpServer HeaderFields
begin

text \<open>
  What the server writes to its log: the \<open>A_log\<close> actions of \<open>handle_client\<close> through the \<open>Logger\<close>. A log
  entry ends with a line feed, and its text contains parts of the request; the lemmas show that no request
  that is answered without an exception makes an entry span several lines, so that such entries cannot be
  forged. The entry for an exception quotes the text of the exception, of which nothing is assumed.
\<close>

section \<open>Specification\<close>

fun log_entries :: "action list \<Rightarrow> (LogLevel \<times> string) list" where
  "log_entries [] = []"
| "log_entries (A_log level msg # acts) = (level, msg) # log_entries acts"
| "log_entries (_ # acts) = log_entries acts"

text \<open>The calls of the logger for these entries, each with the time and thread at which it happens.\<close>

definition calls_of :: "log_call list \<Rightarrow> (LogLevel \<times> string) list" where
  "calls_of cs = map (\<lambda>(now, tid, level, msg). (level, msg)) cs"

definition call_safe :: "log_call \<Rightarrow> bool" where
  "call_safe c = (case c of (now, tid, level, msg) \<Rightarrow> line_safe tid)"

definition entry_line :: "log_call \<Rightarrow> string" where
  "entry_line c = (case c of (now, tid, level, msg) \<Rightarrow> butlast (log_line now tid level msg))"

definition shown :: "LogLevel \<Rightarrow> log_call list \<Rightarrow> log_call list" where
  "shown threshold cs = filter (\<lambda>(now, tid, level, msg). threshold \<le> level) cs"

section \<open>Lemmas\<close>

subsection \<open>The request line\<close>

lemma stream_word_safe: "stream_word s = Some (w, r) \<Longrightarrow> line_safe w"
  using stream_word_ok word_ok_no_break by blast

lemma read_request_line_safe:
  "read_request_line l = (m, p, v, ok) \<Longrightarrow> line_safe m \<and> line_safe p"
  by (auto simp: read_request_line_def line_safe_def split: option.splits prod.splits
      dest!: stream_word_safe [unfolded line_safe_def])

lemma parse_body_frame:
  assumes "parse_body raw h b mb res = Inr r"
  shows "pr_method r = pr_method res \<and> pr_path r = pr_path res"
  using assms
  by (auto simp: parse_body_def Let_def throws_bind_def split: option.splits sum.splits if_splits)

lemma parse_words_safe:
  assumes "HttpParser_parse raw mh mb = Inr r"
  shows "line_safe (pr_method r) \<and> line_safe (pr_path r)"
proof (cases "str_find crlfcrlf raw")
  case None
  with assms show ?thesis by (auto simp: HttpParser_parse_def Let_def ParseResult_default_def line_safe_def)
next
  case (Some h)
  have le: "h + 4 \<le> length raw" using str_find_Some [OF Some] by simp
  show ?thesis
  proof (cases "getline (take h raw)")
    case None
    with assms Some le show ?thesis
      by (auto simp: HttpParser_parse_def Let_def ParseResult_default_def line_safe_def split: if_splits)
  next
    case (Some lst)
    obtain l st where gl: "getline (take h raw) = Some (l, st)" using Some by (cases lst) simp
    obtain m p v ok where rl: "read_request_line (drop_trailing CR l) = (m, p, v, ok)" by (metis prod_cases4)
    have "pr_method r = m \<and> pr_path r = p \<or> pr_method r = [] \<and> pr_path r = []"
      using assms \<open>str_find crlfcrlf raw = Some h\<close> le gl rl
      by (auto simp: HttpParser_parse_def Let_def ParseResult_default_def split: if_splits dest!: parse_body_frame)
    with read_request_line_safe [OF rl] show ?thesis by (auto simp: line_safe_def)
  qed
qed

subsection \<open>The entries of a connection\<close>

lemma log_entries_append [simp]: "log_entries (a @ b) = log_entries a @ log_entries b"
  by (induction a rule: log_entries.induct) simp_all

definition entries_safe :: "action list \<Rightarrow> bool" where
  "entries_safe acts = list_all (\<lambda>(level, msg). line_safe msg) (log_entries acts)"

lemma entries_safe_append [simp]: "entries_safe (a @ b) \<longleftrightarrow> entries_safe a \<and> entries_safe b"
  by (simp add: entries_safe_def)

text \<open>What is assumed of the address and of printed numbers.\<close>

definition env_safe :: "conn_env \<Rightarrow> string \<Rightarrow> bool" where
  "env_safe env addr =
     (line_safe addr \<and> (\<forall>x. line_safe (d_show_fixed (he_dops (ce_handler env)) 1 x)))"

lemma request_log_safe:
  assumes "env_safe env addr" "line_safe (pr_method pr)" "line_safe (pr_path pr)"
  shows "line_safe (request_log env pr resp addr)"
proof -
  have "line_safe (nat_to_string (status_int (status_code resp)))" by simp
  with assms show ?thesis by (auto simp: request_log_def line_safe_def env_safe_def)
qed

lemma answer_request_entries:
  assumes "answer_request srv env fd addr raw = (acts, r)" "env_safe env addr"
  shows "entries_safe acts"
proof -
  obtain pr where p: "HttpParser_parse raw (cfg_max_header_size (ts_config srv))
      (cfg_max_body_size (ts_config srv)) = Inr pr" using parse_total by blast
  have l: "line_safe (request_log env pr resp addr)" for resp
    using request_log_safe [OF assms(2)] parse_words_safe [OF p] by blast
  show ?thesis
  proof (cases rule: make_response_cases [of srv env pr])
    case (1 e resp)
    show ?thesis
      by (cases rule: send_response_cases [of "ts_platform srv" "ce_send env" fd "serialize (ce_ord env) resp"])
         (use assms(1) l in \<open>auto simp: answer_request_def p 1 Let_def entries_safe_def\<close>)
  next
    case (2 ex)
    with assms(1) show ?thesis by (auto simp: answer_request_def p entries_safe_def)
  qed
qed

definition no_error_entry :: "action list \<Rightarrow> bool" where
  "no_error_entry acts = list_all (\<lambda>(level, msg). level \<noteq> LOG_ERROR) (log_entries acts)"

lemma error_response_entries:
  assumes "error_response srv env fd addr ex = (acts, r)"
  shows "\<not> no_error_entry acts"
  by (cases rule: send_response_cases [of "ts_platform srv" "ce_send env" fd
        "serialize (ce_ord env) (internal_error ''Internal Server Error'')"])
     (use assms in \<open>auto simp: error_response_def no_error_entry_def\<close>)

lemma handle_client_entries:
  assumes "handle_client srv env fd addr = (acts, r)" "env_safe env addr" "no_error_entry acts"
  shows "entries_safe acts"
proof (cases "recv_request (ts_platform srv) (ts_config srv) (ce_recv env) []")
  case None
  with assms show ?thesis by (auto simp: handle_client_def entries_safe_def)
next
  case (Some q)
  obtain raw where raw: "q = Inr raw" using recv_request_no_throw [OF Some] by blast
  obtain a1 r1 where ans: "answer_request srv env fd addr raw = (a1, r1)" by (metis surj_pair)
  note s1 = answer_request_entries [OF ans assms(2)]
  show ?thesis
  proof (cases "raw = [] \<or> (\<nexists>ex. r1 = Some (Inl ex))")
    case True
    with assms(1) Some raw ans s1 show ?thesis
      by (cases r1; cases "the r1")
         (auto simp: handle_client_def close_connection_def entries_safe_def split: if_splits)
  next
    case False
    then obtain ex where ex: "r1 = Some (Inl ex)" "raw \<noteq> []" by auto
    obtain a2 r2 where er: "error_response srv env fd addr ex = (a2, r2)" by (metis surj_pair)
    have "\<not> no_error_entry acts"
      using assms(1) Some raw ans ex er error_response_entries [OF er]
      by (cases r2; cases "the r2") (auto simp: handle_client_def close_connection_def no_error_entry_def)
    with assms(3) show ?thesis by simp
  qed
qed

subsection \<open>One line per entry\<close>

lemma log_line_split: "log_line now tid level msg = butlast (log_line now tid level msg) @ [LF]"
  by (simp add: log_line_def butlast_append)

lemma log_line_safe:
  assumes "line_safe tid" "line_safe msg"
  shows "LF \<notin> set (butlast (log_line now tid level msg))"
proof -
  have "LF \<notin> set (timestamp now)" using timestamp_safe by (simp add: line_safe_def)
  moreover have "LF \<notin> set (level_string level)" by (cases level) simp_all
  ultimately show ?thesis using assms by (auto simp: log_line_def butlast_append line_safe_def)
qed

lemma visible_lines:
  assumes "list_all call_safe cs" "list_all (\<lambda>(level, msg). line_safe msg) (calls_of cs)"
  shows "split_lines (visible th cs) = map entry_line (shown th cs) @ [[]]"
  using assms
proof (induction cs)
  case (Cons c cs)
  obtain now tid level msg where c: "c = (now, tid, level, msg)" by (cases c)
  let ?l = "butlast (log_line now tid level msg)"
  have "LF \<notin> set ?l" using Cons.prems by (intro log_line_safe) (simp_all add: c call_safe_def calls_of_def)
  then have "split_lines (log_line now tid level msg @ r) = ?l # split_lines r" for r
    by (subst log_line_split) (simp add: split_lines_line)
  moreover have "split_lines (visible th cs) = map entry_line (shown th cs) @ [[]]"
    using Cons by (simp add: calls_of_def)
  ultimately show ?case by (auto simp: c shown_def entry_line_def)
qed (simp add: shown_def)

section \<open>Properties\<close>

text \<open>
  C25: Requests cannot forge log entries: whatever bytes a client sends, as long as its connection is
  handled without an exception (no entry of level \<open>LOG_ERROR\<close>), the calls of the logger that the connection makes
  (with any times and thread ids) append to standard output exactly one line per message at or above the
  level, although the messages quote the method and the path of the request; provided that the client's
  address and printed numbers contain no line break.
\<close>

theorem log_entries_not_forged:
  assumes "handle_client srv env fd addr = (acts, r)" "env_safe env addr" "no_error_entry acts"
    and "calls_of cs = log_entries acts" "list_all call_safe cs"
  shows "\<exists>out. log_stdout (run_calls cs L) = log_stdout L @ out \<and>
           split_lines out = map entry_line (shown (log_level L) cs) @ [[]]"
  using run_calls_output [of cs L] visible_lines [OF assms(5), of "log_level L"]
    handle_client_entries [OF assms(1-3)] assms(4)
  by (simp add: entries_safe_def)

theorem log_entries_not_forged_witness:
  "\<exists>acts cs. fst (handle_client sample_server (sample_conn [Received sample_text]) 9 ''c'') = acts \<and>
     calls_of cs = log_entries acts \<and> length cs = 1 \<and>
     (\<exists>out. log_stdout (run_calls cs (Logger_init (\<lambda>_. []))) = out \<and> length (split_lines out) = 2)"
proof -
  let ?env = "sample_conn [Received sample_text]"
  let ?now = "\<lparr>tm_sec = 0, tm_min = 0, tm_hour = 0, tm_mday = 1, tm_mon = 0, tm_year = 124\<rparr>"
  obtain acts r where h: "handle_client sample_server ?env 9 ''c'' = (acts, r)" by (metis surj_pair)
  have "map fst (log_entries (fst (handle_client sample_server ?env 9 ''c''))) = [LOG_INFO]" by code_simp
  then obtain msg where e: "log_entries acts = [(LOG_INFO, msg)]" unfolding h fst_conv by auto
  let ?cs = "[(?now, ''1'', LOG_INFO, msg)]"
  have "line_safe (int_to_string i)" for i using line_safe_nat by (auto simp: int_to_string_def line_safe_def)
  then have "env_safe ?env ''c''"
    by (simp add: env_safe_def sample_conn_def sample_env_def sample_dops_def line_safe_def)
  moreover have "no_error_entry acts" by (simp add: no_error_entry_def e)
  moreover have "calls_of ?cs = log_entries acts" by (simp add: calls_of_def e)
  moreover have "list_all call_safe ?cs" by (simp add: call_safe_def line_safe_def)
  ultimately obtain out where "log_stdout (run_calls ?cs (Logger_init (\<lambda>_. []))) = [] @ out"
    "split_lines out = map entry_line (shown LOG_INFO ?cs) @ [[]]"
    using log_entries_not_forged [OF h, of ?cs "Logger_init (\<lambda>_. [])"] by (auto simp: Logger_init_def)
  with \<open>calls_of ?cs = log_entries acts\<close> show ?thesis
    unfolding h by (intro exI [of _ acts] exI [of _ ?cs]) (simp add: shown_def)
qed

text \<open>
  The condition is needed: the entry for an exception quotes \<open>what()\<close>, and the one of a
  \<open>filesystem_error\<close> quotes the path. Here the status of a file whose name, \<open>a\<close>, line feed, \<open>b\<close>, comes
  percent-encoded from the client cannot be read.
\<close>

definition broken_fs :: filesystem where
  "broken_fs =
     sample_fs\<lparr>fs_canonical := (\<lambda>p. if p = ''/srv'' \<or> p = ''/srv/a'' @ [LF] @ ''b'' then Some p else None),
               fs_is_regular_file := (\<lambda>p. Inl Filesystem_error)\<rparr>"

definition broken_conn :: conn_env where
  "broken_conn =
     (sample_conn [Received (''GET /a%0Ab HTTP/1.1'' @ crlfcrlf)])
       \<lparr>ce_handler := sample_env\<lparr>he_fs := broken_fs\<rparr>,
        ce_what := (\<lambda>e. ''filesystem error: status: Input/output error [/srv/a'' @ [LF] @ ''b]'')\<rparr>"

lemma error_entry_breaks_line:
  "list_ex (\<lambda>(level, msg). LF \<in> set msg) (log_entries (fst (handle_client sample_server broken_conn 9 ''c'')))"
  by code_simp

end
