(* ===== verification/ServerSystem.thy ===== *)
theory ServerSystem
  imports TcpServer StopRace Transition
begin

text \<open>
  The running server as one system: the main thread in \<open>accept_loop\<close> and at the end of \<open>start\<close>, the
  workers of the pool running \<open>handle_client\<close>, the signal or console handler, and the kernel's table of
  open sockets, all interleaved. The main thread and the workers perform the actions that the functions
  of \<open>TcpServer\<close> give, one per step; between them stand the steps of the pool of \<open>ThreadPool\<close>.

  What a connection's handler will do is decided when it begins (its environment is arbitrary), and its
  actions are then carried out in order; a handler whose run has no outcome stays in a system call
  for ever. \<open>running_\<close>, \<open>listen_fd_\<close> and the program counters of the signal handler and of the end of \<open>start\<close>
  are the state of \<open>StopRace\<close>, and their accesses its turns, one per step, anywhere between the steps of
  the other threads.
\<close>

section \<open>The state\<close>

text \<open>A descriptor, the actions still to be done for it, and whether the run ends after them.\<close>

type_synonym activity = "int \<times> action list \<times> bool"

datatype sys_pc =
    M_test                \<comment> \<open>before \<open>while (running_)\<close>\<close>
  | M_call                \<comment> \<open>before reading \<open>listen_fd_\<close> and calling \<open>accept\<close>\<close>
  | M_accept int          \<comment> \<open>in \<open>accept\<close> on this descriptor\<close>
  | M_opened task         \<comment> \<open>before \<open>connection_opened\<close>\<close>
  | M_gauge task          \<comment> \<open>before \<open>set_active_workers\<close>\<close>
  | M_submit task         \<comment> \<open>before \<open>submit\<close>\<close>
  | M_reject activity     \<comment> \<open>answering with 503\<close>
  | M_leave               \<comment> \<open>after the loop\<close>
  | M_join                \<comment> \<open>in \<open>pool_->shutdown()\<close>, then at the turns of \<open>StopRace\<close>\<close>
  | M_done                \<comment> \<open>\<open>start\<close> has returned\<close>

text \<open>
  \<open>ss_server\<close> is the server object as \<open>start\<close> left it before the loop, \<open>ss_stop\<close> holds the current \<open>running_\<close> and
  \<open>listen_fd_\<close>, \<open>ss_pool\<close> is the object that \<open>pool_\<close> points to, \<open>ss_work i\<close> what worker \<open>i\<close> has still to do in
  the task it runs, \<open>ss_open\<close> the kernel's table, and \<open>ss_trace\<close> all actions so far.
\<close>

record server_sys =
  ss_server :: TcpServer
  ss_stop :: stop_state
  ss_pool :: "task ThreadPool"
  ss_main :: sys_pc
  ss_work :: "nat \<Rightarrow> activity"
  ss_open :: "int set"
  ss_trace :: "action list"

fun kernel_fd :: "action \<Rightarrow> int set \<Rightarrow> int set" where
  "kernel_fd (A_accept fd) fds = insert fd fds"
| "kernel_fd (A_close fd) fds = fds - {fd}"
| "kernel_fd _ fds = fds"

definition emit :: "action list \<Rightarrow> server_sys \<Rightarrow> server_sys" where
  "emit acts s = s\<lparr>ss_trace := ss_trace s @ acts, ss_open := fold kernel_fd acts (ss_open s)\<rparr>"

definition current :: "server_sys \<Rightarrow> TcpServer" where
  "current s = (ss_server s)\<lparr>ts_running := st_running (ss_stop s), ts_listen_fd := st_listen_fd (ss_stop s)\<rparr>"

text \<open>The closes of the listening socket that a turn of \<open>StopRace\<close> performs.\<close>

definition new_closes :: "stop_state \<Rightarrow> stop_state \<Rightarrow> action list" where
  "new_closes st st' = map A_close (drop (length (st_closed st)) (st_closed st'))"

text \<open>The log entry with which a run of the signal or console handler begins.\<close>

definition shutdown_notice :: action where
  "shutdown_notice = A_log LOG_INFO ''Received shutdown signal, stopping server...''"

text \<open>
  The state when \<open>start\<close> reaches \<open>accept_loop\<close>, if the listening socket could be opened and the pool
  created.
\<close>

definition sys_boot :: "start_env \<Rightarrow> TcpServer \<Rightarrow> server_sys option" where
  "sys_boot se srv =
     (case open_listener se srv of ((acts0, r), srv0) \<Rightarrow>
        if r \<noteq> Some (Inr ()) then None
        else case start_pool se srv0 of ((acts1, r1), srv1) \<Rightarrow>
          if r1 \<noteq> Start_completed then None
          else (case ts_pool srv1 of
             None \<Rightarrow> None
           | Some pool \<Rightarrow>
               Some \<lparr>ss_server = srv1, ss_stop = stop_init (ts_listen_fd srv1), ss_pool = pool, ss_main = M_test, ss_work = (\<lambda>_. (0, [], True)),
                     ss_open = {se_socket se}, ss_trace = acts0 @ acts1\<rparr>))"

section \<open>The steps\<close>

text \<open>The steps of a worker at the queue, and its last access to \<open>active_workers_\<close>.\<close>

definition queue_side :: "'a ThreadPool \<Rightarrow> 'a ThreadPool \<Rightarrow> bool" where
  "queue_side p p' =
     (pool_step True p p' \<and> tp_executed p' = tp_executed p \<and> tp_accepted p' = tp_accepted p \<and>
      tp_submitters p' = tp_submitters p \<and> tp_stopped p' = tp_stopped p \<and>
      tp_shutdown p' = tp_shutdown p \<and>
      tp_active_workers p' \<le> tp_active_workers p)"

inductive sys_step :: "server_sys \<Rightarrow> server_sys \<Rightarrow> bool" where
  test_go: "ss_main s = M_test \<Longrightarrow> st_running (ss_stop s) \<Longrightarrow> sys_step s (s\<lparr>ss_main := M_call\<rparr>)"
| test_stop: "ss_main s = M_test \<Longrightarrow> main_turn (ts_platform (ss_server s)) (ss_stop s) = Some st \<Longrightarrow>
     sys_step s (s\<lparr>ss_stop := st, ss_main := M_leave\<rparr>)"
| accept_call: "ss_main s = M_call \<Longrightarrow>
     sys_step s (emit [A_accept_call (st_listen_fd (ss_stop s))] (s\<lparr>ss_main := M_accept (st_listen_fd (ss_stop s))\<rparr>))"
| accept_again: "ss_main s = M_accept lfd \<Longrightarrow> ar_result rd = Accept_failed err \<Longrightarrow>
     handle_accept ord what (current s) rd = (acts, Some (Inr True)) \<Longrightarrow>
     sys_step s (emit acts (s\<lparr>ss_main := M_test\<rparr>))"
| accept_leaves: "ss_main s = M_accept lfd \<Longrightarrow> ar_result rd = Accept_failed err \<Longrightarrow>
     handle_accept ord what (current s) rd = (acts, Some (Inr False)) \<Longrightarrow>
     main_turn (ts_platform (ss_server s)) (ss_stop s) = Some st \<Longrightarrow>
     sys_step s (emit acts (s\<lparr>ss_stop := st, ss_main := M_leave\<rparr>))"
| accept_ok: "ss_main s = M_accept lfd \<Longrightarrow> lfd \<noteq> invalid_socket (ts_platform (ss_server s)) \<Longrightarrow>
     fd \<notin> ss_open s \<Longrightarrow> fd \<noteq> invalid_socket (ts_platform (ss_server s)) \<Longrightarrow>
     sys_step s (emit [A_accept fd] (s\<lparr>ss_main := M_opened (fd, ip @ '':'' @ nat_to_string port)\<rparr>))"
| opened: "ss_main s = M_opened t \<Longrightarrow>
     sys_step s (emit [A_metric Ev_opened] (s\<lparr>ss_main := M_gauge t\<rparr>))"
| gauge: "ss_main s = M_gauge t \<Longrightarrow>
     sys_step s (emit [A_metric (Ev_active_workers (of_nat (active_workers (ss_pool s))))]
       (s\<lparr>ss_main := M_submit t\<rparr>))"
| submit_ok: "ss_main s = M_submit t \<Longrightarrow> ar_pool rd = ss_pool s \<Longrightarrow> ar_submit_throws rd = None \<Longrightarrow>
     pool_submit t (ss_pool s) = (True, n, p) \<Longrightarrow> notified n (tp_workers p) ws \<Longrightarrow>
     submit_client (ts_platform (ss_server s)) ord what rd (fst t) (snd t) = (acts, r) \<Longrightarrow>
     sys_step s (emit acts (s\<lparr>ss_pool := p\<lparr>tp_workers := ws\<rparr>, ss_main := M_test\<rparr>))"
| submit_refused: "ss_main s = M_submit t \<Longrightarrow> ar_pool rd = ss_pool s \<Longrightarrow>
     ar_submit_throws rd \<noteq> None \<or> \<not> fst (pool_submit t (ss_pool s)) \<Longrightarrow>
     submit_client (ts_platform (ss_server s)) ord what rd (fst t) (snd t) = (acts, r) \<Longrightarrow>
     sys_step s (s\<lparr>ss_main := M_reject (fst t, acts, r \<noteq> None)\<rparr>)"
| reject_act: "ss_main s = M_reject (fd, a # acts, ends) \<Longrightarrow>
     sys_step s (emit [a] (s\<lparr>ss_main := M_reject (fd, acts, ends)\<rparr>))"
| reject_end: "ss_main s = M_reject (fd, [], True) \<Longrightarrow> sys_step s (s\<lparr>ss_main := M_test\<rparr>)"
| leave: "ss_main s = M_leave \<Longrightarrow>
     sys_step s (emit [A_log LOG_INFO ''Shutting down thread pool...''] (s\<lparr>ss_main := M_join\<rparr>))"
| shutdown: "ss_main s = M_join \<Longrightarrow> pool_step True (ss_pool s) p \<Longrightarrow>
     tp_shutdown p \<noteq> tp_shutdown (ss_pool s) \<Longrightarrow> sys_step s (s\<lparr>ss_pool := p\<rparr>)"
| finish: "ss_main s = M_join \<Longrightarrow> tp_shutdown (ss_pool s) = S_joined \<Longrightarrow>
     main_turn (ts_platform (ss_server s)) (ss_stop s) = Some st \<Longrightarrow>
     sys_step s (emit (new_closes (ss_stop s) st) (s\<lparr>ss_stop := st\<rparr>))"
| finished: "ss_main s = M_join \<Longrightarrow> tp_shutdown (ss_pool s) = S_joined \<Longrightarrow> st_main (ss_stop s) = N_done \<Longrightarrow>
     sys_step s (emit [A_log LOG_INFO ''Server stopped.''] (s\<lparr>ss_main := M_done\<rparr>))"
| signal: "deliver_signal (Some sg) (current s) = (a # acts, srv) \<Longrightarrow> sys_step s (emit [a] s)"
| handler: "shutdown_notice \<in> set (ss_trace s) \<Longrightarrow>
     handler_turn (ts_platform (ss_server s)) (ss_stop s) = Some st \<Longrightarrow>
     sys_step s (emit (new_closes (ss_stop s) st) (s\<lparr>ss_stop := st\<rparr>))"
| worker_queue: "queue_side (ss_pool s) p \<Longrightarrow> sys_step s (s\<lparr>ss_pool := p\<rparr>)"
| worker_start: "i < length (tp_workers (ss_pool s)) \<Longrightarrow> tp_workers (ss_pool s) ! i = W_got t \<Longrightarrow>
     handle_client (ss_server s\<lparr>ts_pool := seen\<rparr>) env (fst t) (snd t) = (acts, r) \<Longrightarrow>
     sys_step s (s\<lparr>ss_pool := (ss_pool s)\<lparr>tp_workers := (tp_workers (ss_pool s))[i := W_running t],
                                          tp_active_workers := tp_active_workers (ss_pool s) + 1\<rparr>,
                   ss_work := (ss_work s)(i := (fst t, acts, r \<noteq> None))\<rparr>)"
| worker_act: "i < length (tp_workers (ss_pool s)) \<Longrightarrow> tp_workers (ss_pool s) ! i = W_running t \<Longrightarrow>
     ss_work s i = (fd, a # acts, ends) \<Longrightarrow>
     sys_step s (emit [a] (s\<lparr>ss_work := (ss_work s)(i := (fd, acts, ends))\<rparr>))"
| worker_finish: "i < length (tp_workers (ss_pool s)) \<Longrightarrow> tp_workers (ss_pool s) ! i = W_running t \<Longrightarrow>
     ss_work s i = (fd, [], True) \<Longrightarrow>
     sys_step s (s\<lparr>ss_pool := (ss_pool s)\<lparr>tp_workers := (tp_workers (ss_pool s))[i := W_finished],
                                          tp_executed := tp_executed (ss_pool s) @ [t]\<rparr>\<rparr>)"

definition sys_reachable :: "start_env \<Rightarrow> TcpServer \<Rightarrow> server_sys \<Rightarrow> bool" where
  "sys_reachable se srv = reaches (\<lambda>s. sys_boot se srv = Some s) sys_step"

text \<open>
  An executable scheduler for concrete runs: \<open>main_do\<close> moves the main thread (with the kernel's answers
  of \<open>rd\<close>), \<open>worker_do\<close> a worker (with the environment of the connection it may begin).
\<close>

definition main_do :: "accept_round \<Rightarrow> server_sys \<Rightarrow> server_sys option" where
  "main_do rd s =
     (case ss_main s of
        M_test \<Rightarrow>
          if st_running (ss_stop s) then Some (s\<lparr>ss_main := M_call\<rparr>)
          else map_option (\<lambda>st. s\<lparr>ss_stop := st, ss_main := M_leave\<rparr>)
                 (main_turn (ts_platform (ss_server s)) (ss_stop s))
      | M_call \<Rightarrow>
          Some (emit [A_accept_call (st_listen_fd (ss_stop s))]
                  (s\<lparr>ss_main := M_accept (st_listen_fd (ss_stop s))\<rparr>))
      | M_accept lfd \<Rightarrow>
          (case ar_result rd of
             Accept_failed err \<Rightarrow>
               (case handle_accept (\<lambda>ks. ks) (\<lambda>_. []) (current s) rd of
                  (acts, Some (Inr True)) \<Rightarrow> Some (emit acts (s\<lparr>ss_main := M_test\<rparr>))
                | (acts, Some (Inr False)) \<Rightarrow>
                    map_option (\<lambda>st. emit acts (s\<lparr>ss_stop := st, ss_main := M_leave\<rparr>))
                      (main_turn (ts_platform (ss_server s)) (ss_stop s))
                | _ \<Rightarrow> None)
           | Accepted fd ip port \<Rightarrow>
               if fd \<in> ss_open s \<or> fd = invalid_socket (ts_platform (ss_server s)) \<or>
                  lfd = invalid_socket (ts_platform (ss_server s)) then None
               else Some (emit [A_accept fd] (s\<lparr>ss_main := M_opened (fd, ip @ '':'' @ nat_to_string port)\<rparr>)))
      | M_opened t \<Rightarrow> Some (emit [A_metric Ev_opened] (s\<lparr>ss_main := M_gauge t\<rparr>))
      | M_gauge t \<Rightarrow>
          Some (emit [A_metric (Ev_active_workers (of_nat (active_workers (ss_pool s))))]
                  (s\<lparr>ss_main := M_submit t\<rparr>))
      | M_submit t \<Rightarrow>
          (case submit_client (ts_platform (ss_server s)) (\<lambda>ks. ks) (\<lambda>_. [])
                  (rd\<lparr>ar_pool := ss_pool s\<rparr>) (fst t) (snd t) of (acts, r) \<Rightarrow>
             case pool_submit t (ss_pool s) of (b, n, p) \<Rightarrow>
               if b \<and> Option.is_none (ar_submit_throws rd)
               then Some (emit acts (s\<lparr>ss_pool := p\<lparr>tp_workers := deliver n (tp_workers p)\<rparr>, ss_main := M_test\<rparr>))
               else Some (s\<lparr>ss_main := M_reject (fst t, acts, \<not> Option.is_none r)\<rparr>))
      | M_reject (fd, [], ends) \<Rightarrow> if ends then Some (s\<lparr>ss_main := M_test\<rparr>) else None
      | M_reject (fd, a # acts, ends) \<Rightarrow> Some (emit [a] (s\<lparr>ss_main := M_reject (fd, acts, ends)\<rparr>))
      | M_leave \<Rightarrow> Some (emit [A_log LOG_INFO ''Shutting down thread pool...''] (s\<lparr>ss_main := M_join\<rparr>))
      | M_join \<Rightarrow>
          (case tp_shutdown (ss_pool s) of
             S_joined \<Rightarrow>
               (case st_main (ss_stop s) of
                  N_done \<Rightarrow> Some (emit [A_log LOG_INFO ''Server stopped.''] (s\<lparr>ss_main := M_done\<rparr>))
                | _ \<Rightarrow> map_option (\<lambda>st. emit (new_closes (ss_stop s) st) (s\<lparr>ss_stop := st\<rparr>))
                         (main_turn (ts_platform (ss_server s)) (ss_stop s)))
           | _ \<Rightarrow> map_option (\<lambda>p. s\<lparr>ss_pool := p\<rparr>) (shutdown_turn True (ss_pool s)))
      | M_done \<Rightarrow> None)"

definition worker_do :: "conn_env \<Rightarrow> nat \<Rightarrow> server_sys \<Rightarrow> server_sys option" where
  "worker_do env i s =
     (if length (tp_workers (ss_pool s)) \<le> i then None
      else case tp_workers (ss_pool s) ! i of
        W_got t \<Rightarrow>
          (case handle_client (ss_server s\<lparr>ts_pool := Some (ss_pool s)\<rparr>) env (fst t) (snd t) of (acts, r) \<Rightarrow>
             Some (s\<lparr>ss_pool := (ss_pool s)\<lparr>tp_workers := (tp_workers (ss_pool s))[i := W_running t],
                                            tp_active_workers := tp_active_workers (ss_pool s) + 1\<rparr>,
                     ss_work := (ss_work s)(i := (fst t, acts, \<not> Option.is_none r))\<rparr>))
      | W_running t \<Rightarrow>
          (case ss_work s i of
             (fd, a # acts, ends) \<Rightarrow> Some (emit [a] (s\<lparr>ss_work := (ss_work s)(i := (fd, acts, ends))\<rparr>))
           | (fd, [], ends) \<Rightarrow>
               if ends
               then Some (s\<lparr>ss_pool := (ss_pool s)\<lparr>tp_workers := (tp_workers (ss_pool s))[i := W_finished],
                                                   tp_executed := tp_executed (ss_pool s) @ [t]\<rparr>\<rparr>)
               else None)
      | _ \<Rightarrow> map_option (\<lambda>p. s\<lparr>ss_pool := p\<rparr>) (worker_turn i (ss_pool s)))"

datatype sys_event = E_main accept_round | E_worker nat conn_env | E_signal int | E_handler

fun sys_do :: "sys_event \<Rightarrow> server_sys \<Rightarrow> server_sys option" where
  "sys_do (E_main rd) s = main_do rd s"
| "sys_do (E_worker i env) s = worker_do env i s"
| "sys_do (E_signal sg) s =
     (case deliver_signal (Some sg) (current s) of
        (a # acts, srv) \<Rightarrow> Some (emit [a] s)
      | _ \<Rightarrow> None)"
| "sys_do E_handler s =
     (if shutdown_notice \<in> set (ss_trace s)
      then map_option (\<lambda>st. emit (new_closes (ss_stop s) st) (s\<lparr>ss_stop := st\<rparr>))
             (handler_turn (ts_platform (ss_server s)) (ss_stop s))
      else None)"

fun sys_run :: "sys_event list \<Rightarrow> server_sys \<Rightarrow> server_sys option" where
  "sys_run [] s = Some s"
| "sys_run (e # es) s = (case sys_do e s of None \<Rightarrow> None | Some s' \<Rightarrow> sys_run es s')"

section \<open>Specification: descriptors\<close>

text \<open>
  The discipline that the threads together must keep, on the multiset of open descriptors: only a
  descriptor that is not open is returned by \<open>accept\<close>, and only an open one is used or closed. (On which
  descriptor \<open>accept\<close> is called is the subject of \<open>calling_ok\<close> below.)
\<close>

definition if_open :: "int \<Rightarrow> int multiset \<Rightarrow> int multiset \<Rightarrow> int multiset option" where
  "if_open fd M M' = (if fd \<in># M then Some M' else None)"

fun fd_action :: "action \<Rightarrow> int multiset \<Rightarrow> int multiset option" where
  "fd_action (A_accept fd) M = (if fd \<in># M then None else Some (add_mset fd M))"
| "fd_action (A_close fd) M = if_open fd M (M - {#fd#})"
| "fd_action (A_wire fd _) M = if_open fd M M"
| "fd_action (A_rcvtimeo fd _) M = if_open fd M M"
| "fd_action (A_recv fd) M = if_open fd M M"
| "fd_action (A_bind fd _) M = if_open fd M M"
| "fd_action (A_listen fd _) M = if_open fd M M"
| "fd_action (A_submit fd _) M = if_open fd M M"
| "fd_action _ M = Some M"

fun fd_replay :: "int multiset \<Rightarrow> action list \<Rightarrow> int multiset option" where
  "fd_replay M [] = Some M"
| "fd_replay M (a # acts) = Option.bind (fd_action a M) (\<lambda>M'. fd_replay M' acts)"

text \<open>The step of the abstract system: one action on the table of descriptors.\<close>

definition fd_step :: "int multiset \<times> action list \<Rightarrow> int multiset \<times> action list \<Rightarrow> bool" where
  "fd_step x y = (\<exists>a. fd_action a (fst x) = Some (fst y) \<and> snd y = snd x @ [a])"

text \<open>Who has to close which descriptor.\<close>

fun activity_fds :: "activity \<Rightarrow> int multiset" where
  "activity_fds (fd, acts, ends) = (if ends then mset (closes acts) else {#fd#})"

fun activity_ok :: "activity \<Rightarrow> bool" where
  "activity_ok (fd, acts, ends) =
     (accepts acts = [] \<and> submits acts = [] \<and> Ev_opened \<notin> set (events acts) \<and>
      (\<not> ends \<longrightarrow> closes acts = [] \<and> Ev_closed \<notin> set (events acts)) \<and>
      fd_replay (activity_fds (fd, acts, ends)) acts = Some (if ends then {#} else {#fd#}))"

text \<open>
  What the pool holds of a resource: the sum over the queued tasks, the tasks just taken by workers
  (\<open>tw\<close>) and the pending runs (\<open>aw\<close>).
\<close>

fun worker_weight ::
    "(task \<Rightarrow> 'm) \<Rightarrow> (activity \<Rightarrow> 'm) \<Rightarrow> task worker_pc \<Rightarrow> activity \<Rightarrow> 'm :: cancel_comm_monoid_add" where
  "worker_weight tw aw (W_got t) act = tw t"
| "worker_weight tw aw (W_running t) act = aw act"
| "worker_weight tw aw _ act = 0"

definition queue_weight :: "(task \<Rightarrow> 'm) \<Rightarrow> task ThreadPool \<Rightarrow> 'm :: cancel_comm_monoid_add" where
  "queue_weight tw p = sum_list (map tw (q_items (tp_queue p)))"

definition workers_weight ::
    "(task \<Rightarrow> 'm) \<Rightarrow> (activity \<Rightarrow> 'm) \<Rightarrow> task worker_pc list \<Rightarrow> (nat \<Rightarrow> activity) \<Rightarrow>
     'm :: cancel_comm_monoid_add" where
  "workers_weight tw aw ws work = (\<Sum>i<length ws. worker_weight tw aw (ws ! i) (work i))"

definition task_fds :: "task \<Rightarrow> int multiset" where
  "task_fds t = {#fst t#}"

abbreviation queued_fds :: "task ThreadPool \<Rightarrow> int multiset" where
  "queued_fds \<equiv> queue_weight task_fds"

abbreviation workers_fds :: "task worker_pc list \<Rightarrow> (nat \<Rightarrow> activity) \<Rightarrow> int multiset" where
  "workers_fds \<equiv> workers_weight task_fds activity_fds"

fun main_fds :: "sys_pc \<Rightarrow> int multiset" where
  "main_fds (M_opened t) = {#fst t#}"
| "main_fds (M_gauge t) = {#fst t#}"
| "main_fds (M_submit t) = {#fst t#}"
| "main_fds (M_reject act) = activity_fds act"
| "main_fds _ = {#}"

text \<open>The listening socket has to be closed until one of the two threads has done so.\<close>

definition listen_fds :: "int \<Rightarrow> stop_state \<Rightarrow> int multiset" where
  "listen_fds L st = (if st_closed st = [] then {#L#} else {#})"

definition client_fds :: "server_sys \<Rightarrow> int multiset" where
  "client_fds s =
     main_fds (ss_main s) + queued_fds (ss_pool s) + workers_fds (tp_workers (ss_pool s)) (ss_work s)"

definition owned :: "server_sys \<Rightarrow> int multiset" where
  "owned s = listen_fds (ts_listen_fd (ss_server s)) (ss_stop s) + client_fds s"

text \<open>
  The connections counted as opened and not yet as closed, by where they are.
\<close>

fun activity_gauge :: "activity \<Rightarrow> nat" where
  "activity_gauge (fd, acts, ends) = (if ends then count_list (events acts) Ev_closed else 1)"

fun main_gauge :: "sys_pc \<Rightarrow> nat" where
  "main_gauge (M_gauge t) = 1"
| "main_gauge (M_submit t) = 1"
| "main_gauge (M_reject act) = activity_gauge act"
| "main_gauge _ = 0"

definition open_connections :: "server_sys \<Rightarrow> nat" where
  "open_connections s =
     main_gauge (ss_main s) + queue_weight (\<lambda>_. 1) (ss_pool s) +
     workers_weight (\<lambda>_. 1) activity_gauge (tp_workers (ss_pool s)) (ss_work s)"

text \<open>
  A balance over the whole system: what the actions so far amount to, and what the connections under way
  have still to contribute, by where they are: at the main thread before \<open>submit\<close>, in a rejection (\<open>rej\<close>), in
  the queue, or in a worker's run (\<open>pend\<close>).
\<close>

definition amounts :: "(action \<Rightarrow> int) \<Rightarrow> action list \<Rightarrow> int" where
  "amounts amount acts = sum_list (map amount acts)"

fun main_amount :: "int \<Rightarrow> (activity \<Rightarrow> int) \<Rightarrow> sys_pc \<Rightarrow> int" where
  "main_amount carried rej (M_gauge t) = carried"
| "main_amount carried rej (M_submit t) = carried"
| "main_amount carried rej (M_reject act) = rej act"
| "main_amount carried rej _ = 0"

definition balance ::
    "(action \<Rightarrow> int) \<Rightarrow> int \<Rightarrow> int \<Rightarrow> (activity \<Rightarrow> int) \<Rightarrow> (activity \<Rightarrow> int) \<Rightarrow> server_sys \<Rightarrow> int" where
  "balance amount per_task carried pend rej s =
     amounts amount (ss_trace s) + main_amount carried rej (ss_main s) +
     (queue_weight (\<lambda>_. per_task) (ss_pool s) +
      workers_weight (\<lambda>_. per_task) pend (tp_workers (ss_pool s)) (ss_work s))"

text \<open>The three quantities: connections closed less opened, requests less submissions, outcomes less responses.\<close>

fun gauge_amount :: "action \<Rightarrow> int" where
  "gauge_amount (A_metric e) = (if e = Ev_closed then 1 else if e = Ev_opened then - 1 else 0)"
| "gauge_amount _ = 0"

fun request_amount :: "action \<Rightarrow> int" where
  "request_amount (A_metric e) = (if e = Ev_request then 1 else 0)"
| "request_amount (A_submit fd info) = - 1"
| "request_amount _ = 0"

fun outcome_amount :: "action \<Rightarrow> int" where
  "outcome_amount (A_metric e) = (if is_outcome e then 1 else 0)"
| "outcome_amount (A_wire fd s) = - 1"
| "outcome_amount _ = 0"

fun run_amount :: "(action \<Rightarrow> int) \<Rightarrow> activity \<Rightarrow> int" where
  "run_amount amount (fd, acts, ends) = amounts amount acts"

fun reject_outcomes :: "activity \<Rightarrow> int" where
  "reject_outcomes (fd, acts, ends) = amounts outcome_amount acts + (if ends then 0 else 1)"

definition gauge_left :: "activity \<Rightarrow> int" where
  "gauge_left act = int (activity_gauge act)"

text \<open>The invariant: the pending runs are in order, the kernel's table, the phases of the main thread.\<close>

fun is_running :: "'a worker_pc \<Rightarrow> bool" where
  "is_running (W_running t) = True"
| "is_running _ = False"

definition runs_ok :: "task worker_pc list \<Rightarrow> (nat \<Rightarrow> activity) \<Rightarrow> bool" where
  "runs_ok ws work = (\<forall>i<length ws. is_running (ws ! i) \<longrightarrow> activity_ok (work i))"

definition table_ok :: "int set \<Rightarrow> int multiset \<Rightarrow> bool" where
  "table_ok fds M = (fds = set_mset M \<and> (\<forall>fd. count M fd \<le> 1))"

fun main_ok :: "sys_pc \<Rightarrow> stop_state \<Rightarrow> task ThreadPool \<Rightarrow> bool" where
  "main_ok (M_reject act) st p = (activity_ok act \<and> st_main st = N_loop)"
| "main_ok M_leave st p = (\<not> st_running st \<and> st_main st = N_left)"
| "main_ok M_join st p =
     (\<not> st_running st \<and> st_main st \<noteq> N_loop \<and> (tp_shutdown p \<noteq> S_joined \<longrightarrow> st_main st = N_left))"
| "main_ok M_done st p = (\<not> st_running st \<and> st_main st = N_done \<and> tp_shutdown p = S_joined)"
| "main_ok _ st p = (st_main st = N_loop)"

text \<open>
  What \<open>accept\<close> is called on: the listening socket or, once the server is stopping, the invalid descriptor; and
  no client has the number of the listening socket meanwhile.
\<close>

fun calling_ok :: "sys_pc \<Rightarrow> int \<Rightarrow> stop_state \<Rightarrow> int multiset \<Rightarrow> bool" where
  "calling_ok M_call L st clients = (L \<notin># clients)"
| "calling_ok (M_accept fd) L st clients =
     (L \<notin># clients \<and> (fd = L \<or> fd = invalid_socket Posix \<and> \<not> st_running st))"
| "calling_ok _ L st clients = True"

text \<open>The sockets are in order on POSIX only: on Windows the listening socket may be closed twice.\<close>

definition sockets_ok :: "server_sys \<Rightarrow> bool" where
  "sockets_ok s =
     (stop_inv (ts_listen_fd (ss_server s)) (ss_stop s) \<and> ts_listen_fd (ss_server s) \<noteq> invalid_socket Posix \<and>
      table_ok (ss_open s) (owned s) \<and>
      calling_ok (ss_main s) (ts_listen_fd (ss_server s)) (ss_stop s) (client_fds s))"

definition threads_ok :: "server_sys \<Rightarrow> bool" where
  "threads_ok s =
     (runs_ok (tp_workers (ss_pool s)) (ss_work s) \<and> main_ok (ss_main s) (ss_stop s) (ss_pool s) \<and>
      shutdown_inv (ss_pool s) \<and> tp_accepted (ss_pool s) = submits (ss_trace s) \<and>
      (st_handler (ss_stop s) \<noteq> H_idle \<longrightarrow> shutdown_notice \<in> set (ss_trace s)))"

definition sys_inv :: "server_sys \<Rightarrow> bool" where
  "sys_inv s = (threads_ok s \<and> (ts_platform (ss_server s) = Posix \<longrightarrow> sockets_ok s))"

section \<open>Lemmas\<close>

subsection \<open>The descriptor discipline\<close>

lemma fd_replay_append: "fd_replay M (xs @ ys) = Option.bind (fd_replay M xs) (\<lambda>M'. fd_replay M' ys)"
  by (induction xs arbitrary: M) (auto split: Option.bind_split)

lemma fd_action_frame:
  "fd_action a M = Some M' \<Longrightarrow> accepts [a] = [] \<Longrightarrow> fd_action a (R + M) = Some (R + M')"
  by (cases a) (auto simp: if_open_def split: if_splits)

lemma accepts_Cons: "accepts (a # acts) = accepts [a] @ accepts acts"
  using accepts_append [of "[a]" acts] by simp

lemma closes_Cons: "closes (a # acts) = closes [a] @ closes acts"
  using closes_append [of "[a]" acts] by simp

lemma submits_Cons: "submits (a # acts) = submits [a] @ submits acts"
  using submits_append [of "[a]" acts] by simp

lemma events_Cons: "events (a # acts) = events [a] @ events acts"
  using events_append [of "[a]" acts] by simp

lemma fd_replay_frame:
  "fd_replay M acts = Some M' \<Longrightarrow> accepts acts = [] \<Longrightarrow> fd_replay (R + M) acts = Some (R + M')"
proof (induction acts arbitrary: M)
  case (Cons a acts)
  from Cons.prems(2) have a: "accepts [a] = []" "accepts acts = []"
    using accepts_Cons [of a acts] by simp_all
  from Cons.prems(1) obtain M1 where "fd_action a M = Some M1" "fd_replay M1 acts = Some M'"
    by (auto split: Option.bind_splits)
  with Cons.IH a fd_action_frame [of a M M1 R] show ?case by simp
qed simp

lemma fd_action_table:
  "fd_action a M = Some M' \<Longrightarrow> table_ok fds M \<Longrightarrow> table_ok (kernel_fd a fds) M'"
  by (cases a) (auto simp: if_open_def table_ok_def le_Suc_eq in_diff_count count_eq_zero_iff split: if_splits)

lemma fd_replay_table:
  "fd_replay M acts = Some M' \<Longrightarrow> table_ok fds M \<Longrightarrow> table_ok (fold kernel_fd acts fds) M'"
  by (induction acts arbitrary: M fds) (auto dest: fd_action_table split: Option.bind_splits)

lemma fd_replay_balance:
  "fd_replay M acts = Some M' \<Longrightarrow> mset (closes acts) + M' = mset (accepts acts) + M"
proof (induction acts arbitrary: M)
  case (Cons a acts)
  from Cons.prems obtain M1 where a: "fd_action a M = Some M1" "fd_replay M1 acts = Some M'"
    by (auto split: Option.bind_splits)
  from a(1) have "mset (closes [a]) + M1 = mset (accepts [a]) + M"
    by (cases a) (auto simp: if_open_def split: if_splits)
  then have "mset (closes [a]) + (mset (closes acts) + M') = mset (accepts acts) + (mset (accepts [a]) + M)"
    unfolding Cons.IH [OF a(2)] by (metis add.left_commute)
  then show ?case
    unfolding closes_Cons [of a acts] accepts_Cons [of a acts] mset_append by (simp only: ac_simps)
qed simp

lemma fd_replay_steps: "fd_replay M acts = Some M' \<Longrightarrow> fd_step\<^sup>*\<^sup>* (M, tr) (M', tr @ acts)"
proof (induction acts arbitrary: M tr)
  case (Cons a acts)
  from Cons.prems obtain M1 where a: "fd_action a M = Some M1" "fd_replay M1 acts = Some M'"
    by (auto split: Option.bind_splits)
  have "fd_step (M, tr) (M1, tr @ [a])" using a(1) by (auto simp: fd_step_def)
  with Cons.IH [OF a(2), of "tr @ [a]"] show ?case by (simp add: converse_rtranclp_into_rtranclp)
qed simp

lemma fd_step_replay:
  assumes "reaches (\<lambda>x. fd_replay M0 (snd x) = Some (fst x)) fd_step x"
  shows "fd_replay M0 (snd x) = Some (fst x)"
  using assms by (induction rule: reaches.induct) (auto simp: fd_step_def fd_replay_append)

subsection \<open>The runs of the threads\<close>

lemma activity_step:
  assumes "activity_ok (fd, a # acts, ends)"
  shows "activity_ok (fd, acts, ends)" "accepts [a] = []" "submits [a] = []"
    "fd_replay (activity_fds (fd, a # acts, ends)) [a] = Some (activity_fds (fd, acts, ends))"
    "count_list (events [a]) Ev_opened = 0"
    "activity_gauge (fd, a # acts, ends) = count_list (events [a]) Ev_closed + activity_gauge (fd, acts, ends)"
proof -
  let ?M = "activity_fds (fd, a # acts, ends)"
  have e: "accepts [a] = []" "accepts acts = []" "submits [a] = []" "submits acts = []"
    "Ev_opened \<notin> set (events [a])" "Ev_opened \<notin> set (events acts)"
    "\<not> ends \<longrightarrow> Ev_closed \<notin> set (events [a]) \<and> Ev_closed \<notin> set (events acts)"
    using assms accepts_Cons [of a acts] submits_Cons [of a acts] events_Cons [of a acts] by auto
  obtain M1 where M1: "fd_action a ?M = Some M1" "fd_replay M1 acts = Some (if ends then {#} else {#fd#})"
    using assms by (auto split: Option.bind_splits)
  have "mset (closes [a]) + M1 = ?M" using fd_replay_balance [of ?M "[a]" M1] M1(1) e(1) by simp
  then have eq: "M1 = activity_fds (fd, acts, ends)" "\<not> ends \<longrightarrow> closes acts = []"
    using assms closes_Cons [of a acts] by (auto split: if_splits)
  show "accepts [a] = []" "submits [a] = []" by (fact e(1), fact e(3))
  show "count_list (events [a]) Ev_opened = 0" using e(5) by (simp add: count_list_0_iff)
  show "activity_gauge (fd, a # acts, ends) =
        count_list (events [a]) Ev_closed + activity_gauge (fd, acts, ends)"
    using e(7) events_Cons [of a acts] by (simp add: count_list_0_iff)
  show "activity_ok (fd, acts, ends)" using M1(2) e eq by simp
  show "fd_replay ?M [a] = Some (activity_fds (fd, acts, ends))" using M1(1) eq(1) by simp
qed

lemma answer_request_blocked:
  assumes "answer_request srv env fd addr raw = (acts, None)"
  shows "\<exists>e wire. is_outcome e \<and> acts = [A_metric e, A_wire fd wire]"
proof -
  obtain pr where p: "HttpParser_parse raw (cfg_max_header_size (ts_config srv))
      (cfg_max_body_size (ts_config srv)) = Inr pr" using parse_total by blast
  show ?thesis
  proof (cases rule: make_response_cases [of srv env pr])
    case (1 e resp)
    show ?thesis
      by (cases rule: send_response_cases [of "ts_platform srv" "ce_send env" fd "serialize (ce_ord env) resp"])
         (use assms in \<open>auto simp: answer_request_def p 1 Let_def\<close>)
  next
    case (2 ex)
    with assms show ?thesis by (simp add: answer_request_def p)
  qed
qed

lemma error_response_blocked:
  assumes "error_response srv env fd addr ex = (acts, None)"
  shows "\<exists>msg wire. acts = [A_log LOG_ERROR msg, A_metric Ev_server_error, A_wire fd wire]"
  by (cases rule: send_response_cases [of "ts_platform srv" "ce_send env" fd
        "serialize (ce_ord env) (internal_error ''Internal Server Error'')"])
     (use assms in \<open>auto simp: error_response_def\<close>)

lemma handle_client_blocked:
  assumes "handle_client srv env fd addr = (acts, None)"
  shows "\<exists>mid. acts = [A_metric Ev_request, A_metric (Ev_queue_size (of_nat (ts_queue_size srv))),
                        A_rcvtimeo fd 10000, A_recv fd] @ mid \<and>
           (mid = [] \<or> (\<exists>e wire. is_outcome e \<and> mid = [A_metric e, A_wire fd wire]) \<or>
            (\<exists>msg wire. mid = [A_log LOG_ERROR msg, A_metric Ev_server_error, A_wire fd wire]))"
proof (cases "recv_request (ts_platform srv) (ts_config srv) (ce_recv env) []")
  case None
  with assms show ?thesis by (simp add: handle_client_def)
next
  case (Some q)
  obtain raw where raw: "q = Inr raw" using recv_request_no_throw [OF Some] by blast
  have ne: "raw \<noteq> []" using assms Some raw by (auto simp: handle_client_def close_connection_def)
  show ?thesis
  proof (cases rule: answer_request_cases [of srv env fd addr raw])
    case (1 a)
    with answer_request_blocked [OF 1] assms Some raw ne show ?thesis by (auto simp: handle_client_def)
  next
    case (2 ex)
    show ?thesis
    proof (cases rule: error_response_cases [of srv env fd addr ex])
      case (1 a)
      with error_response_blocked [OF 1] assms Some raw ne 2 show ?thesis by (auto simp: handle_client_def)
    next
      case (2 a)
      with \<open>answer_request srv env fd addr raw = ([], Some (Inl ex))\<close> assms Some raw ne show ?thesis
        by (simp add: handle_client_def close_connection_def)
    qed
  next
    case (3 a)
    with assms Some raw ne show ?thesis by (simp add: handle_client_def close_connection_def)
  qed
qed

text \<open>A pending run of \<open>handle_client\<close> or of a rejection owns its descriptor and leaves it in order.\<close>

definition activity_begins :: "int \<Rightarrow> action list \<Rightarrow> 'a option \<Rightarrow> bool" where
  "activity_begins fd acts r =
     (activity_ok (fd, acts, r \<noteq> None) \<and> activity_fds (fd, acts, r \<noteq> None) = {#fd#} \<and>
      activity_gauge (fd, acts, r \<noteq> None) = 1)"

lemma handle_client_activity:
  assumes "handle_client srv env fd addr = (acts, r)"
  shows "activity_begins fd acts r"
proof (cases r)
  case None
  from None handle_client_blocked [of srv env fd addr acts] assms show ?thesis
    by (auto simp: activity_begins_def if_open_def)
next
  case (Some q)
  from handle_client_cases [OF assms [unfolded Some]] obtain mid where
    m: "acts = [A_metric Ev_request, A_metric (Ev_queue_size (of_nat (ts_queue_size srv))),
                A_rcvtimeo fd 10000, A_recv fd] @ mid @ [A_close fd, A_metric Ev_closed]"
      "mid = [] \<or> answered fd mid" by (auto split: if_splits)
  from m(2) show ?thesis by (auto simp: m(1) Some answered_def if_open_def activity_begins_def)
qed

lemma reject_client_activity:
  assumes "reject_client plat ord script fd (A_log lvl msg) = (acts, r)"
  shows "activity_begins fd acts r"
  by (cases rule: send_response_cases [of plat script fd "serialize ord service_unavailable"])
     (use assms in \<open>auto simp: activity_begins_def reject_client_def close_connection_def Let_def if_open_def\<close>)

lemma submit_client_rejects:
  assumes "submit_client plat ord what rd fd info = (acts, r)"
    and "ar_submit_throws rd \<noteq> None \<or> \<not> fst (pool_submit (fd, info) (ar_pool rd))"
  shows "\<exists>lvl msg. reject_client plat ord (ar_send rd) fd (A_log lvl msg) = (acts, r)"
  using assms
  by (cases "pool_submit (fd, info) (ar_pool rd)") (auto simp: submit_client_def split: option.splits)

lemma submit_client_refused:
  assumes "submit_client plat ord what rd fd info = (acts, r)"
    and "ar_submit_throws rd \<noteq> None \<or> \<not> fst (pool_submit (fd, info) (ar_pool rd))"
  shows "activity_begins fd acts r"
  using submit_client_rejects [OF assms] reject_client_activity by blast

lemma submit_client_accepted:
  assumes "submit_client plat ord what rd fd info = (acts, r)"
    and "ar_submit_throws rd = None" "fst (pool_submit (fd, info) (ar_pool rd))"
  shows "acts = [A_submit fd info]"
  using assms by (auto simp: submit_client_def run_do_def split: prod.splits)

lemma accept_failed_silent:
  assumes "handle_accept ord what srv rd = (acts, Some (Inr b))" "ar_result rd = Accept_failed err"
  shows "\<exists>msgs. acts = map (A_log LOG_ERROR) msgs"
  using assms
  by (auto simp: handle_accept_def run_return_def split: if_splits intro: exI [of _ "[]"] exI [of _ "[_]"])

lemma logs_silent [simp]:
  "fd_replay M (map (A_log lvl) msgs) = Some M" "accepts (map (A_log lvl) msgs) = []"
  "submits (map (A_log lvl) msgs) = []" "events (map (A_log lvl) msgs) = []"
  "fold kernel_fd (map (A_log lvl) msgs) fds = fds"
  by (induction msgs) simp_all

lemma signal_logs:
  assumes "deliver_signal (Some sg) srv = (a # acts, srv')"
  shows "a = shutdown_notice"
  using assms
  by (auto simp: deliver_signal_def signal_handler_def console_handler_def shutdown_notice_def
      split: platform.splits if_splits)

lemma new_closes_silent [simp]:
  "submits (new_closes st st') = []" "events (new_closes st st') = []" "accepts (new_closes st st') = []"
proof -
  have "submits (map A_close fds) = []" "events (map A_close fds) = []" "accepts (map A_close fds) = []" for fds
    by (induction fds) simp_all
  then show "submits (new_closes st st') = []" "events (new_closes st st') = []" "accepts (new_closes st st') = []"
    by (simp_all add: new_closes_def)
qed

text \<open>On POSIX the turns of the handler and of the end of \<open>start\<close> close the listening socket in order.\<close>

lemma handler_turn_closes:
  assumes "handler_turn Posix st = Some st'" "stop_inv L st"
  shows "fd_replay (listen_fds L st) (new_closes st st') = Some (listen_fds L st')"
  using assms
  by (cases "st_handler st")
     (auto simp: handler_turn_def stop_inv_def listen_fds_def new_closes_def if_open_def split: if_splits)

lemma main_turn_closes:
  assumes "main_turn Posix st = Some st'" "stop_inv L st"
  shows "fd_replay (listen_fds L st) (new_closes st st') = Some (listen_fds L st')"
    "st_main st = N_loop \<Longrightarrow> listen_fds L st' = listen_fds L st"
  using assms
  by (cases "st_handler st"; cases "st_main st";
      auto simp: main_turn_def stop_inv_def listen_fds_def new_closes_def split: if_splits)+

lemma pool_submit_accepts:
  assumes "pool_submit t p = (True, n, p')"
  shows "\<not> tp_stopped p" "tp_workers p' = tp_workers p" "tp_accepted p' = tp_accepted p @ [t]"
    "queue_weight tw p' = queue_weight tw p + tw t" "tp_shutdown p' = tp_shutdown p"
  using assms
  by (auto simp: pool_submit_def queue_weight_def push_def split: if_splits)

declare activity_ok.simps [simp del]

subsection \<open>The workers\<close>

lemma notified_nth:
  "notified n ws ws' \<Longrightarrow> i < length ws \<Longrightarrow>
     ws' ! i = ws ! i \<or> ws ! i = W_blocked \<and> ws' ! i = W_woken"
  by (erule notified.cases) (auto simp: nth_list_update wake_def split: worker_pc.splits)

lemma notified_workers:
  assumes "notified n ws ws'"
  shows "workers_weight tw aw ws' work = workers_weight tw aw ws work" "runs_ok ws' work = runs_ok ws work"
proof -
  have l: "length ws' = length ws" using assms by (rule notified_length)
  show "workers_weight tw aw ws' work = workers_weight tw aw ws work"
    unfolding workers_weight_def l
    by (rule sum.cong [OF refl]) (use notified_nth [OF assms] in force)
  have "is_running (ws' ! i) = is_running (ws ! i)" if "i < length ws" for i
    using notified_nth [OF assms that] by auto
  then show "runs_ok ws' work = runs_ok ws work" by (simp add: runs_ok_def l)
qed

lemma workers_weight_update:
  assumes "i < length ws"
  shows "workers_weight tw aw (ws[i := w]) (work(i := act)) + worker_weight tw aw (ws ! i) (work i) =
         workers_weight tw aw ws work + worker_weight tw aw w act"
proof -
  let ?f = "\<lambda>j. worker_weight tw aw (ws[i := w] ! j) ((work(i := act)) j)" and ?g = "\<lambda>j. worker_weight tw aw (ws ! j) (work j)"
  have "sum ?f {..<length ws} = ?f i + sum ?f ({..<length ws} - {i})"
    "sum ?g {..<length ws} = ?g i + sum ?g ({..<length ws} - {i})"
    using assms by (simp_all add: sum.remove)
  moreover have "sum ?f ({..<length ws} - {i}) = sum ?g ({..<length ws} - {i})"
    by (rule sum.cong) auto
  ultimately show ?thesis using assms by (simp add: workers_weight_def ac_simps)
qed

lemma workers_weight_move:
  "i < length ws \<Longrightarrow>
     workers_weight tw aw (ws[i := w]) work + worker_weight tw aw (ws ! i) (work i) = workers_weight tw aw ws work + worker_weight tw aw w (work i)"
  using workers_weight_update [of i ws tw aw w work "work i"] by simp

lemma workers_weight_act:
  assumes "i < length ws" "ws ! i = W_running t"
  obtains R where "workers_weight tw aw ws work = R + aw (work i)"
    "workers_weight tw aw ws (work(i := act)) = R + aw act"
proof
  let ?R = "\<Sum>j \<in> {..<length ws} - {i}. worker_weight tw aw (ws ! j) (work j)"
  have split: "workers_weight tw aw ws w = aw (w i) + (\<Sum>j \<in> {..<length ws} - {i}. worker_weight tw aw (ws ! j) (w j))" for w
    using assms sum.remove [of "{..<length ws}" i "\<lambda>j. worker_weight tw aw (ws ! j) (w j)"]
    by (simp add: workers_weight_def)
  show "workers_weight tw aw ws work = ?R + aw (work i)" by (simp add: split add.commute)
  show "workers_weight tw aw ws (work(i := act)) = ?R + aw act" by (simp add: split add.commute)
qed

lemma runs_ok_update:
  "runs_ok ws work \<Longrightarrow> (is_running w \<longrightarrow> activity_ok act) \<Longrightarrow>
     runs_ok (ws[i := w]) (work(i := act))"
  by (auto simp: runs_ok_def nth_list_update)

lemma runs_ok_move:
  "runs_ok ws work \<Longrightarrow> \<not> is_running w \<Longrightarrow> runs_ok (ws[i := w]) work"
  using runs_ok_update [of ws work w "work i" i] by simp

lemma at_queue_weightless: "at_queue w \<Longrightarrow> worker_weight tw aw w act = 0"
  by (auto simp: at_queue_def)

lemma queue_side_keeps:
  assumes "queue_side p p'"
  shows "queue_weight tw p' + workers_weight tw aw (tp_workers p') work = queue_weight tw p + workers_weight tw aw (tp_workers p) work"
    "runs_ok (tp_workers p) work \<Longrightarrow> runs_ok (tp_workers p') work"
proof -
  note q = assms [unfolded queue_side_def]
  have "queue_weight tw p' + workers_weight tw aw (tp_workers p') work = queue_weight tw p + workers_weight tw aw (tp_workers p) work \<and>
        (runs_ok (tp_workers p) work \<longrightarrow> runs_ok (tp_workers p') work)"
    using conjunct1 [OF q]
  proof (cases rule: pool_step.cases)
    case (worker_take i t n q' ws)
    have "q_items (tp_queue p) = t # q_items q'" using bq.pop_cases [OF worker_take(4)] by auto
    moreover have "workers_weight tw aw ((tp_workers p)[i := W_got t]) work = workers_weight tw aw (tp_workers p) work + tw t"
      using workers_weight_move [OF worker_take(2), of tw aw "W_got t" work] at_queue_weightless [OF worker_take(3), of tw aw] by simp
    ultimately show ?thesis
      using notified_workers(1) [OF worker_take(5), of tw aw work] notified_workers(2) [OF worker_take(5), of work] runs_ok_move [of "tp_workers p" work "W_got t" i]
      by (simp add: worker_take(1) queue_weight_def ac_simps)
  next
    case (worker_exit i n q')
    then show ?thesis
      using workers_weight_move [OF worker_exit(2), of tw aw W_exited work] at_queue_weightless [OF worker_exit(3), of tw aw]
      by (simp add: queue_weight_def runs_ok_move)
  next
    case (worker_block i)
    then show ?thesis
      using workers_weight_move [OF worker_block(2), of tw aw W_blocked work] at_queue_weightless [OF worker_block(3), of tw aw]
      by (simp add: queue_weight_def runs_ok_move)
  next
    case (spurious i)
    then show ?thesis
      using workers_weight_move [OF spurious(2), of tw aw W_woken work] by (simp add: queue_weight_def runs_ok_move)
  next
    case (active_dec i)
    then show ?thesis
      using workers_weight_move [OF active_dec(2), of tw aw W_idle work] by (simp add: queue_weight_def runs_ok_move)
  qed (use q in simp_all)
  then show "queue_weight tw p' + workers_weight tw aw (tp_workers p') work = queue_weight tw p + workers_weight tw aw (tp_workers p) work"
    "runs_ok (tp_workers p) work \<Longrightarrow> runs_ok (tp_workers p') work" by blast+
qed

lemma queue_weight_workers [simp]:
  "queue_weight tw (p\<lparr>tp_workers := ws\<rparr>) = queue_weight tw p"
  "queue_weight tw (p\<lparr>tp_executed := ts\<rparr>) = queue_weight tw p"
  "queue_weight tw (p\<lparr>tp_active_workers := k\<rparr>) = queue_weight tw p"
  by (simp_all add: queue_weight_def)

lemma shutdown_step_keeps:
  assumes "pool_step True p p'" "tp_shutdown p' \<noteq> tp_shutdown p"
  shows "queue_weight tw p' = queue_weight tw p" "workers_weight tw aw (tp_workers p') work = workers_weight tw aw (tp_workers p) work"
    "runs_ok (tp_workers p') work = runs_ok (tp_workers p) work" "tp_accepted p' = tp_accepted p"
  using assms
  by (cases rule: pool_step.cases;
      auto simp: queue_weight_def queue_shutdown_def notified_workers)+

lemma shutdown_not_joined:
  assumes "pool_step True p p'" "tp_shutdown p' \<noteq> tp_shutdown p" "shutdown_inv p"
  shows "tp_shutdown p \<noteq> S_joined"
  using assms by (cases rule: pool_step.cases) (auto simp: shutdown_inv_def)

subsection \<open>Each step keeps the invariant\<close>

text \<open>What a step does to the trace, the table and the owners.\<close>

definition fd_effect :: "server_sys \<Rightarrow> server_sys \<Rightarrow> bool" where
  "fd_effect s s' =
     (\<exists>acts. ss_trace s' = ss_trace s @ acts \<and> ss_open s' = fold kernel_fd acts (ss_open s) \<and>
        fd_replay (owned s) acts = Some (owned s'))"

lemma emit_simps [simp]:
  "ss_server (emit acts s) = ss_server s" "ss_stop (emit acts s) = ss_stop s" "ss_pool (emit acts s) = ss_pool s"
  "ss_main (emit acts s) = ss_main s" "ss_work (emit acts s) = ss_work s"
  "ss_trace (emit acts s) = ss_trace s @ acts" "ss_open (emit acts s) = fold kernel_fd acts (ss_open s)"
  "owned (emit acts s) = owned s" "client_fds (emit acts s) = client_fds s" "current (emit acts s) = current s"
  by (simp_all add: emit_def owned_def client_fds_def current_def)

lemma sys_step_server: "sys_step s s' \<Longrightarrow> ss_server s' = ss_server s"
  by (induction rule: sys_step.induct) simp_all

lemma clients_frame [simp]:
  "client_fds (s\<lparr>ss_stop := st\<rparr>) = client_fds s" "client_fds (s\<lparr>ss_trace := tr\<rparr>) = client_fds s"
  by (simp_all add: client_fds_def)

lemmas owned_defs = owned_def client_fds_def

lemma fd_effect_emit:
  assumes "s' = emit acts s1" "ss_trace s1 = ss_trace s" "ss_open s1 = ss_open s"
    and "fd_replay M acts = Some M'" "accepts acts = []" "owned s = R + M" "owned s' = R + M'"
  shows "fd_effect s s'"
  using assms fd_replay_frame [OF assms(4,5), of R] by (auto simp: fd_effect_def)

lemma fd_effect_same:
  "ss_trace s' = ss_trace s \<Longrightarrow> ss_open s' = ss_open s \<Longrightarrow> owned s' = owned s \<Longrightarrow> fd_effect s s'"
  by (auto simp: fd_effect_def intro!: exI [of _ "[]"])

lemma sys_step_effect:
  assumes "sys_step s s'" "threads_ok s" "sockets_ok s" "ts_platform (ss_server s) = Posix"
  shows "fd_effect s s'"
  using assms
proof (induction rule: sys_step.induct)
  case (test_stop s st)
  then show ?case
    using main_turn_closes(2) [of "ss_stop s" st]
    by (intro fd_effect_same) (simp_all add: owned_defs sockets_ok_def threads_ok_def)
next
  case (accept_call s)
  then show ?case
    by (intro fd_effect_emit [OF refl, where M = "{#}" and M' = "{#}" and R = "owned s"])
       (simp_all add: owned_defs)
next
  case (accept_again s lfd rd err ord what acts)
  obtain msgs where "acts = map (A_log LOG_ERROR) msgs"
    using accept_failed_silent [OF accept_again(3,2)] by blast
  with accept_again(1) show ?case
    by (intro fd_effect_emit [OF refl, where M = "{#}" and M' = "{#}" and R = "owned s"])
       (simp_all add: owned_defs)
next
  case (accept_leaves s lfd rd err ord what acts st)
  obtain msgs where "acts = map (A_log LOG_ERROR) msgs"
    using accept_failed_silent [OF accept_leaves(3,2)] by blast
  with accept_leaves show ?case
    using main_turn_closes(2) [of "ss_stop s" st]
    by (intro fd_effect_emit [OF refl, where M = "{#}" and M' = "{#}" and R = "owned s"])
       (simp_all add: owned_defs sockets_ok_def threads_ok_def)
next
  case (accept_ok s lfd fd ip port)
  then have "fd \<notin># owned s" by (simp add: sockets_ok_def table_ok_def)
  with accept_ok(1) show ?case
    by (auto simp: fd_effect_def owned_defs intro!: exI [of _ "[A_accept fd]"])
next
  case (opened s t)
  then show ?case
    by (intro fd_effect_emit [OF refl, where M = "{#}" and M' = "{#}" and R = "owned s"])
       (simp_all add: owned_defs)
next
  case (gauge s t)
  then show ?case
    by (intro fd_effect_emit [OF refl, where M = "{#}" and M' = "{#}" and R = "owned s"])
       (simp_all add: owned_defs)
next
  case (submit_ok s t rd n p ws ord what acts r)
  note p = pool_submit_accepts [OF submit_ok(4)] pool_submit_accepts(4) [OF submit_ok(4), of task_fds]
  have a: "acts = [A_submit (fst t) (snd t)]"
    using submit_client_accepted [OF submit_ok(6,3)] submit_ok(2,4) by simp
  have o: "owned (s\<lparr>ss_pool := p\<lparr>tp_workers := ws\<rparr>, ss_main := M_test\<rparr>) = owned s"
    using submit_ok(1) p notified_workers(1) [OF submit_ok(5), of task_fds activity_fds "ss_work s"]
    by (simp add: owned_defs task_fds_def)
  have "fst t \<in># owned s" using submit_ok(1) by (simp add: owned_defs)
  then show ?case
    unfolding a by (auto simp: fd_effect_def o if_open_def intro!: exI [of _ "[A_submit (fst t) (snd t)]"])
next
  case (submit_refused s t rd ord what acts r)
  have "activity_fds (fst t, acts, r \<noteq> None) = {#fst t#}"
    using submit_client_refused [OF submit_refused(4)] submit_refused(2,3) by (simp add: activity_begins_def)
  with submit_refused(1) show ?case by (intro fd_effect_same) (simp_all add: owned_defs)
next
  case (reject_act s fd a acts ends)
  then have "activity_ok (fd, a # acts, ends)" by (simp add: threads_ok_def)
  note st = activity_step [OF this]
  show ?case
    by (rule fd_effect_emit [OF refl _ _ st(4,2), where R = "owned s - activity_fds (fd, a # acts, ends)"])
       (use reject_act in \<open>simp_all add: owned_defs\<close>)
next
  case (leave s)
  then show ?case
    by (intro fd_effect_emit [OF refl, where M = "{#}" and M' = "{#}" and R = "owned s"])
       (simp_all add: owned_defs)
next
  case (shutdown s p)
  then show ?case
    using shutdown_step_keeps(1) [OF shutdown(2,3), of task_fds]
      shutdown_step_keeps(2) [OF shutdown(2,3), of task_fds activity_fds]
    by (intro fd_effect_same) (simp_all add: owned_defs)
next
  case (finish s st)
  then have "stop_inv (ts_listen_fd (ss_server s)) (ss_stop s)" by (simp add: sockets_ok_def)
  note f = main_turn_closes(1) [OF finish(3) [unfolded finish(6)] this]
  show ?case
    by (rule fd_effect_emit [OF refl _ _ f, where R = "client_fds s"]) (simp_all add: owned_def add.commute)
next
  case (finished s)
  then show ?case
    by (intro fd_effect_emit [OF refl, where M = "{#}" and M' = "{#}" and R = "owned s"])
       (simp_all add: owned_defs)
next
  case (signal sg s a acts srv)
  then show ?case
    using signal_logs [OF signal(1)]
    by (intro fd_effect_emit [OF refl, where M = "{#}" and M' = "{#}" and R = "owned s"])
       (simp_all add: shutdown_notice_def)
next
  case (handler s st)
  then have "stop_inv (ts_listen_fd (ss_server s)) (ss_stop s)" by (simp add: sockets_ok_def)
  note f = handler_turn_closes [OF handler(2) [unfolded handler(5)] this]
  show ?case
    by (rule fd_effect_emit [OF refl _ _ f, where R = "client_fds s"]) (simp_all add: owned_def add.commute)
next
  case (worker_queue s p)
  then show ?case
    using queue_side_keeps(1) [of "ss_pool s" p task_fds activity_fds "ss_work s"]
    by (intro fd_effect_same) (simp_all add: owned_defs add.assoc)
next
  case (worker_start i s t seen env acts r)
  have "workers_fds ((tp_workers (ss_pool s))[i := W_running t]) ((ss_work s)(i := (fst t, acts, r \<noteq> None))) =
        workers_fds (tp_workers (ss_pool s)) (ss_work s)"
    using workers_weight_update [OF worker_start(1), of task_fds activity_fds "W_running t" "ss_work s" "(fst t, acts, r \<noteq> None)"]
      handle_client_activity [OF worker_start(3)] worker_start(2)
    by (simp add: task_fds_def activity_begins_def)
  then show ?case by (intro fd_effect_same) (simp_all add: owned_defs queue_weight_def)
next
  case (worker_act i s t fd a acts ends)
  let ?ws = "tp_workers (ss_pool s)" and ?work = "(ss_work s)(i := (fd, acts, ends))"
  have "activity_ok (fd, a # acts, ends)"
    using worker_act by (auto simp: threads_ok_def runs_ok_def dest!: spec [of _ i])
  note st = activity_step [OF this]
  obtain R where R: "workers_fds ?ws (ss_work s) = R + activity_fds (fd, a # acts, ends)"
    "workers_fds ?ws ?work = R + activity_fds (fd, acts, ends)"
    using workers_weight_act [OF worker_act(1,2), of task_fds activity_fds "ss_work s" "(fd, acts, ends)"] worker_act(3) by metis
  show ?case
    by (rule fd_effect_emit [OF refl _ _ st(4,2), where
          R = "listen_fds (ts_listen_fd (ss_server s)) (ss_stop s) + main_fds (ss_main s) + queued_fds (ss_pool s) + R"])
       (simp_all add: owned_defs R add.assoc del: activity_fds.simps)
next
  case (worker_finish i s t fd)
  then have "workers_fds ((tp_workers (ss_pool s))[i := W_finished]) (ss_work s) =
        workers_fds (tp_workers (ss_pool s)) (ss_work s)"
    using workers_weight_move [OF worker_finish(1), of task_fds activity_fds W_finished "ss_work s"] by simp
  then show ?case by (intro fd_effect_same) (simp_all add: owned_defs queue_weight_def)
qed (simp_all add: fd_effect_same owned_defs)

lemma sys_step_runs:
  assumes "sys_step s s'" "threads_ok s"
  shows "runs_ok (tp_workers (ss_pool s')) (ss_work s')"
  using assms
proof (induction rule: sys_step.induct)
  case (submit_ok s t rd n p ws ord what acts r)
  then show ?case
    using notified_workers(2) [OF submit_ok(5)] pool_submit_accepts(2) [OF submit_ok(4)]
    by (simp add: threads_ok_def)
next
  case (shutdown s p)
  then show ?case using shutdown_step_keeps(3) [OF shutdown(2,3)] by (simp add: threads_ok_def)
next
  case (worker_queue s p)
  then show ?case using queue_side_keeps(2) by (simp add: threads_ok_def)
next
  case (worker_start i s t seen env acts r)
  then show ?case
    using runs_ok_update [of "tp_workers (ss_pool s)" "ss_work s" "W_running t" "(fst t, acts, r \<noteq> None)" i]
      handle_client_activity [OF worker_start(3)]
    by (simp add: threads_ok_def fun_upd_def activity_begins_def)
next
  case (worker_act i s t fd a acts ends)
  have r: "runs_ok (tp_workers (ss_pool s)) (ss_work s)" using worker_act by (simp add: threads_ok_def)
  with worker_act have "activity_ok (fd, a # acts, ends)" by (auto simp: runs_ok_def dest!: spec [of _ i])
  from runs_ok_update [OF r, of "tp_workers (ss_pool s) ! i" "(fd, acts, ends)" i] activity_step(1) [OF this]
  show ?case by (simp add: fun_upd_def)
next
  case (worker_finish i s t fd)
  then show ?case by (simp add: threads_ok_def runs_ok_move)
qed (simp_all add: threads_ok_def)

lemma main_ok_handler:
  "main_ok pc st p \<Longrightarrow> handler_turn plat st = Some st' \<Longrightarrow> main_ok pc st' p"
  using handler_turn_frame(1,2) [of plat st st'] by (cases pc) auto

lemma main_ok_pool: "main_ok pc st p \<Longrightarrow> tp_shutdown p' = tp_shutdown p \<Longrightarrow> main_ok pc st p'"
  by (cases pc) auto

lemma sys_step_main:
  assumes "sys_step s s'" "threads_ok s"
  shows "main_ok (ss_main s') (ss_stop s') (ss_pool s')"
  using assms
proof (induction rule: sys_step.induct)
  case (test_stop s st)
  then show ?case using main_turn_frame [OF test_stop(2)] by (simp add: threads_ok_def)
next
  case (accept_leaves s lfd rd err ord what acts st)
  then show ?case using main_turn_frame [OF accept_leaves(4)] by (simp add: threads_ok_def)
next
  case (submit_refused s t rd ord what acts r)
  then show ?case
    using submit_client_refused [OF submit_refused(4)] by (simp add: activity_begins_def threads_ok_def)
next
  case (reject_act s fd a acts ends)
  then show ?case using activity_step(1) [of fd a acts ends] by (simp add: threads_ok_def)
next
  case (shutdown s p)
  then show ?case using shutdown_not_joined [OF shutdown(2,3)] by (auto simp: threads_ok_def)
next
  case (finish s st)
  then show ?case using main_turn_frame [OF finish(3)] by (simp add: threads_ok_def)
next
  case (handler s st)
  then show ?case using main_ok_handler [OF _ handler(2)] by (simp add: threads_ok_def)
next
  case (worker_queue s p)
  then show ?case using main_ok_pool [of "ss_main s" "ss_stop s" "ss_pool s" p]
    by (simp add: threads_ok_def queue_side_def)
next
  case (worker_start i s t seen env acts r)
  then show ?case by (auto simp: threads_ok_def elim!: main_ok_pool)
next
  case (worker_finish i s t fd)
  then show ?case by (auto simp: threads_ok_def elim!: main_ok_pool)
qed (simp_all add: threads_ok_def)

lemma sys_step_accepted:
  assumes "sys_step s s'" "threads_ok s"
  shows "tp_accepted (ss_pool s') = submits (ss_trace s')"
  using assms
proof (induction rule: sys_step.induct)
  case (accept_again s lfd rd err ord what acts)
  then show ?case using accept_failed_silent [OF accept_again(3,2)] by (auto simp: threads_ok_def)
next
  case (accept_leaves s lfd rd err ord what acts st)
  then show ?case using accept_failed_silent [OF accept_leaves(3,2)] by (auto simp: threads_ok_def)
next
  case (submit_ok s t rd n p ws ord what acts r)
  then show ?case
    using pool_submit_accepts(3) [OF submit_ok(4)] submit_client_accepted [OF submit_ok(6,3)]
    by (simp add: threads_ok_def)
next
  case (reject_act s fd a acts ends)
  then show ?case using activity_step(3) [of fd a acts ends] by (simp add: threads_ok_def)
next
  case (shutdown s p)
  then show ?case using shutdown_step_keeps(4) [OF shutdown(2,3)] by (simp add: threads_ok_def)
next
  case (signal sg s a acts srv)
  then show ?case using signal_logs [OF signal(1)] by (simp add: threads_ok_def shutdown_notice_def)
next
  case (worker_act i s t fd a acts ends)
  then have "activity_ok (fd, a # acts, ends)" by (auto simp: threads_ok_def runs_ok_def dest!: spec [of _ i])
  from activity_step(3) [OF this] worker_act show ?case by (simp add: threads_ok_def)
qed (simp_all add: threads_ok_def queue_side_def)

lemma sys_step_pool:
  assumes "sys_step s s'"
  shows "(pool_step True)\<^sup>*\<^sup>* (ss_pool s) (ss_pool s')"
  using assms
proof (induction rule: sys_step.induct)
  case (submit_ok s t rd n p ws ord what acts r)
  note p = pool_submit_accepts [OF submit_ok(4)]
  from pool_submit_steps [OF p(1) submit_ok(4) submit_ok(5) [unfolded p(2)], of True] show ?case
    by (auto intro: converse_rtranclp_into_rtranclp)
qed (auto simp: queue_side_def intro: active_inc [simplified] run_task)

lemma sys_step_shutdown:
  assumes "sys_step s s'" "shutdown_inv (ss_pool s)"
  shows "shutdown_inv (ss_pool s')"
  using sys_step_pool [OF assms(1)] assms(2) by (induction rule: rtranclp_induct) (auto dest: pool_step_shutdown)

lemma sys_step_notice:
  assumes "sys_step s s'" "threads_ok s"
  shows "st_handler (ss_stop s') \<noteq> H_idle \<longrightarrow> shutdown_notice \<in> set (ss_trace s')"
  using assms by (induction rule: sys_step.induct) (auto simp: threads_ok_def dest: main_turn_frame(2))

lemma sys_step_threads:
  assumes "threads_ok s" "sys_step s s'"
  shows "threads_ok s'"
  using sys_step_runs [OF assms(2,1)] sys_step_main [OF assms(2,1)] sys_step_accepted [OF assms(2,1)]
    sys_step_shutdown [OF assms(2)] sys_step_notice [OF assms(2,1)] assms(1) by (simp add: threads_ok_def)

text \<open>The turns of \<open>StopRace\<close> that a step performs.\<close>

definition stop_step :: "platform \<Rightarrow> stop_state \<Rightarrow> stop_state \<Rightarrow> bool" where
  "stop_step plat st st' = (handler_turn plat st = Some st' \<or> main_turn plat st = Some st')"

lemma sys_step_stop:
  assumes "sys_step s s'"
  shows "ss_stop s' = ss_stop s \<or> stop_step (ts_platform (ss_server s)) (ss_stop s) (ss_stop s')"
  using assms by (induction rule: sys_step.induct) (simp_all add: stop_step_def)

lemma calling_frame:
  assumes "calling_ok pc L st M" "M' \<subseteq># M" "st_running st' \<Longrightarrow> st_running st"
  shows "calling_ok pc L st' M'"
  using assms by (cases pc) (auto dest: mset_subset_eqD)

lemma sys_step_calling:
  assumes "sys_step s s'" "threads_ok s" "sockets_ok s" "ts_platform (ss_server s) = Posix"
  shows "calling_ok (ss_main s') (ts_listen_fd (ss_server s')) (ss_stop s') (client_fds s')"
  using assms
proof (induction rule: sys_step.induct)
  case (test_go s)
  let ?L = "ts_listen_fd (ss_server s)"
  have "st_closed (ss_stop s) = []" "count (owned s) ?L \<le> 1"
    using test_go by (auto simp: sockets_ok_def stop_inv_def table_ok_def split: handler_pc.splits)
  then have "count (client_fds s) ?L = 0" by (simp add: owned_def listen_fds_def)
  with test_go(1) show ?case by (simp add: client_fds_def count_eq_zero_iff)
next
  case (accept_call s)
  then have "st_listen_fd (ss_stop s) = ts_listen_fd (ss_server s) \<or>
      st_listen_fd (ss_stop s) = invalid_socket Posix \<and> \<not> st_running (ss_stop s)"
    by (auto simp: sockets_ok_def stop_inv_def split: handler_pc.splits)
  with accept_call show ?case by (auto simp: sockets_ok_def client_fds_def)
next
  case (shutdown s p)
  then show ?case by simp
next
  case (signal sg s a acts srv)
  then show ?case by (simp add: sockets_ok_def)
next
  case (handler s st)
  then show ?case
    using handler_turn_frame(2) [OF handler(2)]
    by (auto simp: sockets_ok_def elim!: calling_frame)
next
  case (worker_queue s p)
  then show ?case
    using queue_side_keeps(1) [of "ss_pool s" p task_fds activity_fds "ss_work s"]
    by (simp add: sockets_ok_def client_fds_def add.assoc)
next
  case (worker_start i s t seen env acts r)
  have "workers_fds ((tp_workers (ss_pool s))[i := W_running t]) ((ss_work s)(i := (fst t, acts, r \<noteq> None))) =
        workers_fds (tp_workers (ss_pool s)) (ss_work s)"
    using workers_weight_update [OF worker_start(1), of task_fds activity_fds "W_running t" "ss_work s" "(fst t, acts, r \<noteq> None)"]
      handle_client_activity [OF worker_start(3)] worker_start(2)
    by (simp add: task_fds_def activity_begins_def)
  with worker_start show ?case by (simp add: sockets_ok_def client_fds_def)
next
  case (worker_act i s t fd a acts ends)
  have "activity_ok (fd, a # acts, ends)"
    using worker_act by (auto simp: threads_ok_def runs_ok_def dest!: spec [of _ i])
  note st = activity_step [OF this]
  have "mset (closes [a]) + activity_fds (fd, acts, ends) = activity_fds (fd, a # acts, ends)"
    using fd_replay_balance [OF st(4)] st(2) by simp
  then have sub: "activity_fds (fd, acts, ends) \<subseteq># activity_fds (fd, a # acts, ends)"
    by (metis mset_subset_eq_add_right)
  obtain R where R: "workers_fds (tp_workers (ss_pool s)) (ss_work s) = R + activity_fds (fd, a # acts, ends)"
    "workers_fds (tp_workers (ss_pool s)) ((ss_work s)(i := (fd, acts, ends))) = R + activity_fds (fd, acts, ends)"
    using workers_weight_act [OF worker_act(1,2), of task_fds activity_fds "ss_work s" "(fd, acts, ends)"] worker_act(3) by metis
  have "client_fds (emit [a] (s\<lparr>ss_work := (ss_work s)(i := (fd, acts, ends))\<rparr>)) \<subseteq># client_fds s"
    using sub by (simp add: client_fds_def R del: activity_fds.simps fun_upd_apply)
  with worker_act show ?case by (auto simp: sockets_ok_def elim!: calling_frame)
next
  case (worker_finish i s t fd)
  then have "workers_fds ((tp_workers (ss_pool s))[i := W_finished]) (ss_work s) =
        workers_fds (tp_workers (ss_pool s)) (ss_work s)"
    using workers_weight_move [OF worker_finish(1), of task_fds activity_fds W_finished "ss_work s"] by simp
  with worker_finish show ?case by (simp add: sockets_ok_def client_fds_def)
qed simp_all

lemma sys_step_sockets:
  assumes "threads_ok s" "sockets_ok s" "ts_platform (ss_server s) = Posix" "sys_step s s'"
  shows "sockets_ok s'"
proof -
  note s = sys_step_server [OF assms(4)]
  obtain acts where "ss_open s' = fold kernel_fd acts (ss_open s)" "fd_replay (owned s) acts = Some (owned s')"
    using sys_step_effect [OF assms(4,1-3)] by (auto simp: fd_effect_def)
  moreover have i: "table_ok (ss_open s) (owned s)" "stop_inv (ts_listen_fd (ss_server s)) (ss_stop s)"
    "ts_listen_fd (ss_server s) \<noteq> invalid_socket Posix" using assms(2) by (simp_all add: sockets_ok_def)
  ultimately have "table_ok (ss_open s') (owned s')" using fd_replay_table by metis
  moreover have "stop_inv (ts_listen_fd (ss_server s)) (ss_stop s')"
    using sys_step_stop [OF assms(4)] i(2,3) assms(3) handler_turn_inv main_turn_inv
    by (auto simp: stop_step_def)
  ultimately show ?thesis
    using sys_step_calling [OF assms(4,1-3)] i(3) s by (simp add: sockets_ok_def)
qed

lemma sys_step_inv: "sys_inv s \<Longrightarrow> sys_step s s' \<Longrightarrow> sys_inv s'"
  using sys_step_threads [of s s'] sys_step_sockets [of s s'] sys_step_server [of s s'] by (simp add: sys_inv_def)

lemma sys_boot_start:
  assumes "sys_boot se srv = Some s"
  shows "sys_inv s" "fd_replay {#se_socket se#} (ss_trace s) = Some (owned s)"
    "ss_pool s = ThreadPool_make (unat (cfg_thread_count (ts_config srv))) (cfg_queue_capacity (ts_config srv))"
    "ts_listen_fd (ss_server s) = se_socket se" "ts_platform (ss_server s) = ts_platform srv"
    "ss_stop s = stop_init (se_socket se)"
proof -
  let ?c = "ts_config srv"
  let ?p = "ThreadPool_make (unat (cfg_thread_count ?c)) (cfg_queue_capacity ?c) :: task ThreadPool"
  have p: "queued_fds ?p = {#}" "workers_fds (tp_workers ?p) w = {#}" "runs_ok (tp_workers ?p) w"
    "tp_accepted ?p = []" "shutdown_inv ?p" for w
    by (simp_all add: ThreadPool_make_def BoundedBlockingQueue_make_def queue_weight_def workers_weight_def runs_ok_def shutdown_inv_def)
  have s: "se_socket se \<noteq> invalid_socket (ts_platform srv)" "ss_pool s = ?p" "ss_open s = {se_socket se}"
    "ss_main s = M_test" "ts_listen_fd (ss_server s) = se_socket se" "ts_platform (ss_server s) = ts_platform srv"
    "ss_stop s = stop_init (se_socket se)"
    "submits (ss_trace s) = []" "fd_replay {#se_socket se#} (ss_trace s) = Some {#se_socket se#}"
    using assms
    by (auto simp: sys_boot_def open_listener_def start_pool_def Let_def if_open_def split: if_splits option.splits)
  have o: "owned s = {#se_socket se#}" by (simp add: owned_defs listen_fds_def stop_init_def s p)
  show "ss_pool s = ?p" "ts_listen_fd (ss_server s) = se_socket se" "ts_platform (ss_server s) = ts_platform srv"
    "ss_stop s = stop_init (se_socket se)" by (fact s)+
  show "sys_inv s"
    using s(1) by (cases "ts_platform srv") (simp_all add: sys_inv_def threads_ok_def sockets_ok_def table_ok_def o s p stop_inv_def stop_init_def)
  show "fd_replay {#se_socket se#} (ss_trace s) = Some (owned s)" by (simp add: o s)
qed

subsection \<open>Balances\<close>

lemma amounts_simps [simp]:
  "amounts f [] = 0" "amounts f (a # acts) = f a + amounts f acts" "amounts f (xs @ ys) = amounts f xs + amounts f ys"
  by (simp_all add: amounts_def)

text \<open>
  The contract of a quantity that the threads keep in balance: which actions of the main thread count,
  what a queued connection stands for, and that every run of \<open>handle_client\<close> and every rejection contributes
  what is expected of it, action by action.
\<close>

locale flow =
  fixes amount :: "action \<Rightarrow> int" and per_task carried :: int and pend rej :: "activity \<Rightarrow> int"
  assumes silent: "amount (A_log lvl msg) = 0" "amount (A_accept fd) = 0" "amount (A_accept_call fd) = 0"
      "amount (A_close fd) = 0" "amount (A_metric (Ev_active_workers n)) = 0"
    and opens: "amount (A_metric Ev_opened) + carried = 0"
    and hands_over: "amount (A_submit fd info) + per_task = carried"
    and begins: "handle_client srv env fd addr = (acts, r) \<Longrightarrow> pend (fd, acts, r \<noteq> None) = per_task"
    and rejects: "reject_client plat ord script fd (A_log lvl msg) = (acts, r) \<Longrightarrow> rej (fd, acts, r \<noteq> None) = carried"
    and moves: "activity_ok (fd, a # acts, ends) \<Longrightarrow>
        pend (fd, a # acts, ends) = amount a + pend (fd, acts, ends) \<and>
        rej (fd, a # acts, ends) = amount a + rej (fd, acts, ends)"
    and ends: "pend (fd, [], True) = 0" "rej (fd, [], True) = 0"
begin

lemma logs_amount [simp]: "amounts amount (map (A_log lvl) msgs) = 0"
  by (induction msgs) (simp_all add: silent)

lemma closes_amount [simp]: "amounts amount (new_closes st st') = 0"
proof -
  have "amounts amount (map A_close fds) = 0" for fds by (induction fds) (simp_all add: silent)
  then show ?thesis by (simp add: new_closes_def)
qed

lemma balance_step:
  assumes "sys_step s s'" "threads_ok s"
  shows "balance amount per_task carried pend rej s' = balance amount per_task carried pend rej s"
  using assms
proof (induction rule: sys_step.induct)
  case (accept_again s lfd rd err ord what acts)
  then show ?case using accept_failed_silent [OF accept_again(3,2)] by (auto simp: balance_def)
next
  case (accept_leaves s lfd rd err ord what acts st)
  then show ?case using accept_failed_silent [OF accept_leaves(3,2)] by (auto simp: balance_def)
next
  case (opened s t)
  then show ?case using opens by (simp add: balance_def)
next
  case (submit_ok s t rd n p ws ord what acts r)
  note p = pool_submit_accepts(2) [OF submit_ok(4)] pool_submit_accepts(4) [OF submit_ok(4), of "\<lambda>_. per_task"]
    notified_workers(1) [OF submit_ok(5), of "\<lambda>_. per_task" pend "ss_work s"]
    submit_client_accepted [OF submit_ok(6,3)] hands_over [of "fst t" "snd t"]
  with submit_ok show ?case by (simp add: balance_def)
next
  case (submit_refused s t rd ord what acts r)
  obtain lvl msg where "reject_client (ts_platform (ss_server s)) ord (ar_send rd) (fst t) (A_log lvl msg) = (acts, r)"
    using submit_client_rejects [OF submit_refused(4)] submit_refused(2,3) by auto
  from rejects [OF this] submit_refused(1) show ?case by (simp add: balance_def)
next
  case (reject_act s fd a acts ends)
  then have "activity_ok (fd, a # acts, ends)" by (simp add: threads_ok_def)
  from moves [OF this] reject_act show ?case by (simp add: balance_def)
next
  case (reject_end s fd)
  then show ?case by (simp add: balance_def ends)
next
  case (shutdown s p)
  then show ?case
    using shutdown_step_keeps(1) [OF shutdown(2,3), of "\<lambda>_. per_task"]
      shutdown_step_keeps(2) [OF shutdown(2,3), of "\<lambda>_. per_task" pend]
    by (simp add: balance_def)
next
  case (signal sg s a acts srv)
  then show ?case using signal_logs [OF signal(1)] by (simp add: balance_def shutdown_notice_def silent)
next
  case (worker_queue s p)
  then show ?case
    using queue_side_keeps(1) [of "ss_pool s" p "\<lambda>_. per_task" pend "ss_work s"] by (simp add: balance_def)
next
  case (worker_start i s t seen env acts r)
  then show ?case
    using workers_weight_update [OF worker_start(1), of "\<lambda>_. per_task" pend "W_running t" "ss_work s"
        "(fst t, acts, r \<noteq> None)"] begins [OF worker_start(3)]
    by (simp add: balance_def fun_upd_def)
next
  case (worker_act i s t fd a acts ends)
  then have "activity_ok (fd, a # acts, ends)" by (auto simp: threads_ok_def runs_ok_def dest!: spec [of _ i])
  note st = moves [OF this]
  obtain R where R: "workers_weight (\<lambda>_. per_task) pend (tp_workers (ss_pool s)) (ss_work s) =
      R + pend (fd, a # acts, ends)"
    "workers_weight (\<lambda>_. per_task) pend (tp_workers (ss_pool s)) ((ss_work s)(i := (fd, acts, ends))) =
      R + pend (fd, acts, ends)"
    using workers_weight_act [OF worker_act(1,2), of "\<lambda>_. per_task" pend "ss_work s" "(fd, acts, ends)"]
      worker_act(3) by metis
  with st show ?case by (simp add: balance_def del: fun_upd_apply)
next
  case (worker_finish i s t fd)
  then show ?case
    using workers_weight_move [OF worker_finish(1), of "\<lambda>_. per_task" pend W_finished "ss_work s"]
    by (simp add: balance_def ends)
qed (simp_all add: balance_def silent)

end

text \<open>The runs of the two kinds, by their actions.\<close>

lemma handle_client_run:
  assumes "handle_client srv env fd addr = (acts, r)"
  obtains mid where "acts = [A_metric Ev_request, A_metric (Ev_queue_size (of_nat (ts_queue_size srv))),
      A_rcvtimeo fd 10000, A_recv fd] @ mid @ (if r = None then [] else [A_close fd, A_metric Ev_closed])"
    "amounts request_amount mid = 0" "amounts outcome_amount mid = 0"
proof (cases r)
  case None
  with handle_client_blocked [of srv env fd addr acts] assms show ?thesis
    by (auto intro!: that elim!: is_outcome.elims)
next
  case (Some q)
  with handle_client_cases [OF assms [unfolded Some]] show ?thesis
    by (auto simp: answered_def intro!: that split: if_splits elim!: is_outcome.elims)
qed

interpretation fg: flow gauge_amount 1 1 gauge_left gauge_left
proof unfold_locales
  fix srv env fd addr acts and r :: "unit throws option"
  assume "handle_client srv env fd addr = (acts, r)"
  then show "gauge_left (fd, acts, r \<noteq> None) = 1"
    using handle_client_activity by (simp add: gauge_left_def activity_begins_def)
next
  fix plat ord script fd lvl msg acts and r :: "unit throws option"
  assume "reject_client plat ord script fd (A_log lvl msg) = (acts, r)"
  then show "gauge_left (fd, acts, r \<noteq> None) = 1"
    using reject_client_activity by (simp add: gauge_left_def activity_begins_def)
next
  fix fd a acts ends
  assume "activity_ok (fd, a # acts, ends)"
  note st = activity_step(5,6) [OF this]
  have "gauge_amount a = int (count_list (events [a]) Ev_closed)" using st(1) by (cases a) auto
  then show "gauge_left (fd, a # acts, ends) = gauge_amount a + gauge_left (fd, acts, ends) \<and>
      gauge_left (fd, a # acts, ends) = gauge_amount a + gauge_left (fd, acts, ends)"
    using st(2) by (simp only: gauge_left_def) simp
qed (simp_all add: gauge_left_def)

interpretation fr: flow request_amount 1 0 "run_amount request_amount" "run_amount request_amount"
proof unfold_locales
  fix srv env fd addr acts and r :: "unit throws option"
  assume "handle_client srv env fd addr = (acts, r)"
  then show "run_amount request_amount (fd, acts, r \<noteq> None) = 1" by (elim handle_client_run) auto
next
  fix plat ord script fd lvl msg acts and r :: "unit throws option"
  assume a: "reject_client plat ord script fd (A_log lvl msg) = (acts, r)"
  show "run_amount request_amount (fd, acts, r \<noteq> None) = 0"
    by (cases rule: send_response_cases [of plat script fd "serialize ord service_unavailable"])
       (use a in \<open>auto simp: reject_client_def close_connection_def Let_def\<close>)
qed simp_all

interpretation fo: flow outcome_amount 0 0 "run_amount outcome_amount" reject_outcomes
proof unfold_locales
  fix srv env fd addr acts and r :: "unit throws option"
  assume "handle_client srv env fd addr = (acts, r)"
  then show "run_amount outcome_amount (fd, acts, r \<noteq> None) = 0" by (elim handle_client_run) auto
next
  fix plat ord script fd lvl msg acts and r :: "unit throws option"
  assume a: "reject_client plat ord script fd (A_log lvl msg) = (acts, r)"
  show "reject_outcomes (fd, acts, r \<noteq> None) = 0"
    by (cases rule: send_response_cases [of plat script fd "serialize ord service_unavailable"])
       (use a in \<open>auto simp: reject_client_def close_connection_def Let_def\<close>)
qed simp_all

lemma amounts_counts:
  "amounts gauge_amount tr = int (count_list (events tr) Ev_closed) - int (count_list (events tr) Ev_opened)"
  "amounts request_amount tr = int (count_list (events tr) Ev_request) - int (length (submits tr))"
  "amounts outcome_amount tr = int (outcomes (events tr)) - int (length (wires tr))"
proof (induction tr)
  case (Cons a tr)
  {
    case 1
    show ?case using Cons(1) by (cases a) auto
  next
    case 2
    show ?case using Cons(2) by (cases a) auto
  next
    case 3
    show ?case using Cons(3) by (cases a) (auto simp: outcomes_def)
  }
qed (simp_all add: outcomes_def)

lemma outcomes_counts:
  "outcomes es = count_list es Ev_success + count_list es Ev_client_error + count_list es Ev_server_error"
proof (induction es)
  case (Cons e es)
  then show ?case by (cases e) (simp_all add: outcomes_def)
qed (simp add: outcomes_def)

lemma gauge_weight:
  "queue_weight (\<lambda>_. 1) p = int (queue_weight (\<lambda>_. 1) p)"
  "workers_weight (\<lambda>_. 1) gauge_left ws work = int (workers_weight (\<lambda>_. 1) activity_gauge ws work)"
proof -
  have "worker_weight (\<lambda>_. 1) gauge_left w act = int (worker_weight (\<lambda>_. 1) activity_gauge w act)" for w act
    by (cases w) (simp_all add: gauge_left_def)
  then show "workers_weight (\<lambda>_. 1) gauge_left ws work = int (workers_weight (\<lambda>_. 1) activity_gauge ws work)"
    by (simp add: workers_weight_def)
  have "sum_list (map (\<lambda>_. 1) xs) = int (sum_list (map (\<lambda>_. 1) xs))" for xs :: "task list"
    by (induction xs) simp_all
  then show "queue_weight (\<lambda>_. 1) p = int (queue_weight (\<lambda>_. 1) p)" by (simp add: queue_weight_def)
qed

lemma gauge_balance:
  "balance gauge_amount 1 1 gauge_left gauge_left s =
     int (count_list (events (ss_trace s)) Ev_closed) + int (open_connections s) -
     int (count_list (events (ss_trace s)) Ev_opened)"
proof -
  have "main_amount 1 gauge_left (ss_main s) = int (main_gauge (ss_main s))"
    by (cases "ss_main s") (simp_all add: gauge_left_def)
  then show ?thesis
    unfolding balance_def amounts_counts(1) gauge_weight(2) gauge_weight(1) [of "ss_pool s"] open_connections_def
    by simp
qed

definition balanced_sys :: "server_sys \<Rightarrow> bool" where
  "balanced_sys s =
     (balance gauge_amount 1 1 gauge_left gauge_left s = 0 \<and>
      balance request_amount 1 0 (run_amount request_amount) (run_amount request_amount) s = 0 \<and>
      balance outcome_amount 0 0 (run_amount outcome_amount) reject_outcomes s = 0)"

lemma sys_step_balanced: "sys_step s s' \<Longrightarrow> threads_ok s \<Longrightarrow> balanced_sys s \<Longrightarrow> balanced_sys s'"
  by (simp add: balanced_sys_def fg.balance_step fr.balance_step fo.balance_step)

section \<open>The system refines the pool, the race of \<open>stop\<close> and the descriptor discipline\<close>

lemma pool_reaches: "reaches (\<lambda>p. p = ThreadPool_make n cap) (pool_step excl) p \<Longrightarrow> pool_reachable excl n cap p"
  by (induction rule: reaches.induct) (auto intro: pool_reachable.intros)

interpretation sp: simulation "\<lambda>s. sys_boot se srv = Some s" sys_step sys_inv
    "\<lambda>p. p = ThreadPool_make (unat (cfg_thread_count (ts_config srv))) (cfg_queue_capacity (ts_config srv))"
    "pool_step True" ss_pool for se srv
  by unfold_locales (auto intro: sys_boot_start sys_step_inv sys_step_pool)

interpretation sr: simulation "\<lambda>s. sys_boot se srv = Some s" sys_step
    "\<lambda>s. ts_platform (ss_server s) = ts_platform srv" "\<lambda>st. st = stop_init (se_socket se)"
    "stop_step (ts_platform srv)" ss_stop for se srv
  by unfold_locales (auto simp: sys_boot_start sys_step_server dest: sys_step_stop)

interpretation sf: simulation "\<lambda>s. sys_boot se srv = Some s \<and> ts_platform srv = Posix" sys_step
    "\<lambda>s. sys_inv s \<and> ts_platform (ss_server s) = Posix"
    "\<lambda>x. fd_replay {#se_socket se#} (snd x) = Some (fst x)" fd_step "\<lambda>s. (owned s, ss_trace s)" for se srv
proof unfold_locales
  fix s s'
  assume "sys_inv s \<and> ts_platform (ss_server s) = Posix" "sys_step s s'"
  then obtain acts where "ss_trace s' = ss_trace s @ acts" "fd_replay (owned s) acts = Some (owned s')"
    using sys_step_effect [of s s'] by (auto simp: fd_effect_def sys_inv_def)
  then show "fd_step\<^sup>*\<^sup>* (owned s, ss_trace s) (owned s', ss_trace s')" using fd_replay_steps by metis
qed (auto simp: sys_boot_start sys_step_server intro: sys_step_inv)

lemma sys_boot_balanced: "sys_boot se srv = Some s \<Longrightarrow> balanced_sys s"
  by (auto simp: sys_boot_def open_listener_def start_pool_def ThreadPool_make_def BoundedBlockingQueue_make_def
      balanced_sys_def balance_def queue_weight_def workers_weight_def Let_def split: if_splits option.splits)

interpretation sg: invariant_rule "\<lambda>s. sys_boot se srv = Some s" sys_step
    "\<lambda>s. sys_inv s \<and> balanced_sys s \<and> ts_platform (ss_server s) = ts_platform srv \<and>
         ts_listen_fd (ss_server s) = se_socket se"
  for se srv
proof unfold_locales
  fix s s'
  assume i: "sys_inv s \<and> balanced_sys s \<and> ts_platform (ss_server s) = ts_platform srv \<and>
         ts_listen_fd (ss_server s) = se_socket se" and st: "sys_step s s'"
  then show "sys_inv s' \<and> balanced_sys s' \<and> ts_platform (ss_server s') = ts_platform srv \<and>
         ts_listen_fd (ss_server s') = se_socket se"
    using sys_step_balanced [OF st] sys_step_server [OF st] sys_step_inv [OF _ st]
    by (auto simp: sys_inv_def)
qed (auto simp: sys_boot_start sys_boot_balanced)

lemma sys_reachable_facts:
  assumes "sys_reachable se srv s"
  shows "sys_inv s" "balanced_sys s"
    "pool_reachable True (unat (cfg_thread_count (ts_config srv))) (cfg_queue_capacity (ts_config srv)) (ss_pool s)"
    "ts_platform (ss_server s) = ts_platform srv" "ts_listen_fd (ss_server s) = se_socket se"
  using sg.inv_reaches [OF assms [unfolded sys_reachable_def]]
    pool_reaches [OF sp.sim_reaches [OF assms [unfolded sys_reachable_def]]] by simp_all

lemma sys_reachable_gauge:
  assumes "sys_reachable se srv s"
  shows "count_list (events (ss_trace s)) Ev_opened =
         count_list (events (ss_trace s)) Ev_closed + open_connections s"
  using sys_reachable_facts(2) [OF assms] by (simp add: balanced_sys_def gauge_balance)

lemma sys_reachable_fds:
  assumes "sys_reachable se srv s" "ts_platform srv = Posix"
  shows "fd_replay {#se_socket se#} (ss_trace s) = Some (owned s)" "sockets_ok s"
proof -
  have "reaches (\<lambda>s. sys_boot se srv = Some s \<and> ts_platform srv = Posix) sys_step s"
    using assms by (simp add: sys_reachable_def)
  from fd_step_replay [OF sf.sim_reaches [OF this]]
  show "fd_replay {#se_socket se#} (ss_trace s) = Some (owned s)" by simp
  show "sockets_ok s" using sys_reachable_facts(1,4) [OF assms(1)] assms(2) by (simp add: sys_inv_def)
qed

text \<open>The threads that may close the listening socket behave as in \<open>StopRace\<close>, on either platform.\<close>

lemma system_refines_stop:
  assumes "sys_reachable se srv s"
  shows "stop_reach (ts_platform srv) (se_socket se) (ss_stop s)"
  using sr.sim_reaches [OF assms [unfolded sys_reachable_def]]
  by (induction rule: reaches.induct) (auto simp: stop_step_def intro: stop_reach.intros)

subsection \<open>The executable scheduler follows the step relation\<close>

lemma shutdown_turn_moves: "shutdown_turn True p = Some p' \<Longrightarrow> tp_shutdown p' \<noteq> tp_shutdown p"
  by (auto simp: shutdown_turn_def split: shutdown_pc.splits if_splits)

lemma main_do_sound: "main_do rd s = Some s' \<Longrightarrow> sys_step s s'"
proof (cases "ss_main s")
  case M_test
  assume "main_do rd s = Some s'"
  with M_test show ?thesis by (auto simp: main_do_def intro: test_go test_stop split: if_splits)
next
  case M_call
  assume "main_do rd s = Some s'"
  with M_call show ?thesis by (auto simp: main_do_def intro: accept_call)
next
  case (M_accept lfd)
  assume "main_do rd s = Some s'"
  with M_accept show ?thesis
    by (auto simp: main_do_def split: accept_result.splits prod.splits option.splits sum.splits if_splits bool.splits
        intro: accept_again accept_leaves accept_ok [simplified])
next
  case (M_opened t)
  assume "main_do rd s = Some s'"
  with M_opened show ?thesis by (auto simp: main_do_def intro: opened)
next
  case (M_gauge t)
  assume "main_do rd s = Some s'"
  with M_gauge show ?thesis by (auto simp: main_do_def intro: gauge)
next
  case (M_submit t)
  assume m: "main_do rd s = Some s'"
  obtain acts r where sc: "submit_client (ts_platform (ss_server s)) (\<lambda>ks. ks) (\<lambda>_. [])
      (rd\<lparr>ar_pool := ss_pool s\<rparr>) (fst t) (snd t) = (acts, r)" by (metis surj_pair)
  obtain b n p where ps: "pool_submit t (ss_pool s) = (b, n, p)" by (metis surj_pair)
  show ?thesis
  proof (cases "b \<and> ar_submit_throws rd = None")
    case True
    with m M_submit sc ps have "s' = emit acts (s\<lparr>ss_pool := p\<lparr>tp_workers := deliver n (tp_workers p)\<rparr>, ss_main := M_test\<rparr>)"
      by (simp add: main_do_def Option.is_none_def)
    with submit_ok [OF M_submit _ _ _ deliver_notified sc, of n p] True ps show ?thesis by simp
  next
    case False
    with m M_submit sc ps have "s' = s\<lparr>ss_main := M_reject (fst t, acts, r \<noteq> None)\<rparr>"
      by (auto simp: main_do_def Option.is_none_def)
    with submit_refused [OF M_submit _ _ sc] False ps show ?thesis by auto
  qed
next
  case (M_reject act)
  assume "main_do rd s = Some s'"
  with M_reject show ?thesis
    by (auto simp: main_do_def split: prod.splits list.splits if_splits intro: reject_act reject_end)
next
  case M_leave
  assume "main_do rd s = Some s'"
  with M_leave show ?thesis by (auto simp: main_do_def intro: leave)
next
  case M_join
  assume m: "main_do rd s = Some s'"
  show ?thesis
  proof (cases "tp_shutdown (ss_pool s) = S_joined")
    case True
    with m M_join show ?thesis
      by (auto simp: main_do_def split: main_pc.splits intro: finish finished)
  next
    case False
    with m M_join obtain p where "shutdown_turn True (ss_pool s) = Some p" "s' = s\<lparr>ss_pool := p\<rparr>"
      by (auto simp: main_do_def split: shutdown_pc.splits)
    with M_join show ?thesis
      by (auto intro: shutdown shutdown_turn_sound dest: shutdown_turn_moves)
  qed
next
  case M_done
  assume "main_do rd s = Some s'"
  with M_done show ?thesis by (simp add: main_do_def)
qed

lemma worker_turn_side:
  assumes "worker_turn i p = Some p'" "\<forall>t. tp_workers p ! i \<noteq> W_got t" "\<forall>t. tp_workers p ! i \<noteq> W_running t"
  shows "queue_side p p'"
  using assms worker_turn_sound [OF assms(1), of True]
  by (auto simp: worker_turn_def queue_turn_def queue_side_def split: if_splits worker_pc.splits option.splits)

lemma worker_do_sound: "worker_do env i s = Some s' \<Longrightarrow> sys_step s s'"
proof (cases "tp_workers (ss_pool s) ! i")
  case (W_got t)
  assume w: "worker_do env i s = Some s'"
  obtain acts r where h: "handle_client (ss_server s\<lparr>ts_pool := Some (ss_pool s)\<rparr>) env (fst t) (snd t) = (acts, r)"
    by (metis surj_pair)
  have "(\<not> Option.is_none r) = (r \<noteq> None)" by (cases r) (simp_all add: Option.is_none_def)
  with w W_got h worker_start [OF _ W_got h] show ?thesis
    by (auto simp: worker_do_def split: if_splits)
next
  case (W_running t)
  assume "worker_do env i s = Some s'"
  with W_running show ?thesis
    by (auto simp: worker_do_def split: if_splits prod.splits list.splits intro: worker_act worker_finish)
qed (auto simp: worker_do_def split: if_splits intro!: worker_queue worker_turn_side)

lemma sys_do_sound: "sys_do e s = Some s' \<Longrightarrow> sys_step s s'"
  by (cases e)
     (auto intro: main_do_sound worker_do_sound signal handler split: prod.splits list.splits if_splits)

lemma sys_run_sound:
  "sys_reachable se srv s \<Longrightarrow> sys_run es s = Some s' \<Longrightarrow> sys_reachable se srv s'"
proof (induction es arbitrary: s)
  case (Cons e es)
  then show ?case
    by (auto simp: sys_reachable_def split: option.splits dest!: sys_do_sound intro: reaches.step)
qed simp

subsection \<open>Stopping\<close>

text \<open>The actions that the workers have still to do.\<close>

definition pending :: "server_sys \<Rightarrow> nat" where
  "pending s = workers_weight (\<lambda>_. 0) (\<lambda>act. length (fst (snd act))) (tp_workers (ss_pool s)) (ss_work s)"

definition stop_less :: "server_sys \<Rightarrow> server_sys \<Rightarrow> bool" where
  "stop_less s' s =
     (drain_measure (ss_pool s') < drain_measure (ss_pool s) \<or>
      ss_pool s' = ss_pool s \<and>
      (pending s' < pending s \<or>
       pending s' = pending s \<and> handler_rank (st_handler (ss_stop s')) < handler_rank (st_handler (ss_stop s))))"

lemma stop_less_wf: "wfP stop_less"
proof -
  let ?r = "inv_image (less_than <*lex*> less_than <*lex*> less_than)
    (\<lambda>s. (drain_measure (ss_pool s), pending s, handler_rank (st_handler (ss_stop s))))"
  have "wf ?r" by (intro wf_inv_image wf_lex_prod wf_less_than)
  then show ?thesis unfolding wfp_def by (rule wf_subset) (auto simp: stop_less_def)
qed

text \<open>A signal that arrives late leaves everything as it is, up to its log entry.\<close>

definition only_logs :: "server_sys \<Rightarrow> server_sys \<Rightarrow> bool" where
  "only_logs s s' = (s' = s\<lparr>ss_trace := ss_trace s'\<rparr> \<and> (\<exists>msgs. ss_trace s' = ss_trace s @ map (A_log LOG_INFO) msgs))"

lemma pending_act:
  assumes "i < length (tp_workers (ss_pool s))" "tp_workers (ss_pool s) ! i = W_running t"
    and "ss_work s i = (fd, a # acts, ends)"
  shows "pending (emit [a] (s\<lparr>ss_work := (ss_work s)(i := (fd, acts, ends))\<rparr>)) < pending s"
proof -
  let ?w = "workers_weight (\<lambda>_. 0) (\<lambda>act. length (fst (snd act))) (tp_workers (ss_pool s))"
  obtain R where R: "?w (ss_work s) = R + length (fst (snd (ss_work s i)))"
    "?w ((ss_work s)(i := (fd, acts, ends))) = R + length (fst (snd (fd, acts, ends)))"
    by (rule workers_weight_act [OF assms(1,2)])
  show ?thesis using R assms(3) by (simp add: pending_def fun_upd_def)
qed

lemma joining_step:
  assumes "sys_step s s'" "sys_inv s" "shutdown_inv (ss_pool s)" "drain_inv (ss_pool s)"
    and "ss_main s = M_join" "tp_shutdown (ss_pool s) = S_joining"
  shows "stop_less s' s \<or> only_logs s s'"
  using assms
proof (cases rule: sys_step.cases)
  case (shutdown p)
  with drain_step [OF shutdown(3) assms(3,4,6)] show ?thesis by (simp add: stop_less_def)
next
  case (worker_queue p)
  with drain_step [of "ss_pool s" p] assms show ?thesis by (simp add: stop_less_def queue_side_def)
next
  case (worker_start i t seen env acts r)
  with drain_step [OF active_inc [OF worker_start(2,3)] assms(3,4,6)] show ?thesis by (simp add: stop_less_def)
next
  case (worker_finish i t fd)
  with drain_step [OF run_task [OF worker_finish(2,3)] assms(3,4,6)] show ?thesis by (simp add: stop_less_def)
next
  case (worker_act i t fd a acts ends)
  with pending_act [OF worker_act(2-4)] show ?thesis by (simp add: stop_less_def)
next
  case (signal sg a acts srv)
  have e: "s' = emit [shutdown_notice] s" using signal(1) signal_logs [OF signal(2)] by simp
  have "s' = s\<lparr>ss_trace := ss_trace s'\<rparr>"
    unfolding e by (rule server_sys.equality) (simp_all add: shutdown_notice_def)
  moreover have "ss_trace s' = ss_trace s @ map (A_log LOG_INFO) [''Received shutdown signal, stopping server...'']"
    unfolding e by (simp add: shutdown_notice_def)
  ultimately show ?thesis unfolding only_logs_def by blast
next
  case (handler st)
  have "pending s' = pending s" by (simp add: handler(1) pending_def)
  with handler_turn_frame(3) [OF handler(3)] show ?thesis by (simp add: stop_less_def handler(1))
qed simp_all

lemma drain_less:
  assumes "pool_step True (ss_pool s) (ss_pool s')" "shutdown_inv (ss_pool s)" "drain_inv (ss_pool s)"
    and "tp_shutdown (ss_pool s) = S_joining"
  shows "stop_less s' s"
  using drain_step [OF assms] by (simp add: stop_less_def)

lemma queue_moves:
  assumes "tp_workers (ss_pool s) ! i \<in> {W_idle, W_woken, W_finished}"
    and inv: "shutdown_inv (ss_pool s)" "drain_inv (ss_pool s)" "tp_shutdown (ss_pool s) = S_joining"
    and "i < length (tp_workers (ss_pool s))"
  shows "\<exists>s'. sys_step s s' \<and> stop_less s' s"
proof -
  obtain p where p: "worker_turn i (ss_pool s) = Some p" using assms(1,5) by (auto simp: worker_turn_def)
  have q: "queue_side (ss_pool s) p" using assms(1) by (intro worker_turn_side [OF p]) auto
  then have "stop_less (s\<lparr>ss_pool := p\<rparr>) s" by (intro drain_less inv) (simp add: queue_side_def)
  with worker_queue [OF q] show ?thesis by blast
qed

lemma joining_moves:
  assumes inv: "shutdown_inv (ss_pool s)" "drain_inv (ss_pool s)" "tp_shutdown (ss_pool s) = S_joining"
    and m: "ss_main s = M_join"
    and ends: "\<forall>i < length (tp_workers (ss_pool s)). is_running (tp_workers (ss_pool s) ! i) \<longrightarrow> snd (snd (ss_work s i))"
  shows "\<exists>s'. sys_step s s' \<and> stop_less s' s"
proof (cases "list_all (\<lambda>w. w = W_exited) (tp_workers (ss_pool s))")
  case True
  let ?p = "(ss_pool s)\<lparr>tp_shutdown := S_joined\<rparr>"
  have st: "pool_step True (ss_pool s) ?p" using inv(3) True by (rule shutdown_join)
  have "sys_step s (s\<lparr>ss_pool := ?p\<rparr>)" using sys_step.shutdown [OF m st] inv(3) by simp
  with drain_less [of s "s\<lparr>ss_pool := ?p\<rparr>"] st inv show ?thesis by auto
next
  case False
  then obtain i where i: "i < length (tp_workers (ss_pool s))" "tp_workers (ss_pool s) ! i \<noteq> W_exited"
    by (auto simp: list_all_length)
  have nb: "tp_workers (ss_pool s) ! i \<noteq> W_blocked"
    using inv(1,3) i(1) by (auto simp: shutdown_inv_def dest: nth_mem)
  show ?thesis
  proof (cases "tp_workers (ss_pool s) ! i")
    case (W_got t)
    obtain acts r where "handle_client (ss_server s\<lparr>ts_pool := None\<rparr>) undefined (fst t) (snd t) = (acts, r)"
      by (metis surj_pair)
    from worker_start [OF i(1) W_got this] drain_less [OF _ inv] active_inc [OF i(1) W_got, of True]
    show ?thesis by fastforce
  next
    case (W_running t)
    obtain fd acts where w: "ss_work s i = (fd, acts, True)"
      using ends i(1) W_running by (cases "ss_work s i") auto
    show ?thesis
    proof (cases acts)
      case Nil
      from worker_finish [OF i(1) W_running] w Nil drain_less [OF _ inv] run_task [OF i(1) W_running, of True]
      show ?thesis by fastforce
    next
      case (Cons a acts')
      let ?s = "emit [a] (s\<lparr>ss_work := (ss_work s)(i := (fd, acts', True))\<rparr>)"
      have "pending ?s < pending s" by (rule pending_act [OF i(1) W_running w [unfolded Cons]])
      then have "stop_less ?s s" by (simp add: stop_less_def)
      with worker_act [OF i(1) W_running w [unfolded Cons]] show ?thesis by blast
    qed
  next
    case W_exited
    with i show ?thesis by simp
  next
    case W_blocked
    with nb show ?thesis by simp
  next
    case W_idle
    then show ?thesis using i(1) by (intro queue_moves [OF _ inv, of i]) auto
  next
    case W_woken
    then show ?thesis using i(1) by (intro queue_moves [OF _ inv, of i]) auto
  next
    case W_finished
    then show ?thesis using i(1) by (intro queue_moves [OF _ inv, of i]) auto
  qed
qed

text \<open>Once the workers are joined nothing keeps \<open>start\<close> from returning but a handler under way, which ends.\<close>

lemma joined_returns:
  assumes "threads_ok s" "ss_main s = M_join" "tp_shutdown (ss_pool s) = S_joined"
  shows "\<exists>s'. sys_step\<^sup>*\<^sup>* s s' \<and> ss_main s' = M_done"
  using assms
proof (induction "handler_rank (st_handler (ss_stop s)) + main_rank (st_main (ss_stop s))"
    arbitrary: s rule: less_induct)
  case less
  let ?plat = "ts_platform (ss_server s)" and ?st = "ss_stop s"
  show ?case
  proof (cases "st_main ?st = N_done")
    case True
    from finished [OF less.prems(2,3) True] show ?thesis
      by (intro exI [of _ "emit [A_log LOG_INFO ''Server stopped.''] (s\<lparr>ss_main := M_done\<rparr>)"]) auto
  next
    case False
    have nl: "st_main ?st \<noteq> N_loop" using less.prems by (simp add: threads_ok_def)
    have go: ?thesis if st: "sys_step s (emit (new_closes ?st st) (s\<lparr>ss_stop := st\<rparr>))"
      and dec: "handler_rank (st_handler st) + main_rank (st_main st) <
         handler_rank (st_handler ?st) + main_rank (st_main ?st)" for st
    proof -
      let ?s = "emit (new_closes ?st st) (s\<lparr>ss_stop := st\<rparr>)"
      have "threads_ok ?s" by (rule sys_step_threads [OF less.prems(1) st])
      then obtain s' where "sys_step\<^sup>*\<^sup>* ?s s'" "ss_main s' = M_done"
        using less.hyps [of ?s] dec less.prems(2,3) by auto
      with st show ?thesis by (meson converse_rtranclp_into_rtranclp)
    qed
    show ?thesis
    proof (cases "main_turn ?plat ?st")
      case (Some st)
      from finish [OF less.prems(2,3) Some] main_turn_frame(2,5) [OF Some] show ?thesis by (intro go) auto
    next
      case None
      then have w: "under_way (st_handler ?st)"
        using False nl by (auto simp: main_turn_def split: main_pc.splits platform.splits if_splits)
      then obtain st where h: "handler_turn ?plat ?st = Some st"
        by (cases "st_handler ?st"; cases "st_listen_fd ?st = invalid_socket ?plat") (auto simp: handler_turn_def)
      have "shutdown_notice \<in> set (ss_trace s)" using w less.prems(1) by (auto simp: threads_ok_def)
      from handler [OF this h] handler_turn_frame(1,3) [OF h] show ?thesis by (intro go) auto
    qed
  qed
qed

section \<open>Properties\<close>

definition small_server :: TcpServer where
  "small_server =
     sample_server\<lparr>ts_config := (ts_config sample_server)\<lparr>cfg_thread_count := 1, cfg_queue_capacity := 1\<rparr>\<rparr>"

definition ev_main :: sys_event where
  "ev_main = E_main (sample_round (ThreadPool_make 1 1))"

definition ev_accept :: "int \<Rightarrow> sys_event" where
  "ev_accept fd =
     E_main ((sample_round (ThreadPool_make 1 1))\<lparr>ar_result := Accepted fd ''127.0.0.1'' 4000\<rparr>)"

definition ev_worker :: sys_event where
  "ev_worker = E_worker 0 (sample_conn [Received []])"

text \<open>
  A run with one worker and a queue of one: a connection on descriptor 9 is queued, one on 10 is
  rejected, the worker begins to serve 9, a signal stops the accept loop, and the server shuts down.
\<close>

definition sample_run :: "sys_event list" where
  "sample_run =
     [ev_main, ev_main, ev_accept 9, ev_main, ev_main, ev_main, ev_main, ev_main, ev_accept 10] @
     replicate 10 ev_main @ replicate 5 ev_worker @ [E_signal SIGTERM] @ replicate 4 E_handler @
     replicate 5 ev_main @ replicate 6 ev_worker @ replicate 4 ev_main"

definition sample_prefix :: "nat \<Rightarrow> server_sys option" where
  "sample_prefix n = Option.bind (sys_boot sample_start small_server) (sys_run (take n sample_run))"

lemma sample_prefix_reachable:
  "sample_prefix n = Some s \<Longrightarrow> sys_reachable sample_start small_server s"
proof -
  assume "sample_prefix n = Some s"
  then obtain s0 where s0: "sys_boot sample_start small_server = Some s0" "sys_run (take n sample_run) s0 = Some s"
    by (auto simp: sample_prefix_def split: Option.bind_splits)
  have "sys_reachable sample_start small_server s0"
    unfolding sys_reachable_def by (rule reaches.start) (rule s0(1))
  then show ?thesis using s0(2) by (rule sys_run_sound)
qed

definition sample_state :: "nat \<Rightarrow> (server_sys \<Rightarrow> bool) \<Rightarrow> bool" where
  "sample_state n P = (case sample_prefix n of None \<Rightarrow> False | Some s \<Rightarrow> P s)"

lemma sample_stateD:
  "sample_state n P \<Longrightarrow> \<exists>s. sys_reachable sample_start small_server s \<and> P s"
  using sample_prefix_reachable by (fastforce simp: sample_state_def split: option.splits)

text \<open>
  C6: The server drives its pool as the pool's contract demands: in every reachable state of the whole
  server, under any interleaving of the accept loop, the workers, signals and the shutdown, the pool is
  in a state that the pool's own steps reach with \<open>shutdown\<close> never overlapping a \<open>submit\<close>, with the
  configured number of threads and capacity; and the tasks it has accepted are exactly those that the
  accept loop handed over, in order.
\<close>

theorem system_refines_pool:
  assumes "sys_reachable se srv s"
  shows "pool_reachable True (unat (cfg_thread_count (ts_config srv))) (cfg_queue_capacity (ts_config srv))
           (ss_pool s) \<and>
         tp_accepted (ss_pool s) = submits (ss_trace s)"
  using sys_reachable_facts(1,3) [OF assms] by (simp add: sys_inv_def threads_ok_def)

theorem system_refines_pool_witness:
  "\<exists>s :: server_sys. pool_reachable True 1 1 (ss_pool s) \<and> tp_accepted (ss_pool s) = submits (ss_trace s) \<and>
     ss_main s = M_join \<and> submits (ss_trace s) = [(9, ''127.0.0.1:4000'')]"
proof -
  have "sample_state 31 (\<lambda>s. (case ss_main s of M_join \<Rightarrow> True | _ \<Rightarrow> False) \<and>
          submits (ss_trace s) = [(9, ''127.0.0.1:4000'')])" by code_simp
  then obtain s where s: "sys_reachable sample_start small_server s"
    "case ss_main s of M_join \<Rightarrow> True | _ \<Rightarrow> False" "submits (ss_trace s) = [(9, ''127.0.0.1:4000'')]"
    using sample_stateD by blast
  have "unat (cfg_thread_count (ts_config small_server)) = 1" "cfg_queue_capacity (ts_config small_server) = 1"
    by code_simp+
  with system_refines_pool [OF s(1)] s(2,3) show ?thesis by - (rule exI [of _ s], simp split: sys_pc.splits)
qed

text \<open>
  C3: On POSIX no thread ever uses, closes twice or forgets a socket, however the accesses of the main
  thread, the workers and the signal handler interleave: in every reachable state the trace of all threads
  keeps the descriptor discipline (\<open>accept\<close> returns only descriptors that are not open, every send, receive,
  option, bind, listen and \<open>close\<close> is of an open one), although the kernel may reuse a number as soon as it is
  closed; and the kernel's table holds exactly the descriptors that the listening socket, the main thread, the
  queue and the workers have still to close, each of them once. While the main thread is in \<open>accept\<close>, it
  waits on the open listening socket as long as the server runs; once it is stopping, it may also have
  called \<open>accept\<close> on the invalid descriptor or on the number of the listening socket after its closing, which then
  is not in use for any client.
\<close>

theorem descriptor_discipline:
  assumes "sys_reachable se srv s" "ts_platform srv = Posix"
  shows "fd_replay {#se_socket se#} (ss_trace s) = Some (owned s) \<and>
         ss_open s = set_mset (owned s) \<and> (\<forall>fd. count (owned s) fd \<le> 1) \<and>
         (\<forall>fd. ss_main s = M_accept fd \<longrightarrow>
            (if st_running (ss_stop s) then fd = se_socket se \<and> fd \<in> ss_open s
             else fd \<in> {se_socket se, invalid_socket Posix} \<and>
                  (se_socket se \<in> ss_open s \<longleftrightarrow> st_closed (ss_stop s) = [])))"
proof -
  note f = sys_reachable_fds [OF assms]
  have L: "ts_listen_fd (ss_server s) = se_socket se" by (rule sys_reachable_facts(5) [OF assms(1)])
  have t: "ss_open s = set_mset (owned s)" "\<forall>fd. count (owned s) fd \<le> 1"
    using f(2) by (simp_all add: sockets_ok_def table_ok_def)
  have "if st_running (ss_stop s) then fd = se_socket se \<and> fd \<in> ss_open s
        else fd \<in> {se_socket se, invalid_socket Posix} \<and> (se_socket se \<in> ss_open s \<longleftrightarrow> st_closed (ss_stop s) = [])"
    if "ss_main s = M_accept fd" for fd
  proof -
    have c: "se_socket se \<notin># client_fds s" "fd = se_socket se \<or> fd = invalid_socket Posix \<and> \<not> st_running (ss_stop s)"
      using f(2) L that by (simp_all add: sockets_ok_def)
    then have "se_socket se \<in> ss_open s \<longleftrightarrow> st_closed (ss_stop s) = []"
      using t(1) L by (simp add: owned_def listen_fds_def)
    moreover have "st_running (ss_stop s) \<Longrightarrow> st_closed (ss_stop s) = []"
      using f(2) by (auto simp: sockets_ok_def stop_inv_def split: handler_pc.splits)
    ultimately show ?thesis using c(2) by auto
  qed
  with f(1) t show ?thesis by blast
qed

theorem descriptor_discipline_witness:
  "\<exists>s :: server_sys. fd_replay {#3#} (ss_trace s) = Some (owned s) \<and> ss_open s = {3, 9} \<and> set_mset (owned s) = {3, 9} \<and>
     ss_main s = M_accept 3 \<and> st_running (ss_stop s)"
proof -
  have "sample_state 8 (\<lambda>s. ss_open s = {3, 9} \<and> (case ss_main s of M_accept fd \<Rightarrow> True | _ \<Rightarrow> False) \<and>
          st_running (ss_stop s))" by code_simp
  then obtain s where s: "sys_reachable sample_start small_server s" "ss_open s = {3, 9}"
    "case ss_main s of M_accept fd \<Rightarrow> True | _ \<Rightarrow> False" "st_running (ss_stop s)"
    using sample_stateD by blast
  have p: "ts_platform small_server = Posix" "se_socket sample_start = 3" by code_simp+
  obtain fd where "ss_main s = M_accept fd" using s(3) by (auto split: sys_pc.splits)
  with descriptor_discipline [OF s(1) p(1)] s(2,4) p(2) show ?thesis by - (rule exI [of _ s], auto)
qed

text \<open>
  The window in \<open>stop\<close> between closing the socket and resetting \<open>listen_fd_\<close>: the main thread, which found
  \<open>running_\<close> set before, may call \<open>accept\<close> on the closed descriptor. On Windows, where nobody joins the
  console handler, the listening socket may moreover be closed by both threads, so that the platform in
  the two theorems around this lemma is needed.
\<close>

definition ev_fail :: sys_event where
  "ev_fail = E_main ((sample_round (ThreadPool_make 1 1))\<lparr>ar_result := Accept_failed 9\<rparr>)"

definition early_close_run :: "sys_event list" where
  "early_close_run = [ev_main, E_signal SIGTERM] @ replicate 3 E_handler @ [ev_main]"

definition double_close_run :: "sys_event list" where
  "double_close_run =
     [ev_main, ev_main, E_signal CTRL_C_EVENT] @ replicate 2 E_handler @ [ev_fail] @ replicate 4 ev_main @
     [ev_worker] @ replicate 4 ev_main @ [E_handler]"

definition run_shows :: "TcpServer \<Rightarrow> sys_event list \<Rightarrow> (server_sys \<Rightarrow> bool) \<Rightarrow> bool" where
  "run_shows srv es P =
     (case Option.bind (sys_boot sample_start srv) (sys_run es) of None \<Rightarrow> False | Some s \<Rightarrow> P s)"

lemma run_shows_reachable:
  assumes "run_shows srv es P"
  shows "\<exists>s. sys_reachable sample_start srv s \<and> P s"
proof -
  obtain s0 s where "sys_boot sample_start srv = Some s0" "sys_run es s0 = Some s" "P s"
    using assms by (auto simp: run_shows_def split: option.splits Option.bind_splits)
  then show ?thesis using sys_run_sound [of sample_start srv s0 es s]
    by (auto simp: sys_reachable_def intro: reaches.start)
qed

lemma accept_after_close:
  "\<exists>s. sys_reachable sample_start small_server s \<and> ss_main s = M_accept 3 \<and> 3 \<notin> ss_open s"
proof -
  have "run_shows small_server early_close_run (\<lambda>s. 3 \<notin> ss_open s \<and>
      (case ss_main s of M_accept fd \<Rightarrow> fd = 3 | _ \<Rightarrow> False))" by code_simp
  from run_shows_reachable [OF this] obtain s where s: "sys_reachable sample_start small_server s"
    "3 \<notin> ss_open s" "case ss_main s of M_accept fd \<Rightarrow> fd = 3 | _ \<Rightarrow> False" by blast
  then have "ss_main s = M_accept 3" by (cases "ss_main s") simp_all
  with s show ?thesis by blast
qed

lemma windows_double_close:
  "\<exists>s. sys_reachable sample_start (small_server\<lparr>ts_platform := Windows\<rparr>) s \<and> closes (ss_trace s) = [3, 3]"
proof -
  have "run_shows (small_server\<lparr>ts_platform := Windows\<rparr>) double_close_run (\<lambda>s. closes (ss_trace s) = [3, 3])"
    by code_simp
  from run_shows_reachable [OF this] show ?thesis .
qed

text \<open>
  C2: On POSIX, when \<open>start\<close> has returned, whatever the clients, the kernel and the scheduler did and
  wherever the accesses of the signal handler fell: the server is stopped, all workers have left, every
  connection handed to the pool has been served, every accepted descriptor has been closed as often as it was
  accepted and the listening socket once, no socket is open, \<open>listen_fd_\<close> is reset, and the gauge of active
  connections is back at its old value.
\<close>

theorem stopped_server_clean:
  assumes "sys_reachable se srv s" "ts_platform srv = Posix" "ss_main s = M_done"
  shows "\<not> st_running (ss_stop s) \<and> st_listen_fd (ss_stop s) = invalid_socket Posix \<and> ss_open s = {} \<and>
         list_all (\<lambda>w. w = W_exited) (tp_workers (ss_pool s)) \<and>
         mset (tp_executed (ss_pool s)) = mset (submits (ss_trace s)) \<and>
         mset (closes (ss_trace s)) = mset (accepts (ss_trace s)) + {#se_socket se#} \<and>
         active_connections (fold (apply_event dops) (events (ss_trace s)) m) = active_connections m"
proof -
  note f = sys_reachable_facts [OF assms(1)] and g = sys_reachable_fds [OF assms(1,2)]
  have inv: "\<not> st_running (ss_stop s)" "st_main (ss_stop s) = N_done" "tp_shutdown (ss_pool s) = S_joined"
    "tp_accepted (ss_pool s) = submits (ss_trace s)"
    using f(1) assms(3) by (simp_all add: sys_inv_def threads_ok_def)
  have st: "st_listen_fd (ss_stop s) = invalid_socket Posix" "st_closed (ss_stop s) \<noteq> []"
    using g(2) inv(2) by (auto simp: sockets_ok_def stop_inv_def split: handler_pc.splits)
  note d = pool_joined [OF f(3) inv(3)]
  have w: "workers_weight tw aw (tp_workers (ss_pool s)) (ss_work s) = 0" for tw aw
    using d(1) by (auto simp: workers_weight_def list_all_length)
  have q: "queue_weight tw (ss_pool s) = 0" for tw using d(2) by (simp add: queue_weight_def)
  have o: "owned s = {#}" by (simp add: owned_defs listen_fds_def st(2) assms(3) w q)
  have "open_connections s = 0" by (simp add: open_connections_def assms(3) w q)
  then have e: "count_list (events (ss_trace s)) Ev_opened = count_list (events (ss_trace s)) Ev_closed"
    using sys_reachable_gauge [OF assms(1)] by simp
  have c: "mset (closes (ss_trace s)) = mset (accepts (ss_trace s)) + {#se_socket se#}"
    using fd_replay_balance [OF g(1)] by (simp add: o)
  have "ss_open s = {}" using g(2) by (simp add: sockets_ok_def table_ok_def o)
  with inv st(1) d c e show ?thesis using counters_fold [of dops "events (ss_trace s)" m] by simp
qed

theorem stopped_server_clean_witness:
  "\<exists>s :: server_sys. ss_main s = M_done \<and> ss_open s = {} \<and> accepts (ss_trace s) = [9, 10] \<and>
     mset (closes (ss_trace s)) = {#9, 10, 3#} \<and>
     mset (tp_executed (ss_pool s)) = mset (submits (ss_trace s))"
proof -
  have "sample_state 44 (\<lambda>s. (case ss_main s of M_done \<Rightarrow> True | _ \<Rightarrow> False) \<and> accepts (ss_trace s) = [9, 10])"
    by code_simp
  then obtain s where s: "sys_reachable sample_start small_server s"
    "case ss_main s of M_done \<Rightarrow> True | _ \<Rightarrow> False" "accepts (ss_trace s) = [9, 10]"
    using sample_stateD by blast
  have p: "ts_platform small_server = Posix" "se_socket sample_start = 3" by code_simp+
  have "ss_main s = M_done" using s(2) by (simp split: sys_pc.splits)
  with stopped_server_clean [OF s(1) p(1), of sample_dops "Metrics_init 0"] s(3) p(2)
  show ?thesis by - (rule exI [of _ s], simp)
qed

text \<open>
  C4: The counters account for all connections: on either platform, when \<open>start\<close> has returned, whatever the
  interleaving, the requests counted are exactly the connections handed to the pool, and the outcomes
  counted (successes, client errors and server errors together) are exactly the responses sent, rejections
  with 503 included; so a connection whose client sent nothing counts as a request without an outcome.
\<close>

theorem connections_accounted:
  assumes "sys_reachable se srv s" "ss_main s = M_done"
  shows "total_requests (fold (apply_event dops) (events (ss_trace s)) m) =
           total_requests m + of_nat (length (submits (ss_trace s))) \<and>
         successful_requests (fold (apply_event dops) (events (ss_trace s)) m) +
         client_errors (fold (apply_event dops) (events (ss_trace s)) m) +
         server_errors (fold (apply_event dops) (events (ss_trace s)) m) =
           successful_requests m + client_errors m + server_errors m + of_nat (length (wires (ss_trace s)))"
proof -
  note f = sys_reachable_facts [OF assms(1)]
  have "tp_shutdown (ss_pool s) = S_joined" using f(1) assms(2) by (simp add: sys_inv_def threads_ok_def)
  note d = pool_joined [OF f(3) this]
  have w: "workers_weight tw aw (tp_workers (ss_pool s)) (ss_work s) = 0" for tw :: "task \<Rightarrow> int" and aw
    using d(1) by (auto simp: workers_weight_def list_all_length)
  have q: "queue_weight tw (ss_pool s) = 0" for tw :: "task \<Rightarrow> int" using d(2) by (simp add: queue_weight_def)
  have "count_list (events (ss_trace s)) Ev_request = length (submits (ss_trace s))"
    "outcomes (events (ss_trace s)) = length (wires (ss_trace s))"
    using f(2) by (simp_all add: balanced_sys_def balance_def amounts_counts assms(2) w q)
  then show ?thesis
    using counters_fold [of dops "events (ss_trace s)" m] outcomes_counts [of "events (ss_trace s)"]
    by (simp add: ac_simps flip: of_nat_add)
qed

theorem connections_accounted_witness:
  "\<exists>s :: server_sys. ss_main s = M_done \<and> submits (ss_trace s) = [(9, ''127.0.0.1:4000'')] \<and>
     total_requests (fold (apply_event sample_dops) (events (ss_trace s)) (Metrics_init 0)) =
       total_requests (Metrics_init 0) + of_nat (length (submits (ss_trace s)))"
proof -
  have "sample_state 44 (\<lambda>s. (case ss_main s of M_done \<Rightarrow> True | _ \<Rightarrow> False) \<and>
          submits (ss_trace s) = [(9, ''127.0.0.1:4000'')])" by code_simp
  then obtain s where s: "sys_reachable sample_start small_server s"
    "case ss_main s of M_done \<Rightarrow> True | _ \<Rightarrow> False" "submits (ss_trace s) = [(9, ''127.0.0.1:4000'')]"
    using sample_stateD by blast
  have "ss_main s = M_done" using s(2) by (simp split: sys_pc.splits)
  with connections_accounted [OF s(1) this] s(3) show ?thesis by - (rule exI [of _ s], simp)
qed

text \<open>
  C31: The gauge of active connections is exact at every moment: under any interleaving it has grown by
  the number of connections that some thread or the queue holds between \<open>connection_opened\<close> and
  \<open>connection_closed\<close>; so it never wraps around below its initial value.
\<close>

theorem connection_gauge_exact:
  assumes "sys_reachable se srv s"
  shows "active_connections (fold (apply_event dops) (events (ss_trace s)) m) =
         active_connections m + of_nat (open_connections s)"
  using sys_reachable_gauge [OF assms] counters_fold [of dops "events (ss_trace s)" m] by simp

theorem connection_gauge_exact_witness:
  "\<exists>s :: server_sys. ss_open s = {3, 9, 10} \<and>
     active_connections (fold (apply_event sample_dops) (events (ss_trace s)) (Metrics_init 0)) =
     active_connections (Metrics_init 0) + of_nat (open_connections s)"
proof -
  have "sample_state 14 (\<lambda>s. ss_open s = {3, 9, 10})" by code_simp
  then obtain s where "sys_reachable sample_start small_server s" "ss_open s = {3, 9, 10}"
    using sample_stateD by blast
  with connection_gauge_exact show ?thesis by blast
qed

text \<open>
  C7: The server stops: once \<open>start\<close> waits in \<open>join\<close>, and unless a worker is stuck in a system call for ever,
  some thread can move and bring the server closer to its end in a well-founded order; and no step leads away
  from it: every step of any thread descends in that order, except that a late signal writes its log entry.
\<close>

theorem server_stops:
  assumes "sys_reachable se srv s" "ss_main s = M_join" "tp_shutdown (ss_pool s) = S_joining"
    and "\<forall>i < length (tp_workers (ss_pool s)). is_running (tp_workers (ss_pool s) ! i) \<longrightarrow> snd (snd (ss_work s i))"
  shows "wfP stop_less \<and> (\<exists>s'. sys_step s s' \<and> stop_less s' s) \<and>
         (\<forall>s'. sys_step s s' \<longrightarrow> stop_less s' s \<or> only_logs s s')"
proof -
  note f = sys_reachable_facts [OF assms(1)]
  note p = pool_reachable_invs(3) [OF f(3)] pool_reachable_drain [OF f(3)]
  from joining_moves [OF p assms(3,2,4)] joining_step [OF _ f(1) p assms(2,3)] stop_less_wf
  show ?thesis by blast
qed

theorem server_stops_witness:
  "\<exists>s :: server_sys. tp_shutdown (ss_pool s) = S_joining \<and> pending s = 3 \<and>
     (\<exists>s'. sys_step s s' \<and> stop_less s' s) \<and>
     (\<forall>s'. sys_step s s' \<longrightarrow> stop_less s' s \<or> only_logs s s')"
proof -
  have "sample_state 34 (\<lambda>s. (case ss_main s of M_join \<Rightarrow> True | _ \<Rightarrow> False) \<and>
          (case tp_shutdown (ss_pool s) of S_joining \<Rightarrow> True | _ \<Rightarrow> False) \<and>
          length (tp_workers (ss_pool s)) = 1 \<and> snd (snd (ss_work s 0)) \<and> pending s = 3)" by code_simp
  then obtain s where s: "sys_reachable sample_start small_server s"
    "case ss_main s of M_join \<Rightarrow> True | _ \<Rightarrow> False"
    "case tp_shutdown (ss_pool s) of S_joining \<Rightarrow> True | _ \<Rightarrow> False"
    "length (tp_workers (ss_pool s)) = 1" "snd (snd (ss_work s 0))" "pending s = 3"
    using sample_stateD by blast
  have "ss_main s = M_join" "tp_shutdown (ss_pool s) = S_joining"
    using s(2,3) by (simp_all split: sys_pc.splits shutdown_pc.splits)
  moreover from this have "wfP stop_less \<and> (\<exists>s'. sys_step s s' \<and> stop_less s' s) \<and>
         (\<forall>s'. sys_step s s' \<longrightarrow> stop_less s' s \<or> only_logs s s')"
    using s(4,5) by (intro server_stops [OF s(1)]) simp_all
  ultimately show ?thesis using s(6) by blast
qed

end
