(* ===== verification/ServerMain.thy ===== *)
theory ServerMain
  imports TcpServer
begin

text \<open>
  Model of \<open>src/main.cpp\<close>: the configuration is parsed outside the \<open>try\<close>; on Windows the socket library
  is initialised; the server is created and started inside the \<open>try\<close> and destroyed afterwards; the exit
  status is success unless the socket library fails. The handlers for signals and console events are
  modelled in the theory \<open>TcpServer\<close>, where their calls interleave with the accept loop. An
  exception that escapes \<open>main\<close> terminates the process (\<open>Terminated\<close>), and so does the destruction of a joinable
  thread when the pool cannot be created (\<open>Aborted\<close>). The result is what is printed on the error
  stream, the effects, and the exit status, which is \<open>None\<close> while the server runs.
\<close>

datatype exit_status = Exit_status int | Terminated exn | Aborted

record main_env =
  me_hardware_concurrency :: u32
  me_getenv :: "string \<Rightarrow> string option"
  me_program :: string
  me_args :: "string list"
  me_fs :: filesystem
  me_platform :: platform
  me_wsastartup :: int
  me_start :: start_env

definition initialize_winsock :: "main_env \<Rightarrow> string \<times> bool" where
  "initialize_winsock env =
     (if me_wsastartup env \<noteq> 0
      then (''WSAStartup failed: '' @ int_to_string (me_wsastartup env) @ [LF], False)
      else ([], True))"

fun cleanup_winsock :: "platform \<Rightarrow> action list" where
  "cleanup_winsock Posix = []"
| "cleanup_winsock Windows = [A_wsacleanup]"

definition run_server :: "main_env \<Rightarrow> Config \<Rightarrow> action list \<times> exit_status option" where
  "run_server env cfg =
     (case TcpServer_make (me_platform env) (me_fs env) cfg of (acts0, srv) \<Rightarrow>
         case TcpServer_start (me_start env) srv of ((acts1, r), srv') \<Rightarrow>
           (case r of
              None \<Rightarrow> (acts0 @ acts1, None)
            | Some Start_terminated \<Rightarrow> (acts0 @ acts1, Some Aborted)
            | Some res \<Rightarrow>
                (let fatal = (case res of
                       Start_thrown e \<Rightarrow> [A_log LOG_ERROR (''Fatal: '' @ se_what (me_start env) e)]
                     | _ \<Rightarrow> [])
                 in (acts0 @ acts1 @ fatal @ fst (TcpServer_destroy srv') @ cleanup_winsock (me_platform env) @
                     [A_log LOG_INFO ''Server shutdown complete.''], Some (Exit_status 0)))))"

definition main_program :: "main_env \<Rightarrow> string \<times> action list \<times> exit_status option" where
  "main_program env =
     (case Config_parse (me_platform env) (me_hardware_concurrency env) (me_getenv env) (me_program env) (me_args env) of
        Inl e \<Rightarrow> ([], [], Some (Terminated e))
      | Inr (Exited code usage) \<Rightarrow> (usage, [], Some (Exit_status code))
      | Inr (Parsed cfg) \<Rightarrow>
          (let log0 = A_log LOG_INFO (''Starting HTTP server on port '' @ nat_to_string (unat (cfg_port cfg)));
               (err, ok) = (case me_platform env of Posix \<Rightarrow> ([], True) | Windows \<Rightarrow> initialize_winsock env)
           in if \<not> ok then (err, [log0], Some (Exit_status 1))
              else case run_server env cfg of (acts, st) \<Rightarrow> (err, log0 # acts, st)))"

lemma start_terminated:
  assumes "TcpServer_start se srv = ((acts, Some Start_terminated), srv')"
  shows "\<exists>n e. se_pool_fails se = Some (n, e) \<and> 0 < n"
proof -
  have "start_result r \<noteq> Some Start_terminated" for r by (cases r rule: start_result.cases) simp_all
  with assms show ?thesis
    by (auto simp: TcpServer_start_def start_pool_def Let_def split: prod.splits if_splits option.splits)
qed

lemma run_server_exits:
  assumes "run_server env cfg = (acts, Some st)"
  shows "st = Exit_status 0 \<or> st = Aborted \<and> (\<exists>n e. se_pool_fails (me_start env) = Some (n, e) \<and> 0 < n)"
  using assms
  by (auto simp: run_server_def Let_def split: prod.splits option.splits start_end.splits
      dest: start_terminated)


definition sample_main :: main_env where
  "sample_main =
     \<lparr>me_hardware_concurrency = 4, me_getenv = (\<lambda>_. None), me_program = ''http_server'', me_args = [],
      me_fs = sample_fs, me_platform = Posix, me_wsastartup = 0,
      me_start = sample_start\<lparr>se_bind := -1\<rparr>\<rparr>"


end
