(* ===== verification/Spec2Isabelle.thy ===== *)
theory Spec2Isabelle
  imports Prelude Transition HttpRequest HttpResponse HttpParser HeaderFields StaticFileHandler Metrics
    BlockingQueue ThreadPool Router MetricsReport Logger Config SocketCompat SocketIO TcpServer StopRace
    ServerLog ServerSystem ServerMain
begin

text \<open>
  Verification of the multithreaded HTTP server (C++17, \<open>src/src\<close> and \<open>src/include/server\<close>).

  \<^bold>\<open>The program.\<close> \<open>main\<close> reads a configuration, creates a \<open>TcpServer\<close> and starts it. The server opens a
  listening socket, creates a \<open>ThreadPool\<close> over a bounded queue and accepts connections on the main
  thread. Each connection is a task for the pool, or is answered with 503 at once when the queue is
  full. A worker reads the request from the socket, parses it, lets the \<open>Router\<close> answer it (from a
  table of handlers or from the files below the document root), serialises the response, sends it, and
  closes the connection. All threads update the \<open>Metrics\<close> and write to the \<open>Logger\<close>. A signal stops the
  accept loop; then the pool is drained and joined.

  \<^bold>\<open>Theories\<close>, in the order of their imports.
  \<^item> \<open>Prelude\<close>: the part of the C++ library that the code uses. Strings and streams with \<open>npos\<close>, the
    64-bit wrap-around of position arithmetic, \<open>stoi\<close>, \<open>stoull\<close>, \<open>unordered_map\<close> with an arbitrary
    iteration order, exceptions as a sum type, \<open>double\<close> as its bit pattern with arithmetic and
    formatting as parameters.
  \<^item> \<open>Transition\<close>: reachable states, and the contracts \<open>invariant_rule\<close> and \<open>simulation\<close> (locales, the second
    extending the first) by which the running server is related to its pool, to the race of \<open>stop\<close> and to
    its sockets.
  \<^item> \<open>HttpRequest\<close>, \<open>HttpResponse\<close>, \<open>HttpParser\<close> (\<open>http_request.hpp\<close>, \<open>http_response.hpp\<close>,
    \<open>http_parser.cpp\<close>): the request and response objects with all operations, and the parser. The
    lemmas show that no exception escapes the parser, that a request in the wire format is read back
    exactly, what the parser accepts and which errors it reports, that it takes the length of the body also
    from the end of another header's name; and that a serialised response can be split unambiguously.
  \<^item> \<open>HeaderFields\<close>: a reference for the header text, written with list functions, which the loop of
    \<open>build_request\<close> and \<open>HttpParser::trim\<close> compute, and the well-formedness of every request that
    reaches a handler.
  \<^item> \<open>StaticFileHandler\<close> (\<open>static_file_handler.cpp\<close>): URL decoding, path normalisation, MIME types and
    \<open>serve\<close> over an arbitrary file system (a record of its answers). The specifications are written
    independently of the code: confinement compares the names of canonical paths, on every file system whose
    \<open>canonical\<close> gives absolute paths of plain names; the normalisation resolves components over a
    stack; a directory tree of plain files is served completely, with types from a table.
  \<^item> \<open>Metrics\<close> (\<open>metrics.hpp\<close>): 64-bit counters, the JSON report, and the compare-exchange loop of the
    peak counter as an interleaved step relation. \<open>MetricsReport\<close>: a reader recovers all counters from the
    report.
  \<^item> \<open>BlockingQueue\<close>, \<open>ThreadPool\<close> (\<open>blocking_queue.hpp\<close>, \<open>thread_pool.hpp\<close>): the queue's operations as
    atomic steps with the notification they issue, against the contract \<open>bounded_queue\<close> (a locale,
    interpreted on the operations); the pool as a step relation over worker, submitter and shutdown
    program counters with arbitrary and spurious wake-ups. Invariants by rule induction give task
    accounting, the absence of lost wake-ups, and that \<open>shutdown\<close> drains the queue and terminates (a
    measure). \<open>pool_run\<close> is an executable scheduler for concrete runs.
  \<^item> \<open>Router\<close> (\<open>router.cpp\<close>): the route table against the contract \<open>route_table\<close> (a locale), the
    dispatch, and all default handlers.
  \<^item> \<open>Logger\<close>, \<open>Config\<close> (\<open>logger.hpp\<close>, \<open>config.hpp\<close>): time stamps, filtering and output of messages;
    environment and command line (\<open>unsigned long\<close> has 32 bits on Windows).
  \<^item> \<open>SocketCompat\<close>, \<open>SocketIO\<close>, \<open>TcpServer\<close>, \<open>ServerMain\<close> (\<open>socket_compat.hpp\<close>, \<open>tcp_server.cpp\<close>,
    \<open>main.cpp\<close>): the two platforms; the loops around \<open>send\<close> and \<open>recv\<close> over scripts of system call
    results; \<open>handle_client\<close>, \<open>accept_loop\<close>, \<open>start\<close>, \<open>stop\<close>, the signal and console handlers and \<open>main\<close> as
    functions to traces of effects, a failing creation of the pool included. Here a run of a handler falls
    between two accesses of the accepting thread.
  \<^item> \<open>ServerLog\<close>: the entries that a connection writes to the log; each is one line, whatever the client sends,
    unless an exception occurs, whose text is quoted.
  \<^item> \<open>StopRace\<close>: the accesses of \<open>stop\<close> and of the end of \<open>start\<close> to the listening socket, one per step.
    It is closed once on POSIX; on Windows there is a race.
  \<^item> \<open>ServerSystem\<close>: the composition. One state holds the main thread's program counter, the state of
    \<open>StopRace\<close>, the pool, what each worker has still to do for its connection, and the kernel's table of open
    sockets; one step relation (\<open>sys_step\<close>) interleaves the actions of the functions of \<open>TcpServer\<close> with the
    steps of the pool and with the single accesses of the signal handler and of the end of \<open>start\<close>. The system
    refines the pool, the race of \<open>stop\<close> and, on POSIX, a discipline of descriptors (three interpretations
    of \<open>simulation\<close>): no socket is used after it is closed, closed twice or leaked, although the kernel reuses
    numbers, and \<open>accept\<close> waits on the open listening socket while the server runs; when \<open>start\<close> returns everything
    is closed and served; stopping terminates. Quantities that all threads together keep in balance
    (open connections, requests, outcomes) share the contract \<open>flow\<close> (a locale with three interpretations).
    \<open>sys_run\<close> executes schedules; two of them show an \<open>accept\<close> on the closed listening socket, and the double
    close on Windows.
  \<^item> This theory: what a client can receive.

  \<^bold>\<open>State and effects.\<close> Objects are records passed explicitly. Shared state that several threads update
  is treated where it matters by a step relation (the pool, the peak counter), and elsewhere by traces:
  an operation is the list of its effects in program order, and a run of the server (\<open>sys_step\<close>) interleaves
  the lists of its threads. The metrics after a run are the fold of its metric events.

  \<^bold>\<open>Bounds and termination.\<close> No fuel is used. Loops that follow their input are total functions; loops
  that wait for the kernel consume a script of its answers and return \<open>None\<close> when it is used up, so
  each claim that a loop returns is stated as an equation with \<open>Some\<close>. Hypotheses that lengths are below
  \<open>2 ^ 64\<close> hold for every string that fits in memory.

  \<^bold>\<open>Environment.\<close> Parameters stand for what is outside the sources: the file system, the kernel's answers,
  clock and scheduler, floating point, the iteration order of \<open>unordered_map\<close> (any permutation), the
  text of \<open>what()\<close>, environment variables, \<open>hardware_concurrency\<close>, and the platform, POSIX or Windows, for
  which the sources are compiled.

  \<^bold>\<open>Not modelled\<close>: the front-end files under \<open>public\<close>, the tests, memory exhaustion other than as an exception of
  \<open>submit\<close> or in the creation of the pool, \<open>SIGPIPE\<close>, and memory orders weaker than sequential consistency,
  which the relaxed counters do not need for the claims made here. In \<open>ServerSystem\<close> a connection's run is chosen
  when it begins, the gauge of the queue's size that it stores is arbitrary, and a call of \<open>send_all\<close> or
  \<open>recv_request\<close> is one use of its descriptor.

  \<^bold>\<open>Next\<close>: fairness for connections that wait in the queue.
\<close>

section \<open>Properties\<close>

text \<open>
  C14: Whatever a client sends, and whatever the file system, the kernel and the timing do, all that
  a server with the default routes ever sends on the connection is (an initial part of) the
  serialisation of one well-formed response.
\<close>

theorem client_receives_one_response:
  assumes "iteration_order (ce_ord env)"
    and "ts_router srv = setup_default_routes (Router_make fs root)"
    and "handle_client srv env fd addr = (acts, r)"
  shows "wires acts = [] \<or>
         (\<exists>resp s. resp_wf resp \<and> prefix s (serialize (ce_ord env) resp) \<and> wires acts = [(fd, s)])"
  using handle_client_wf [OF assms(1), of srv fd addr] default_routes_wf [OF Router_make_wf [of fs root]]
  by (simp add: assms(2,3) wires_wf_def)

theorem client_receives_one_response_witness:
  "\<exists>s resp. wires (fst (handle_client sample_server (sample_conn [Received sample_text]) 9 ''c'')) = [(9, s)] \<and>
     resp_wf resp \<and> prefix s (serialize (\<lambda>ks. ks) resp)"
proof -
  let ?env = "sample_conn [Received sample_text]"
  obtain acts r where h: "handle_client sample_server ?env 9 ''c'' = (acts, r)" by (metis surj_pair)
  have o: "ce_ord ?env = (\<lambda>ks. ks)" by (simp add: sample_conn_def)
  have "wires (fst (handle_client sample_server ?env 9 ''c'')) \<noteq> []" by code_simp
  then have ne: "wires acts \<noteq> []" by (simp only: h fst_conv not_False_eq_True)
  have "ts_router sample_server = setup_default_routes (Router_make sample_fs ''/srv'')"
    by (simp add: sample_server_def TcpServer_make_def Config_default_def)
  from client_receives_one_response [OF _ this h] ne show ?thesis unfolding o h fst_conv by auto
qed

end
